(* ===== verification/Trusty_Prelude.thy ===== *)
theory Trusty_Prelude
  imports Main "HOL-Library.Word"
begin

text \<open>
  Shared vocabulary of the development: the machine integer types of the 32-bit ARM
  configuration of Trusty, the error codes of \<^verbatim>\<open>err.h\<close>, results that are either an
  error or a value, little-endian integers in byte strings, and lemmas on lists, options
  and words used by several components.
\<close>

unbundle bit_operations_syntax

named_theorems ipc_defs
  \<open>definitions of the small state updates that component proofs unfold together\<close>

type_synonym u8 = "8 word"
type_synonym u16 = "16 word"
type_synonym u32 = "32 word"
type_synonym u64 = "64 word"

section \<open>Error codes\<close>

text \<open>
  The negative status codes of \<^verbatim>\<open>external/lk/include/err.h\<close> that the modelled code
  returns. \<^verbatim>\<open>NO_ERROR\<close> is the right summand of a result.
\<close>

datatype err =
    ERR_GENERIC
  | ERR_NOT_FOUND
  | ERR_NOT_READY
  | ERR_NO_MSG
  | ERR_NO_MEMORY
  | ERR_ALREADY_STARTED
  | ERR_NOT_VALID
  | ERR_INVALID_ARGS
  | ERR_NOT_ENOUGH_BUFFER
  | ERR_TIMED_OUT
  | ERR_ALREADY_EXISTS
  | ERR_CHANNEL_CLOSED
  | ERR_NOT_SUPPORTED
  | ERR_TOO_BIG
  | ERR_BAD_STATE
  | ERR_FAULT
  | ERR_NO_RESOURCES
  | ERR_BAD_HANDLE
  | ERR_ACCESS_DENIED

fun err_code :: "err \<Rightarrow> int" where
  "err_code ERR_GENERIC = -1"
| "err_code ERR_NOT_FOUND = -2"
| "err_code ERR_NOT_READY = -3"
| "err_code ERR_NO_MSG = -4"
| "err_code ERR_NO_MEMORY = -5"
| "err_code ERR_ALREADY_STARTED = -6"
| "err_code ERR_NOT_VALID = -7"
| "err_code ERR_INVALID_ARGS = -8"
| "err_code ERR_NOT_ENOUGH_BUFFER = -9"
| "err_code ERR_TIMED_OUT = -13"
| "err_code ERR_ALREADY_EXISTS = -14"
| "err_code ERR_CHANNEL_CLOSED = -15"
| "err_code ERR_NOT_SUPPORTED = -24"
| "err_code ERR_TOO_BIG = -25"
| "err_code ERR_BAD_STATE = -31"
| "err_code ERR_FAULT = -40"
| "err_code ERR_NO_RESOURCES = -41"
| "err_code ERR_BAD_HANDLE = -42"
| "err_code ERR_ACCESS_DENIED = -43"

type_synonym 'a res = "err + 'a"

abbreviation NO_ERROR :: "unit res" where
  "NO_ERROR \<equiv> Inr ()"

lemma err_code_neg: "err_code e < 0"
  by (cases e) simp_all

lemma err_code_inj: "err_code e = err_code e' \<Longrightarrow> e = e'"
  by (cases e; cases e'; simp)

section \<open>Little-endian integers\<close>

text \<open>
  The structures shared with user space and with the non-secure world are packed
  little-endian integers.
\<close>

fun le_nat :: "u8 list \<Rightarrow> nat" where
  "le_nat [] = 0"
| "le_nat (b # bs) = unat b + 256 * le_nat bs"

fun nat_le :: "nat \<Rightarrow> nat \<Rightarrow> u8 list" where
  "nat_le 0 n = []"
| "nat_le (Suc k) n = word_of_nat (n mod 256) # nat_le k (n div 256)"

definition le32 :: "u8 list \<Rightarrow> u32" where
  "le32 bs = word_of_nat (le_nat (take 4 bs))"

definition enc32 :: "u32 \<Rightarrow> u8 list" where
  "enc32 w = nat_le 4 (unat w)"

definition le16 :: "u8 list \<Rightarrow> u16" where
  "le16 bs = word_of_nat (le_nat (take 2 bs))"

definition enc16 :: "u16 \<Rightarrow> u8 list" where
  "enc16 w = nat_le 2 (unat w)"

lemma length_nat_le [simp]: "length (nat_le k n) = k"
  by (induction k arbitrary: n) auto

lemma length_enc32 [simp]: "length (enc32 w) = 4"
  by (simp add: enc32_def)

lemma length_enc16 [simp]: "length (enc16 w) = 2"
  by (simp add: enc16_def)

lemma unat_word8_mod [simp]: "unat (word_of_nat (n mod 256) :: u8) = n mod 256"
  by (simp add: unat_of_nat)

lemma le_nat_nat_le: "le_nat (nat_le k n) = n mod 256 ^ k"
proof (induction k arbitrary: n)
  case 0
  then show ?case by simp
next
  case (Suc k)
  have "n mod (256 * 256 ^ k) = n mod 256 + 256 * (n div 256 mod 256 ^ k)"
    by (simp add: mod_mult2_eq)
  then show ?case by (simp add: Suc)
qed

lemma unat32_less: "unat (w :: u32) < 4294967296"
  using unsigned_less [of w, where ?'a = nat] by simp

lemma unat16_less: "unat (w :: u16) < 65536"
  using unsigned_less [of w, where ?'a = nat] by simp

lemma unat8_less: "unat (w :: u8) < 256"
  using unsigned_less [of w, where ?'a = nat] by simp

lemma unat_ucast_u8_u32 [simp]: "unat (ucast (w :: u8) :: u32) = unat w"
  using unat8_less [of w] by (simp add: unsigned_ucast_eq take_bit_nat_eq_self)

lemma le32_enc32 [simp]: "le32 (enc32 w @ bs) = w"
  using unat32_less [of w] by (simp add: le32_def enc32_def le_nat_nat_le)

lemma le16_enc16 [simp]: "le16 (enc16 w @ bs) = w"
  using unat16_less [of w] by (simp add: le16_def enc16_def le_nat_nat_le)

end
