(* ===== verification/Bitmap.thy ===== *)
theory Bitmap
  imports Trusty_Prelude
begin

text \<open>
  The bitmaps of \<^verbatim>\<open>external/lk/include/bits.h\<close> on a 32-bit machine, where
  \<^verbatim>\<open>unsigned long\<close> and \<^verbatim>\<open>unsigned int\<close> are both 32 bits wide and a bitmap is a list of
  32-bit words. The handle table of a user context and the endpoint table of the TIPC
  device allocate their slots with them. What both rely on is the locale
  \<open>slot_bitmap\<close>; the word-level operations are an interpretation of it for every
  number of bits.
\<close>

section \<open>The word-level operations\<close>

definition BITMAP_NUM_WORDS :: "nat \<Rightarrow> nat" where
  "BITMAP_NUM_WORDS x = (x + 31) div 32"

definition bitmap_mask :: "nat \<Rightarrow> u32" where
  "bitmap_mask b = push_bit (b mod 32) 1"

definition bitmap_set :: "u32 list \<Rightarrow> nat \<Rightarrow> u32 list \<times> bool" where
  "bitmap_set bm b =
     (let i = b div 32; old = bm ! i
      in (bm[i := old OR bitmap_mask b], old AND bitmap_mask b \<noteq> 0))"

definition bitmap_clear :: "u32 list \<Rightarrow> nat \<Rightarrow> u32 list \<times> bool" where
  "bitmap_clear bm b =
     (let i = b div 32; old = bm ! i
      in (bm[i := old AND NOT (bitmap_mask b)], old AND bitmap_mask b \<noteq> 0))"

definition bitmap_test :: "u32 list \<Rightarrow> nat \<Rightarrow> bool" where
  "bitmap_test bm b = (bm ! (b div 32) AND bitmap_mask b \<noteq> 0)"

text \<open>\<^verbatim>\<open>__builtin_ffsl\<close>: one plus the index of the lowest set bit, 0 for the word 0.\<close>

definition ffsl :: "u32 \<Rightarrow> nat" where
  "ffsl x = (case find (bit x) [0..<32] of None \<Rightarrow> 0 | Some i \<Rightarrow> Suc i)"

definition ffz :: "u32 \<Rightarrow> int" where
  "ffz x = int (ffsl (NOT x)) - 1"

text \<open>The search loop; a negative result is \<open>None\<close>.\<close>

fun bitmap_ffz_from :: "u32 list \<Rightarrow> nat \<Rightarrow> nat \<Rightarrow> nat option" where
  "bitmap_ffz_from [] i numbits = None"
| "bitmap_ffz_from (w # ws) i numbits =
     (if w = - 1 then bitmap_ffz_from ws (Suc i) numbits
      else let b = int i * 32 + ffz w
           in if b < int numbits then Some (nat b) else None)"

definition bitmap_ffz :: "u32 list \<Rightarrow> nat \<Rightarrow> nat option" where
  "bitmap_ffz bm numbits = bitmap_ffz_from (take (BITMAP_NUM_WORDS numbits) bm) 0 numbits"

section \<open>The contract of a slot bitmap\<close>

locale slot_bitmap =
  fixes test :: "'b \<Rightarrow> nat \<Rightarrow> bool"
    and mark :: "'b \<Rightarrow> nat \<Rightarrow> 'b"
    and clear :: "'b \<Rightarrow> nat \<Rightarrow> 'b"
    and first_free :: "'b \<Rightarrow> nat option"
    and wf :: "'b \<Rightarrow> bool"
    and cap :: nat
  assumes wf_mark: "wf b \<Longrightarrow> s < cap \<Longrightarrow> wf (mark b s)"
    and wf_clear: "wf b \<Longrightarrow> s < cap \<Longrightarrow> wf (clear b s)"
    and test_mark: "wf b \<Longrightarrow> s < cap \<Longrightarrow> t < cap \<Longrightarrow> test (mark b s) t \<longleftrightarrow> t = s \<or> test b t"
    and test_clear: "wf b \<Longrightarrow> s < cap \<Longrightarrow> t < cap \<Longrightarrow> test (clear b s) t \<longleftrightarrow> t \<noteq> s \<and> test b t"
    and first_free_Some: "wf b \<Longrightarrow> first_free b = Some s \<Longrightarrow>
          s < cap \<and> \<not> test b s \<and> (\<forall>t < s. test b t)"
    and first_free_None: "wf b \<Longrightarrow> first_free b = None \<Longrightarrow> s < cap \<Longrightarrow> test b s"
begin

definition in_use :: "'b \<Rightarrow> nat set" where
  "in_use b = {s. s < cap \<and> test b s}"

lemma finite_in_use [simp]: "finite (in_use b)"
  by (rule finite_subset [of _ "{..<cap}"]) (auto simp: in_use_def)

lemma in_use_mark: "wf b \<Longrightarrow> s < cap \<Longrightarrow> in_use (mark b s) = insert s (in_use b)"
  by (auto simp: in_use_def test_mark)

lemma in_use_clear: "wf b \<Longrightarrow> s < cap \<Longrightarrow> in_use (clear b s) = in_use b - {s}"
  by (auto simp: in_use_def test_clear)

text \<open>Allocation succeeds exactly when a slot is left, and takes the lowest one.\<close>

lemma first_free_iff_room:
  assumes "wf b"
  shows "(\<exists>s. first_free b = Some s) \<longleftrightarrow> card (in_use b) < cap"
proof
  assume "\<exists>s. first_free b = Some s"
  then obtain s where "s < cap" "\<not> test b s"
    using first_free_Some [OF assms] by blast
  then have "in_use b \<subset> {..<cap}" by (auto simp: in_use_def)
  then show "card (in_use b) < cap"
    using psubset_card_mono [of "{..<cap}"] by simp
next
  assume lt: "card (in_use b) < cap"
  show "\<exists>s. first_free b = Some s"
  proof (rule ccontr)
    assume "\<not> ?thesis"
    then have "first_free b = None" by simp
    then have "in_use b = {..<cap}"
      using first_free_None [OF assms] by (auto simp: in_use_def)
    with lt show False by simp
  qed
qed

lemma mark_clear_in_use:
  "wf b \<Longrightarrow> s < cap \<Longrightarrow> \<not> test b s \<Longrightarrow> in_use (clear (mark b s) s) = in_use b"
  by (simp add: in_use_clear in_use_mark wf_mark) (auto simp: in_use_def)

end

section \<open>The word-level bitmap meets the contract\<close>

lemma bit_mask_iff32: "bit (bitmap_mask b) n \<longleftrightarrow> n = b mod 32"
  by (auto simp: bitmap_mask_def bit_simps)

lemma and_mask_iff: "(w :: u32) AND bitmap_mask b \<noteq> 0 \<longleftrightarrow> bit w (b mod 32)"
proof -
  have "w AND bitmap_mask b \<noteq> 0 \<longleftrightarrow> (\<exists>n. bit (w AND bitmap_mask b) n)"
    by (metis bit_eqI bit_0_eq bot_apply bot_bool_def)
  then show ?thesis by (auto simp: bit_and_iff bit_mask_iff32)
qed

lemma bitmap_test_bit: "bitmap_test bm b \<longleftrightarrow> bit (bm ! (b div 32)) (b mod 32)"
  by (simp add: bitmap_test_def and_mask_iff)

lemma length_bitmap_set [simp]: "length (fst (bitmap_set bm b)) = length bm"
  by (simp add: bitmap_set_def Let_def)

lemma length_bitmap_clear [simp]: "length (fst (bitmap_clear bm b)) = length bm"
  by (simp add: bitmap_clear_def Let_def)

lemma div_mod_32_eq: "t div 32 = s div 32 \<Longrightarrow> t mod 32 = s mod (32::nat) \<Longrightarrow> t = s"
  by (metis mod_mult_div_eq)

lemma bitmap_test_set:
  "b div 32 < length bm \<Longrightarrow> bitmap_test (fst (bitmap_set bm b)) t \<longleftrightarrow> t = b \<or> bitmap_test bm t"
  by (auto simp: bitmap_test_bit bitmap_set_def Let_def nth_list_update bit_or_iff bit_mask_iff32
      dest: div_mod_32_eq)

lemma bitmap_test_clear:
  "b div 32 < length bm \<Longrightarrow> bitmap_test (fst (bitmap_clear bm b)) t \<longleftrightarrow> t \<noteq> b \<and> bitmap_test bm t"
  by (auto simp: bitmap_test_bit bitmap_clear_def Let_def nth_list_update bit_and_iff bit_not_iff
      bit_mask_iff32 dest: div_mod_32_eq)

lemma bitmap_set_snd: "snd (bitmap_set bm b) = bitmap_test bm b"
  by (simp add: bitmap_set_def bitmap_test_def Let_def)

lemma bitmap_clear_snd: "snd (bitmap_clear bm b) = bitmap_test bm b"
  by (simp add: bitmap_clear_def bitmap_test_def Let_def)

lemma word32_not_ones: "w \<noteq> - 1 \<Longrightarrow> \<exists>n<32. \<not> bit (w :: u32) n"
proof (rule ccontr)
  assume "w \<noteq> - 1" "\<not> (\<exists>n<32. \<not> bit w n)"
  then have "w = - 1"
    by (intro bit_word_eqI) (auto simp: bit_minus_1_iff)
  with \<open>w \<noteq> - 1\<close> show False by simp
qed

lemma ffz_spec:
  assumes "w \<noteq> - 1"
  obtains n where "ffz w = int n" "n < 32" "\<not> bit w n" "\<And>m. m < n \<Longrightarrow> bit w m"
proof -
  have nb: "bit (NOT w) n \<longleftrightarrow> \<not> bit w n" if "n < 32" for n
    using that by (simp add: bit_not_iff)
  obtain k where "k < 32" "\<not> bit w k" using word32_not_ones [OF assms] by blast
  then have k: "k \<in> set [0..<32]" "bit (NOT w) k" using nb by auto
  then obtain n where f: "find (bit (NOT w)) [0..<32] = Some n"
    unfolding find_None_iff by (cases "find (bit (NOT w)) [0..<32]") (blast dest: find_None_iff [THEN iffD1])+
  then obtain i where i: "i < 32" "bit (NOT w) ([0..<32] ! i)" "n = [0..<32] ! i"
      "\<forall>j<i. \<not> bit (NOT w) ([0..<32] ! j)"
    unfolding find_Some_iff by auto
  then have n: "n = i" by simp
  have below: "bit w m" if "m < n" for m
  proof -
    have "m < i" "m < 32" "[0..<32] ! m = m" using that n i(1) by simp_all
    then show ?thesis using i(4) nb [of m] by metis
  qed
  have "\<not> bit w n" using i(1,2,3) n nb [of n] by simp
  moreover have "ffz w = int n" by (simp only: ffz_def ffsl_def f) simp
  ultimately show ?thesis using that below i(1) n by blast
qed

lemma slot_word_ge: "i * 32 \<le> s \<longleftrightarrow> i \<le> s div (32::nat)"
  by (simp add: less_eq_div_iff_mult_less_eq)

lemma slot_next_word: "i * 32 \<le> t \<Longrightarrow> t div 32 \<noteq> i \<Longrightarrow> Suc i * 32 \<le> (t::nat)"
  unfolding slot_word_ge by simp

lemma slot_in_word:
  assumes "i * 32 \<le> t" "t < i * 32 + n" "n \<le> (32::nat)"
  shows "t div 32 = i" "t mod 32 < n"
proof -
  obtain k where "t = i * 32 + k" "k < n"
    using assms by (metis add_less_cancel_left le_Suc_ex)
  with assms(3) show "t div 32 = i" "t mod 32 < n" by auto
qed

lemma bitmap_ffz_from_Some:
  "bitmap_ffz_from ws i nb = Some s \<Longrightarrow>
     i * 32 \<le> s \<and> s < nb \<and> s div 32 - i < length ws \<and> \<not> bit (ws ! (s div 32 - i)) (s mod 32) \<and>
     (\<forall>t < s. i * 32 \<le> t \<longrightarrow> bit (ws ! (t div 32 - i)) (t mod 32))"
proof (induction ws i nb rule: bitmap_ffz_from.induct)
  case (1 i nb)
  then show ?case by simp
next
  case (2 w ws i nb)
  show ?case
  proof (cases "w = - 1")
    case True
    with 2 have IH: "Suc i * 32 \<le> s" "s < nb" "s div 32 - Suc i < length ws"
        "\<not> bit (ws ! (s div 32 - Suc i)) (s mod 32)"
        "\<And>t. t < s \<Longrightarrow> Suc i * 32 \<le> t \<Longrightarrow> bit (ws ! (t div 32 - Suc i)) (t mod 32)"
      by auto
    have ge: "Suc i \<le> s div 32" using IH(1) slot_word_ge by blast
    have "bit ((w # ws) ! (t div 32 - i)) (t mod 32)" if "t < s" "i * 32 \<le> t" for t
    proof (cases "t div 32 = i")
      case True
      then show ?thesis using \<open>w = - 1\<close> by (simp add: bit_minus_1_iff)
    next
      case False
      then have "Suc i * 32 \<le> t" using that(2) slot_next_word by blast
      then have "bit (ws ! (t div 32 - Suc i)) (t mod 32)" "t div 32 - i = Suc (t div 32 - Suc i)"
        using IH(5) [of t] that(1) slot_word_ge [of "Suc i" t] by auto
      then show ?thesis by simp
    qed
    moreover have "s div 32 - i = Suc (s div 32 - Suc i)" "i * 32 \<le> s" using ge IH(1) by auto
    ultimately show ?thesis using IH(2,3,4) by simp
  next
    case False
    then obtain n where n: "ffz w = int n" "n < 32" "\<not> bit w n" "\<And>m. m < n \<Longrightarrow> bit w m"
      using ffz_spec by blast
    with 2 False have s: "s = i * 32 + n" "s < nb"
      by (auto simp: Let_def nat_eq_iff split: if_splits)
    have "bit w (t mod 32) \<and> t div 32 = i" if "t < s" "i * 32 \<le> t" for t
      using slot_in_word [of i t n] that s n(2,4) by auto
    moreover have "s div 32 = i" "s mod 32 = n" using s n(2) by auto
    ultimately show ?thesis using s n by auto
  qed
qed

lemma bitmap_ffz_from_None:
  "bitmap_ffz_from ws i nb = None \<Longrightarrow> i * 32 \<le> s \<Longrightarrow> s < nb \<Longrightarrow> s div 32 - i < length ws \<Longrightarrow>
     bit (ws ! (s div 32 - i)) (s mod 32)"
proof (induction ws i nb rule: bitmap_ffz_from.induct)
  case (1 i nb)
  then show ?case by simp
next
  case (2 w ws i nb)
  show ?case
  proof (cases "w = - 1")
    case ones: True
    show ?thesis
    proof (cases "s div 32 = i")
      case True
      then show ?thesis using ones by (simp add: bit_minus_1_iff)
    next
      case False
      then have "Suc i * 32 \<le> s" using 2(3) slot_next_word by blast
      then have "bit (ws ! (s div 32 - Suc i)) (s mod 32)" using 2 ones by simp
      moreover have "s div 32 - i = Suc (s div 32 - Suc i)"
        using \<open>Suc i * 32 \<le> s\<close> slot_word_ge [of "Suc i" s] by simp
      ultimately show ?thesis by simp
    qed
  next
    case False
    then obtain n where n: "ffz w = int n" "n < 32" "\<And>m. m < n \<Longrightarrow> bit w m"
      using ffz_spec by blast
    with 2 False have "nb \<le> i * 32 + n"
      by (auto simp: Let_def split: if_splits)
    with 2(4) n(2) have "s < i * 32 + n" by linarith
    then have "s div 32 = i" "s mod 32 < n" using slot_in_word [of i s n] 2(3) n(2) by auto
    then show ?thesis using n(3) by simp
  qed
qed

lemma slot_div_bound:
  assumes "s < n"
  shows "s div 32 < BITMAP_NUM_WORDS n"
proof -
  have "(s + 32) div 32 \<le> (n + 31) div 32" using assms by (intro div_le_mono) simp
  then show ?thesis by (simp add: BITMAP_NUM_WORDS_def)
qed

text \<open>
  For every number of bits, a bitmap with enough words is a slot bitmap: this is the fact
  each user of the bitmap specialises to its own table size.
\<close>

interpretation bits: slot_bitmap
  bitmap_test "\<lambda>bm b. fst (bitmap_set bm b)" "\<lambda>bm b. fst (bitmap_clear bm b)"
  "\<lambda>bm. bitmap_ffz bm numbits" "\<lambda>bm. length bm = BITMAP_NUM_WORDS numbits" numbits
  for numbits :: nat
proof (unfold_locales, goal_cases)
  case (3 b s t)
  then show ?case by (simp add: bitmap_test_set slot_div_bound)
next
  case (4 b s t)
  then show ?case by (simp add: bitmap_test_clear slot_div_bound)
next
  case (5 b s)
  then show ?case
    using bitmap_ffz_from_Some [of b 0 numbits s]
    by (simp add: bitmap_ffz_def bitmap_test_bit)
next
  case (6 b s)
  then show ?case
    using bitmap_ffz_from_None [of b 0 numbits s] slot_div_bound [of s numbits]
    by (simp add: bitmap_ffz_def bitmap_test_bit)
qed simp_all

end
