(* ===== verification/Uio.thy ===== *)
theory Uio
  imports Trusty_Prelude
begin

text \<open>
  Scatter and gather copies (\<^verbatim>\<open>lk/trusty/lib/trusty/iovec.c\<close>) between one kernel buffer and
  an array of kernel or user memory segments, with the user memory accessors they call
  (\<^verbatim>\<open>lk/trusty/lib/uthread/arch/arm/usercopy.S\<close>). Addresses are 32 bits; a kernel address
  space maps every address to a byte, a user address space only the mapped ones.
\<close>

section \<open>Kernel and user memory\<close>

type_synonym kmem = "u32 \<Rightarrow> u8"

record umem =
  um_bytes :: "u32 \<rightharpoonup> u8"
  um_writable :: "u32 \<Rightarrow> bool"

fun kread :: "kmem \<Rightarrow> u32 \<Rightarrow> nat \<Rightarrow> u8 list" where
  "kread m a 0 = []"
| "kread m a (Suc n) = m a # kread m (a + 1) n"

fun kwrite :: "kmem \<Rightarrow> u32 \<Rightarrow> u8 list \<Rightarrow> kmem" where
  "kwrite m a [] = m"
| "kwrite m a (b # bs) = kwrite (m(a := b)) (a + 1) bs"

text \<open>
  \<^verbatim>\<open>arch_copy_from_user\<close> copies byte by byte. At a fault the rest of the destination is
  filled with zeroes and \<^verbatim>\<open>ERR_FAULT\<close> is returned.
\<close>

fun copy_from_user :: "umem \<Rightarrow> u32 \<Rightarrow> nat \<Rightarrow> u8 list \<times> unit res" where
  "copy_from_user m a 0 = ([], NO_ERROR)"
| "copy_from_user m a (Suc n) =
     (case um_bytes m a of
        None \<Rightarrow> (replicate (Suc n) 0, Inl ERR_FAULT)
      | Some b \<Rightarrow> (let (bs, r) = copy_from_user m (a + 1) n in (b # bs, r)))"

text \<open>\<^verbatim>\<open>arch_copy_to_user\<close> leaves the bytes stored before a fault in place.\<close>

fun copy_to_user :: "umem \<Rightarrow> u32 \<Rightarrow> u8 list \<Rightarrow> umem \<times> unit res" where
  "copy_to_user m a [] = (m, NO_ERROR)"
| "copy_to_user m a (b # bs) =
     (if um_bytes m a \<noteq> None \<and> um_writable m a
      then copy_to_user (m\<lparr>um_bytes := (um_bytes m)(a \<mapsto> b)\<rparr>) (a + 1) bs
      else (m, Inl ERR_FAULT))"

text \<open>
  \<^verbatim>\<open>arch_strlcpy_from_user\<close> walks the user string to its terminator, whatever the size of
  the destination, and returns the string's length; the destination holds at most
  \<open>len - 1\<close> of its bytes. The walk ends at a fault or a zero byte; an address space in
  which all of the 4 GiB are mapped and non-zero cannot be a user address space, and the
  model reports a fault for it.
\<close>

function user_string :: "umem \<Rightarrow> u32 \<Rightarrow> nat \<Rightarrow> u8 list res" where
  "user_string m a n =
     (if 2 ^ 32 \<le> n then Inl ERR_FAULT
      else case um_bytes m (a + word_of_nat n) of
        None \<Rightarrow> Inl ERR_FAULT
      | Some b \<Rightarrow>
          if b = 0 then Inr []
          else (case user_string m a (Suc n) of Inl e \<Rightarrow> Inl e | Inr s \<Rightarrow> Inr (b # s)))"
  by pat_completeness auto
termination
  by (relation "measure (\<lambda>(m, a, n). 2 ^ 32 - n)") auto

declare user_string.simps [simp del]

definition strlcpy_from_user :: "umem \<Rightarrow> u32 \<Rightarrow> nat \<Rightarrow> (u8 list \<times> nat) res" where
  "strlcpy_from_user m a len =
     (case user_string m a 0 of
        Inl e \<Rightarrow> Inl e
      | Inr s \<Rightarrow> Inr (take (len - 1) s, length s))"

section \<open>Segments\<close>

record iovec_kern =
  iov_base :: u32
  iov_len :: u32

text \<open>\<^verbatim>\<open>iovec_user_t\<close> has two 32-bit members.\<close>

definition iovec_user_sz :: nat where
  "iovec_user_sz = 8"

definition iovec_user_of :: "u8 list \<Rightarrow> iovec_kern" where
  "iovec_user_of bs = \<lparr>iov_base = le32 bs, iov_len = le32 (drop 4 bs)\<rparr>"

text \<open>The computation of \<open>to_copy\<close> in the four loops.\<close>

definition clamp_len :: "nat \<Rightarrow> u32 \<Rightarrow> nat" where
  "clamp_len len seg_len = (if len > unat seg_len then unat seg_len else len)"

text \<open>What a copy of \<open>bs\<close> to the front of a buffer leaves in it.\<close>

definition overwrite :: "u8 list \<Rightarrow> u8 list \<Rightarrow> u8 list" where
  "overwrite bs buf = bs @ drop (length bs) buf"

section \<open>Kernel segments\<close>

fun membuf_to_kern_loop :: "iovec_kern list \<Rightarrow> u8 list \<Rightarrow> nat \<Rightarrow> kmem \<Rightarrow> kmem \<times> nat res" where
  "membuf_to_kern_loop [] buf copied m = (m, Inr copied)"
| "membuf_to_kern_loop (v # iov) buf copied m =
     (let to_copy = clamp_len (length buf) (iov_len v)
      in if to_copy = 0 then membuf_to_kern_loop iov buf copied m
         else if iov_base v = 0 then (m, Inl ERR_INVALID_ARGS)
         else let m' = kwrite m (iov_base v) (take to_copy buf);
                  buf' = drop to_copy buf
              in if buf' = [] then (m', Inr (copied + to_copy))
                 else membuf_to_kern_loop iov buf' (copied + to_copy) m')"

definition membuf_to_kern_iovec ::
    "iovec_kern list option \<Rightarrow> nat \<Rightarrow> u8 list option \<Rightarrow> nat \<Rightarrow> kmem \<Rightarrow> kmem \<times> nat res" where
  "membuf_to_kern_iovec iov iov_cnt buf len m =
     (if iov_cnt = 0 \<or> len = 0 then (m, Inr 0)
      else case (iov, buf) of
        (Some v, Some b) \<Rightarrow> membuf_to_kern_loop (take iov_cnt v) (take len b) 0 m
      | _ \<Rightarrow> (m, Inl ERR_INVALID_ARGS))"

text \<open>The gathering loop; its first component is what has been stored in the buffer.\<close>

fun kern_to_membuf_loop :: "kmem \<Rightarrow> nat \<Rightarrow> iovec_kern list \<Rightarrow> nat \<Rightarrow> u8 list \<times> nat res" where
  "kern_to_membuf_loop m len [] copied = ([], Inr copied)"
| "kern_to_membuf_loop m len (v # iov) copied =
     (let to_copy = clamp_len len (iov_len v)
      in if to_copy = 0 then kern_to_membuf_loop m len iov copied
         else if iov_base v = 0 then ([], Inl ERR_INVALID_ARGS)
         else let bs = kread m (iov_base v) to_copy
              in if len - to_copy = 0 then (bs, Inr (copied + to_copy))
                 else let (bs', r) = kern_to_membuf_loop m (len - to_copy) iov (copied + to_copy)
                      in (bs @ bs', r))"

definition kern_iovec_to_membuf ::
    "kmem \<Rightarrow> u8 list option \<Rightarrow> nat \<Rightarrow> iovec_kern list option \<Rightarrow> nat \<Rightarrow> u8 list option \<times> nat res" where
  "kern_iovec_to_membuf m buf len iov iov_cnt =
     (if iov_cnt = 0 \<or> len = 0 then (buf, Inr 0)
      else case (buf, iov) of
        (Some b, Some v) \<Rightarrow>
          (let (bs, r) = kern_to_membuf_loop m len (take iov_cnt v) 0 in (Some (overwrite bs b), r))
      | _ \<Rightarrow> (buf, Inl ERR_INVALID_ARGS))"

section \<open>User segments\<close>

fun membuf_to_user_loop :: "u32 \<Rightarrow> nat \<Rightarrow> u8 list \<Rightarrow> nat \<Rightarrow> umem \<Rightarrow> umem \<times> nat res" where
  "membuf_to_user_loop iov_uaddr 0 buf copied m = (m, Inr copied)"
| "membuf_to_user_loop iov_uaddr (Suc n) buf copied m =
     (case copy_from_user m iov_uaddr iovec_user_sz of
        (_, Inl e) \<Rightarrow> (m, Inl e)
      | (bs, Inr _) \<Rightarrow>
          (let uiov = iovec_user_of bs;
               to_copy = clamp_len (length buf) (iov_len uiov)
           in case copy_to_user m (iov_base uiov) (take to_copy buf) of
                (m', Inl e) \<Rightarrow> (m', Inl e)
              | (m', Inr _) \<Rightarrow>
                  (let buf' = drop to_copy buf
                   in if buf' = [] then (m', Inr (copied + to_copy))
                      else membuf_to_user_loop (iov_uaddr + word_of_nat iovec_user_sz) n buf'
                             (copied + to_copy) m')))"

definition membuf_to_user_iovec ::
    "u32 \<Rightarrow> nat \<Rightarrow> u8 list option \<Rightarrow> nat \<Rightarrow> umem \<Rightarrow> umem \<times> nat res" where
  "membuf_to_user_iovec iov_uaddr iov_cnt buf len m =
     (if iov_cnt = 0 \<or> len = 0 then (m, Inr 0)
      else case buf of
        None \<Rightarrow> (m, Inl ERR_INVALID_ARGS)
      | Some b \<Rightarrow> membuf_to_user_loop iov_uaddr iov_cnt (take len b) 0 m)"

fun user_to_membuf_loop :: "umem \<Rightarrow> nat \<Rightarrow> u32 \<Rightarrow> nat \<Rightarrow> nat \<Rightarrow> u8 list \<times> nat res" where
  "user_to_membuf_loop m len iov_uaddr 0 copied = ([], Inr copied)"
| "user_to_membuf_loop m len iov_uaddr (Suc n) copied =
     (case copy_from_user m iov_uaddr iovec_user_sz of
        (_, Inl e) \<Rightarrow> ([], Inl e)
      | (bs, Inr _) \<Rightarrow>
          (let uiov = iovec_user_of bs;
               to_copy = clamp_len len (iov_len uiov)
           in case copy_from_user m (iov_base uiov) to_copy of
                (ds, Inl e) \<Rightarrow> (ds, Inl e)
              | (ds, Inr _) \<Rightarrow>
                  (if len - to_copy = 0 then (ds, Inr (copied + to_copy))
                   else let (ds', r) = user_to_membuf_loop m (len - to_copy)
                                (iov_uaddr + word_of_nat iovec_user_sz) n (copied + to_copy)
                        in (ds @ ds', r))))"

definition user_iovec_to_membuf ::
    "umem \<Rightarrow> u8 list option \<Rightarrow> nat \<Rightarrow> u32 \<Rightarrow> nat \<Rightarrow> u8 list option \<times> nat res" where
  "user_iovec_to_membuf m buf len iov_uaddr iov_cnt =
     (if iov_cnt = 0 \<or> len = 0 then (buf, Inr 0)
      else case buf of
        None \<Rightarrow> (None, Inl ERR_INVALID_ARGS)
      | Some b \<Rightarrow>
          (let (bs, r) = user_to_membuf_loop m len iov_uaddr iov_cnt 0 in (Some (overwrite bs b), r)))"

section \<open>Memory lemmas\<close>

fun kaddrs :: "u32 \<Rightarrow> nat \<Rightarrow> u32 list" where
  "kaddrs a 0 = []"
| "kaddrs a (Suc n) = a # kaddrs (a + 1) n"

definition iov_addrs :: "iovec_kern \<Rightarrow> u32 set" where
  "iov_addrs v = set (kaddrs (iov_base v) (unat (iov_len v)))"

definition iov_bytes :: "kmem \<Rightarrow> iovec_kern \<Rightarrow> u8 list" where
  "iov_bytes m v = kread m (iov_base v) (unat (iov_len v))"

definition iov_total :: "iovec_kern list \<Rightarrow> nat" where
  "iov_total iov = sum_list (map (\<lambda>v. unat (iov_len v)) iov)"

fun iov_disjoint :: "iovec_kern list \<Rightarrow> bool" where
  "iov_disjoint [] = True"
| "iov_disjoint (v # iov) =
     (list_all (\<lambda>u. iov_addrs v \<inter> iov_addrs u = {}) iov \<and> iov_disjoint iov)"

lemma length_kread [simp]: "length (kread m a n) = n"
  by (induction n arbitrary: a) auto

lemma take_kread: "take k (kread m a n) = kread m a (min k n)"
proof (induction n arbitrary: a k)
  case 0
  then show ?case by simp
next
  case (Suc n)
  then show ?case by (cases k) auto
qed

lemma length_iov_bytes [simp]: "length (iov_bytes m v) = unat (iov_len v)"
  by (simp add: iov_bytes_def)

lemma length_concat_iov_bytes: "length (concat (map (iov_bytes m) iov)) = iov_total iov"
  by (induction iov) (auto simp: iov_total_def)

lemma kread_cong: "(\<And>x. x \<in> set (kaddrs a n) \<Longrightarrow> m x = m' x) \<Longrightarrow> kread m a n = kread m' a n"
  by (induction n arbitrary: a) auto

lemma kwrite_other: "x \<notin> set (kaddrs a (length bs)) \<Longrightarrow> kwrite m a bs x = m x"
  by (induction bs arbitrary: m a) auto

lemma kaddrs_nth: "x \<in> set (kaddrs a n) \<longleftrightarrow> (\<exists>i<n. x = a + word_of_nat i)"
proof (induction n arbitrary: a)
  case 0
  then show ?case by simp
next
  case (Suc n)
  show ?case
  proof
    assume "x \<in> set (kaddrs a (Suc n))"
    then consider "x = a" | i where "i < n" "x = a + 1 + word_of_nat i"
      using Suc.IH by auto
    then show "\<exists>i<Suc n. x = a + word_of_nat i"
    proof cases
      case 1
      then show ?thesis by (intro exI [of _ 0]) simp
    next
      case 2
      then show ?thesis by (intro exI [of _ "Suc i"]) (simp add: algebra_simps)
    qed
  next
    assume "\<exists>i<Suc n. x = a + word_of_nat i"
    then obtain i where i: "i < Suc n" "x = a + word_of_nat i" by blast
    show "x \<in> set (kaddrs a (Suc n))"
    proof (cases i)
      case 0
      with i show ?thesis by simp
    next
      case (Suc j)
      with i have "j < n" "x = a + 1 + word_of_nat j" by (auto simp: algebra_simps)
      then show ?thesis using Suc.IH by auto
    qed
  qed
qed

lemma kaddrs_mono: "k \<le> n \<Longrightarrow> set (kaddrs a k) \<subseteq> set (kaddrs a n)"
  by (force simp: kaddrs_nth)

lemma base_notin_kaddrs_succ: "n < 2 ^ 32 \<Longrightarrow> a \<notin> set (kaddrs (a + 1) n)"
proof
  assume n: "n < 2 ^ 32" and "a \<in> set (kaddrs (a + 1) n)"
  then obtain i where i: "i < n" "a = a + 1 + word_of_nat i" by (auto simp: kaddrs_nth)
  then have "(word_of_nat (Suc i) :: u32) = 0" by (simp add: algebra_simps)
  then have "2 ^ 32 dvd Suc i"
    unfolding word_of_nat_eq_0_iff by simp
  moreover have "Suc i < 2 ^ 32" using i(1) n by simp
  ultimately show False using nat_dvd_not_less by blast
qed

lemma kread_kwrite_same: "length bs \<le> 2 ^ 32 \<Longrightarrow> kread (kwrite m a bs) a (length bs) = bs"
proof (induction bs arbitrary: m a)
  case Nil
  then show ?case by simp
next
  case (Cons b bs)
  have "kwrite (m(a := b)) (a + 1) bs a = b"
    using kwrite_other [of a "a + 1" bs "m(a := b)"] base_notin_kaddrs_succ [of "length bs" a] Cons.prems
    by simp
  moreover have "kread (kwrite (m(a := b)) (a + 1) bs) (a + 1) (length bs) = bs"
    using Cons by simp
  ultimately show ?case by simp
qed

lemma length_overwrite [simp]: "length bs \<le> length buf \<Longrightarrow> length (overwrite bs buf) = length buf"
  by (simp add: overwrite_def)

lemma overwrite_Nil [simp]: "overwrite [] buf = buf"
  by (simp add: overwrite_def)

lemma take_overwrite [simp]: "take (length bs) (overwrite bs buf) = bs"
  by (simp add: overwrite_def)

section \<open>Gathering from kernel segments\<close>

lemma clamp_len_min: "clamp_len len l = min len (unat l)"
  by (simp add: clamp_len_def)

lemma kern_to_membuf_loop_ok:
  assumes "\<forall>v \<in> set iov. iov_base v = 0 \<longrightarrow> iov_len v = 0"
  shows "kern_to_membuf_loop m len iov copied =
    (take len (concat (map (iov_bytes m) iov)),
     Inr (copied + length (take len (concat (map (iov_bytes m) iov)))))"
  using assms
proof (induction m len iov copied rule: kern_to_membuf_loop.induct)
  case (1 m len copied)
  then show ?case by simp
next
  case (2 m len v iov copied)
  define n where "n = min len (unat (iov_len v))"
  have hd: "take len (iov_bytes m v) = kread m (iov_base v) n"
    by (simp add: iov_bytes_def take_kread n_def)
  show ?case
  proof (cases "n = 0")
    case True
    then have "len = 0 \<or> unat (iov_len v) = 0" unfolding n_def by linarith
    then have "len = 0 \<or> iov_bytes m v = []" by (auto simp: iov_bytes_def)
    then have "take len (concat (map (iov_bytes m) (v # iov))) = take len (concat (map (iov_bytes m) iov))"
      by (elim disjE) (simp_all del: take_append)
    then show ?thesis using 2 True by (simp add: clamp_len_min n_def del: take_append)
  next
    case False
    then have base: "iov_base v \<noteq> 0" using "2.prems" by (auto simp: n_def)
    show ?thesis
    proof (cases "len - n = 0")
      case True
      then have "len \<le> unat (iov_len v)" "n = len" by (auto simp: n_def)
      then show ?thesis using False base hd by (simp add: clamp_len_min n_def min_def)
    next
      case less: False
      then have "n = unat (iov_len v)" "n < len" by (auto simp: n_def)
      then show ?thesis
        using 2 False base hd by (auto simp: clamp_len_min n_def Let_def min_def)
    qed
  qed
qed

text \<open>
  Gathering kernel segments stores exactly the concatenation of the segments, cut off at
  the size of the buffer, and returns its length; the rest of the buffer is untouched.
\<close>

lemma kern_iovec_to_membuf_ok:
  assumes "\<forall>v \<in> set (take iov_cnt iov). iov_base v = 0 \<longrightarrow> iov_len v = 0"
  shows "kern_iovec_to_membuf m (Some buf) len (Some iov) iov_cnt =
    (let bs = take len (concat (map (iov_bytes m) (take iov_cnt iov)))
     in (Some (overwrite bs buf), Inr (length bs)))"
  using kern_to_membuf_loop_ok [OF assms, of m len 0]
  by (simp add: kern_iovec_to_membuf_def Let_def del: take_append)

section \<open>Scattering to kernel segments and back\<close>

lemma membuf_to_kern_loop_Nil: "membuf_to_kern_loop iov [] copied m = (m, Inr copied)"
  by (induction iov) (auto simp: clamp_len_min)

lemma membuf_to_kern_loop_frame:
  assumes "membuf_to_kern_loop iov buf copied m = (m', r)"
    and "\<And>v. v \<in> set iov \<Longrightarrow> x \<notin> iov_addrs v"
  shows "m' x = m x"
  using assms
proof (induction iov buf copied m arbitrary: m' r rule: membuf_to_kern_loop.induct)
  case (1 buf copied m)
  then show ?case by simp
next
  case (2 v iov buf copied m)
  define n where "n = min (length buf) (unat (iov_len v))"
  have "x \<notin> set (kaddrs (iov_base v) (length (take n buf)))"
    using "2.prems"(2) [of v] kaddrs_mono [of n "unat (iov_len v)" "iov_base v"]
    by (auto simp: iov_addrs_def n_def)
  then have w: "kwrite m (iov_base v) (take n buf) x = m x" by (rule kwrite_other)
  show ?case
    using 2 w by (auto simp: clamp_len_min Let_def n_def split: if_splits)
qed

lemma membuf_to_kern_loop_reads_back:
  assumes "\<forall>v \<in> set iov. iov_base v = 0 \<longrightarrow> iov_len v = 0" "iov_disjoint iov"
    "length buf \<le> iov_total iov" "membuf_to_kern_loop iov buf copied m = (m', r)"
  shows "r = Inr (copied + length buf) \<and> take (length buf) (concat (map (iov_bytes m') iov)) = buf"
  using assms
proof (induction iov buf copied m arbitrary: m' r rule: membuf_to_kern_loop.induct)
  case (1 buf copied m)
  then show ?case by (simp add: iov_total_def)
next
  case (2 v iov buf copied m)
  define n where "n = min (length buf) (unat (iov_len v))"
  define m1 where "m1 = kwrite m (iov_base v) (take n buf)"
  show ?case
  proof (cases "n = 0")
    case True
    then have "buf = [] \<or> unat (iov_len v) = 0" by (auto simp: n_def min_def split: if_splits)
    then show ?thesis
    proof
      assume "buf = []"
      then show ?thesis using "2.prems"(4) membuf_to_kern_loop_Nil by simp
    next
      assume z: "unat (iov_len v) = 0"
      then have "iov_bytes m' v = []" by (simp add: iov_bytes_def)
      moreover have "length buf \<le> iov_total iov" using "2.prems"(3) z by (simp add: iov_total_def)
      ultimately show ?thesis
        using 2 True by (auto simp: clamp_len_min n_def)
    qed
  next
    case False
    then have base: "iov_base v \<noteq> 0" using "2.prems"(1) by (auto simp: n_def)
    have n32: "length (take n buf) \<le> 2 ^ 32"
      using unat32_less [of "iov_len v"] by (simp add: n_def)
    have m1: "take n (iov_bytes m1 v) = take n buf"
      using kread_kwrite_same [OF n32, of m "iov_base v"]
      by (simp add: iov_bytes_def take_kread n_def m1_def min.commute min.left_commute)
    show ?thesis
    proof (cases "drop n buf = []")
      case True
      then have nl: "n = length buf" "length buf \<le> unat (iov_len v)" by (auto simp: n_def)
      then have "m' = m1" "r = Inr (copied + length buf)"
        using "2.prems"(4) False base True by (auto simp: clamp_len_min n_def m1_def Let_def)
      then show ?thesis using m1 nl by simp
    next
      case rest: False
      then have nl: "n = unat (iov_len v)" "n < length buf" by (auto simp: n_def min_def split: if_splits)
      have loop: "membuf_to_kern_loop iov (drop n buf) (copied + n) m1 = (m', r)"
        using "2.prems"(4) False base rest by (auto simp: clamp_len_min n_def m1_def Let_def)
      have "iov_bytes m' v = iov_bytes m1 v"
        unfolding iov_bytes_def
      proof (rule kread_cong)
        fix x assume "x \<in> set (kaddrs (iov_base v) (unat (iov_len v)))"
        then have "x \<notin> iov_addrs u" if "u \<in> set iov" for u
          using "2.prems"(2) that by (auto simp: iov_addrs_def list_all_iff)
        then show "m' x = m1 x" by (rule membuf_to_kern_loop_frame [OF loop])
      qed
      then have hd: "iov_bytes m' v = take n buf" using m1 nl by simp
      have "r = Inr (copied + n + length (drop n buf)) \<and>
          take (length (drop n buf)) (concat (map (iov_bytes m') iov)) = drop n buf"
        using "2.IH"(2) "2.prems"(1,2,3) False base rest nl loop
        by (auto simp: clamp_len_min n_def m1_def Let_def iov_total_def)
      then show ?thesis using hd nl by (auto simp: append_take_drop_id)
    qed
  qed
qed

text \<open>C22: a buffer scattered to disjoint kernel segments that are large enough for it is
  what gathering from the same segments returns.\<close>

theorem scatter_gather_roundtrip:
  assumes "\<forall>v \<in> set iov. iov_base v = 0 \<longrightarrow> iov_len v = 0" "iov_disjoint iov"
    "length data \<le> iov_total iov" "length out = length data"
    "membuf_to_kern_iovec (Some iov) (length iov) (Some data) (length data) m = (m', r)"
  shows "r = Inr (length data) \<and>
    kern_iovec_to_membuf m' (Some out) (length data) (Some iov) (length iov) = (Some data, Inr (length data))"
proof -
  have "r = Inr (length data) \<and> take (length data) (concat (map (iov_bytes m') iov)) = data"
  proof (cases "length iov = 0 \<or> length data = 0")
    case True
    then show ?thesis using assms(3,5) by (auto simp: membuf_to_kern_iovec_def iov_total_def)
  next
    case False
    then show ?thesis
      using membuf_to_kern_loop_reads_back [OF assms(1-3), of 0 m m' r] assms(5)
      by (auto simp: membuf_to_kern_iovec_def)
  qed
  then show ?thesis
    using kern_iovec_to_membuf_ok [of "length iov" iov m' out "length data"] assms(1,4)
    by (auto simp: Let_def overwrite_def)
qed

theorem scatter_gather_roundtrip_witness:
  "kern_iovec_to_membuf
     (fst (membuf_to_kern_iovec (Some [\<lparr>iov_base = 16, iov_len = 2\<rparr>, \<lparr>iov_base = 64, iov_len = 4\<rparr>]) 2
        (Some [7, 8, 9]) 3 (\<lambda>_. 0)))
     (Some [0, 0, 0]) 3 (Some [\<lparr>iov_base = 16, iov_len = 2\<rparr>, \<lparr>iov_base = 64, iov_len = 4\<rparr>]) 2
   = (Some [7, 8, 9], Inr 3)"
proof -
  let ?iov = "[\<lparr>iov_base = 16, iov_len = 2\<rparr>, \<lparr>iov_base = 64, iov_len = 4\<rparr>] :: iovec_kern list"
  have h: "\<forall>v \<in> set ?iov. iov_base v = 0 \<longrightarrow> iov_len v = 0" "iov_disjoint ?iov"
    "length [7, 8, 9 :: u8] \<le> iov_total ?iov" "length [0, 0, 0 :: u8] = length [7, 8, 9 :: u8]"
    by code_simp+
  show ?thesis
    using scatter_gather_roundtrip [OF h surjective_pairing, of "\<lambda>_. 0"]
    by (simp add: numeral_2_eq_2 numeral_3_eq_3)
qed

section \<open>Gathering from user segments\<close>

text \<open>
  What a user program sees of a segment array: \<open>n\<close> records at \<open>a\<close>, the memory
  behind them, or \<open>None\<close> when some byte needed is not mapped.
\<close>

definition user_bytes :: "umem \<Rightarrow> u32 \<Rightarrow> nat \<Rightarrow> u8 list option" where
  "user_bytes m a n = (case copy_from_user m a n of (bs, Inr _) \<Rightarrow> Some bs | (_, Inl _) \<Rightarrow> None)"

fun user_segments :: "umem \<Rightarrow> u32 \<Rightarrow> nat \<Rightarrow> iovec_kern list option" where
  "user_segments m a 0 = Some []"
| "user_segments m a (Suc n) =
     (case user_bytes m a iovec_user_sz of
        None \<Rightarrow> None
      | Some bs \<Rightarrow> map_option (Cons (iovec_user_of bs)) (user_segments m (a + word_of_nat iovec_user_sz) n))"

definition user_seg_bytes :: "umem \<Rightarrow> iovec_kern \<Rightarrow> u8 list" where
  "user_seg_bytes m v = fst (copy_from_user m (iov_base v) (unat (iov_len v)))"

definition user_seg_mapped :: "umem \<Rightarrow> iovec_kern \<Rightarrow> bool" where
  "user_seg_mapped m v \<longleftrightarrow> user_bytes m (iov_base v) (unat (iov_len v)) \<noteq> None"

lemma length_copy_from_user [simp]: "length (fst (copy_from_user m a n)) = n"
  by (induction n arbitrary: a) (auto split: option.splits simp: Let_def split_beta)

lemma copy_from_user_ok_iff:
  "snd (copy_from_user m a n) = NO_ERROR \<longleftrightarrow> (\<forall>x \<in> set (kaddrs a n). um_bytes m x \<noteq> None)"
  by (induction n arbitrary: a) (auto split: option.splits simp: Let_def split_beta)

lemma copy_from_user_prefix:
  "copy_from_user m a n = (bs, Inr u) \<Longrightarrow> k \<le> n \<Longrightarrow> copy_from_user m a k = (take k bs, NO_ERROR)"
proof (induction n arbitrary: a bs k)
  case 0
  then show ?case by simp
next
  case (Suc n)
  then obtain b bs' where b: "um_bytes m a = Some b" "copy_from_user m (a + 1) n = (bs', Inr u)" "bs = b # bs'"
    by (auto split: option.splits prod.splits)
  show ?case
  proof (cases k)
    case 0
    then show ?thesis by simp
  next
    case (Suc k')
    then show ?thesis using Suc.IH [OF b(2), of k'] Suc.prems(2) b by simp
  qed
qed

lemma user_seg_prefix:
  "user_seg_mapped m v \<Longrightarrow> k \<le> unat (iov_len v) \<Longrightarrow>
     copy_from_user m (iov_base v) k = (take k (user_seg_bytes m v), NO_ERROR)"
  using copy_from_user_prefix [of m "iov_base v" "unat (iov_len v)"]
  by (auto simp: user_seg_mapped_def user_bytes_def user_seg_bytes_def split: prod.splits sum.splits)

lemma length_user_seg_bytes [simp]: "length (user_seg_bytes m v) = unat (iov_len v)"
  by (simp add: user_seg_bytes_def)

lemma user_to_membuf_loop_bound: "length (fst (user_to_membuf_loop m len a n copied)) \<le> len"
proof (induction n arbitrary: len a copied)
  case (Suc n)
  let ?v = "iovec_user_of (fst (copy_from_user m a iovec_user_sz))"
  let ?k = "clamp_len len (iov_len ?v)"
  have "?k \<le> len" by (simp add: clamp_len_min)
  have "?k + length (fst (user_to_membuf_loop m (len - ?k) (a + word_of_nat iovec_user_sz) n (copied + ?k))) \<le> len"
    using Suc.IH [of "len - ?k" "a + word_of_nat iovec_user_sz" "copied + ?k"] \<open>?k \<le> len\<close> by linarith
  then show ?case using \<open>?k \<le> len\<close>
    by (simp add: Let_def split_beta split: sum.split)
qed simp

text \<open>C23: whatever segment array the user passes, gathering it stores no more than the size
  of the buffer: the buffer keeps its length and what lies beyond \<open>len\<close> is untouched,
  on every path, faults included.\<close>

theorem user_iovec_to_membuf_bounded:
  assumes "len \<le> length buf"
  shows "\<exists>b. fst (user_iovec_to_membuf m (Some buf) len iov_uaddr iov_cnt) = Some b \<and>
             length b = length buf \<and> drop len b = drop len buf"
proof (cases "iov_cnt = 0 \<or> len = 0")
  case True
  then show ?thesis by (auto simp: user_iovec_to_membuf_def)
next
  case False
  let ?bs = "fst (user_to_membuf_loop m len iov_uaddr iov_cnt 0)"
  have "length ?bs \<le> len" by (rule user_to_membuf_loop_bound)
  then show ?thesis using False assms
    by (auto simp: user_iovec_to_membuf_def overwrite_def split_beta)
qed

definition demo_umem :: umem where
  "demo_umem = \<lparr>um_bytes = (\<lambda>a. if a < 8 then Some ([32, 0, 0, 0, 3, 0, 0, 0] ! unat a)
     else if 32 \<le> a \<and> a < 40 then Some (ucast a) else None), um_writable = (\<lambda>_. False)\<rparr>"

theorem user_iovec_to_membuf_bounded_witness:
  "user_iovec_to_membuf demo_umem (Some [1, 1, 1, 1]) 2 0 1 = (Some [32, 33, 1, 1], Inr 2) \<and>
   (\<exists>b. fst (user_iovec_to_membuf demo_umem (Some [1, 1, 1, 1]) 2 0 1) = Some b \<and>
             length b = 4 \<and> drop 2 b = [1, 1])"
proof -
  have "user_iovec_to_membuf demo_umem (Some [1, 1, 1, 1]) 2 0 1 = (Some [32, 33, 1, 1], Inr 2)" by code_simp
  then show ?thesis
    using user_iovec_to_membuf_bounded [of 2 "[1, 1, 1, 1]" demo_umem 0 1] by simp
qed

lemma user_to_membuf_loop_ok:
  assumes "user_segments m a n = Some iov" "list_all (user_seg_mapped m) iov"
  shows "user_to_membuf_loop m len a n copied =
    (take len (concat (map (user_seg_bytes m) iov)),
     Inr (copied + length (take len (concat (map (user_seg_bytes m) iov)))))"
  using assms
proof (induction n arbitrary: a iov len copied)
  case 0
  then show ?case by simp
next
  case (Suc n)
  from Suc.prems(1) obtain bs vs where v: "copy_from_user m a iovec_user_sz = (bs, NO_ERROR)"
      "user_segments m (a + word_of_nat iovec_user_sz) n = Some vs" "iov = iovec_user_of bs # vs"
    by (auto simp: user_bytes_def split: option.splits prod.splits sum.splits)
  let ?v = "iovec_user_of bs" and ?k = "min len (unat (iov_len (iovec_user_of bs)))"
  have c: "copy_from_user m (iov_base ?v) ?k = (take ?k (user_seg_bytes m ?v), NO_ERROR)"
    using Suc.prems(2) v(3) by (intro user_seg_prefix) auto
  have IH: "user_to_membuf_loop m l (a + word_of_nat iovec_user_sz) n c =
      (take l (concat (map (user_seg_bytes m) vs)), Inr (c + length (take l (concat (map (user_seg_bytes m) vs)))))"
    for l c
    using Suc.IH [OF v(2)] Suc.prems(2) v(3) by simp
  let ?vs = "concat (map (user_seg_bytes m) vs)"
  show ?case
  proof (cases "len - ?k = 0")
    case True
    then have "len \<le> unat (iov_len ?v)" "?k = len" by auto
    then show ?thesis using v c by (simp add: clamp_len_min)
  next
    case False
    then have "?k = unat (iov_len ?v)" by auto
    then show ?thesis using v c IH False by (simp add: clamp_len_min Let_def)
  qed
qed

lemma user_iovec_to_membuf_ok:
  assumes "user_segments m iov_uaddr iov_cnt = Some iov" "list_all (user_seg_mapped m) iov"
  shows "user_iovec_to_membuf m (Some buf) len iov_uaddr iov_cnt =
    (let bs = take len (concat (map (user_seg_bytes m) iov))
     in (Some (overwrite bs buf), Inr (length bs)))"
  using user_to_membuf_loop_ok [OF assms, of len 0] assms(1)
  by (auto simp: user_iovec_to_membuf_def Let_def overwrite_def)

lemma user_to_membuf_loop_count:
  "user_to_membuf_loop m len a n copied = (bs, Inr k) \<Longrightarrow> k = copied + length bs"
proof (induction n arbitrary: len a copied bs k)
  case 0
  then show ?case by auto
next
  case (Suc n)
  let ?v = "iovec_user_of (fst (copy_from_user m a iovec_user_sz))"
  let ?k = "clamp_len len (iov_len ?v)"
  let ?rest = "user_to_membuf_loop m (len - ?k) (a + word_of_nat iovec_user_sz) n (copied + ?k)"
  have "snd ?rest = Inr j \<Longrightarrow> j = copied + ?k + length (fst ?rest)" for j
    using Suc.IH [of "len - ?k" "a + word_of_nat iovec_user_sz" "copied + ?k" "fst ?rest" j]
    by (metis prod.collapse)
  then show ?case using Suc.prems
    by (auto simp: Let_def split_beta split: sum.splits if_splits)
qed

lemma kern_to_membuf_loop_bound: "length (fst (kern_to_membuf_loop m len iov copied)) \<le> len"
proof (induction iov arbitrary: len copied)
  case (Cons v iov)
  let ?k = "clamp_len len (iov_len v)"
  have k: "?k \<le> len" by (simp add: clamp_len_min)
  show ?case
    using Cons.IH [of len copied] Cons.IH [of "len - ?k" "copied + ?k"] k
    by (auto simp: Let_def split_beta)
qed simp

lemma kern_to_membuf_loop_count:
  "kern_to_membuf_loop m len iov copied = (bs, Inr k) \<Longrightarrow> k = copied + length bs"
proof (induction iov arbitrary: len copied bs k)
  case (Cons v iov)
  let ?k = "clamp_len len (iov_len v)"
  let ?rest = "kern_to_membuf_loop m (len - ?k) iov (copied + ?k)"
  have "snd ?rest = Inr j \<Longrightarrow> j = copied + ?k + length (fst ?rest)" for j
    using Cons.IH [of "len - ?k" "copied + ?k" "fst ?rest" j] by (metis prod.collapse)
  then show ?case using Cons.prems Cons.IH [of len copied bs k]
    by (auto simp: Let_def split_beta split: if_splits)
qed auto

lemma kern_to_membuf_loop_count_snd:
  "snd (kern_to_membuf_loop m len iov copied) = Inr k \<Longrightarrow>
     k = copied + length (fst (kern_to_membuf_loop m len iov copied))"
  using kern_to_membuf_loop_count by (metis prod.collapse)

lemma user_to_membuf_loop_count_snd:
  "snd (user_to_membuf_loop m len a n copied) = Inr k \<Longrightarrow>
     k = copied + length (fst (user_to_membuf_loop m len a n copied))"
  using user_to_membuf_loop_count by (metis prod.collapse)

end
