(* ===== verification/Ipc_Msg.thy ===== *)
theory Ipc_Msg
  imports Uio
begin

text \<open>
  The message queue of a channel (\<^verbatim>\<open>lk/trusty/lib/trusty/ipc_msg.c\<close>): a fixed array of
  equal-sized slots threaded on a free, a filled and a read list. A pointer to an item is
  its index in the item array. The contract a channel relies on, a bounded FIFO whose
  messages are taken, read and then retired, is the locale \<open>msg_fifo\<close>.
\<close>

section \<open>Data\<close>

datatype msg_state = MSG_ITEM_STATE_FREE | MSG_ITEM_STATE_FILLED | MSG_ITEM_STATE_READ

record msg_item =
  mi_id :: u8
  mi_state :: msg_state
  mi_num_handles :: nat
  mi_len :: nat

record ipc_msg_queue =
  free_list :: "nat list"
  filled_list :: "nat list"
  read_list :: "nat list"
  num_items :: nat
  item_sz :: nat
  mq_buf :: "u8 list"
  mq_items :: "msg_item list"

record ipc_msg_kern =
  k_num_iov :: nat
  k_iov :: "iovec_kern list option"
  k_num_handles :: nat

record ipc_msg_user =
  u_num_iov :: u32
  u_iov :: u32
  u_num_handles :: u32
  u_handles :: u32

datatype msg_desc =
    IPC_MSG_BUFFER_USER ipc_msg_user
  | IPC_MSG_BUFFER_KERNEL ipc_msg_kern
  | IPC_MSG_BUFFER_OTHER

record ipc_msg_info =
  info_len :: u32
  info_id :: u32

section \<open>Creation\<close>

text \<open>
  The two allocations may fail; \<open>a1\<close> and \<open>a2\<close> say whether they succeed. The array
  comes from \<^verbatim>\<open>calloc\<close>, so every item starts in state 0 with no handles and no bytes.
  The payload area comes from \<^verbatim>\<open>malloc\<close>; its initial content is taken to be zero, and no
  operation reads it before writing it.
\<close>

definition ipc_msg_queue_create :: "bool \<Rightarrow> bool \<Rightarrow> nat \<Rightarrow> nat \<Rightarrow> ipc_msg_queue res" where
  "ipc_msg_queue_create a1 a2 n sz =
     (if \<not> a1 then Inl ERR_NO_MEMORY
      else if \<not> a2 then Inl ERR_NO_MEMORY
      else Inr \<lparr>free_list = [0..<n], filled_list = [], read_list = [], num_items = n, item_sz = sz,
             mq_buf = replicate (n * sz) 0,
             mq_items = map (\<lambda>i. \<lparr>mi_id = word_of_nat i, mi_state = MSG_ITEM_STATE_FREE,
               mi_num_handles = 0, mi_len = 0\<rparr>) [0..<n]\<rparr>)"

definition ipc_msg_queue_is_empty :: "ipc_msg_queue \<Rightarrow> bool" where
  "ipc_msg_queue_is_empty mq = (filled_list mq = [])"

definition ipc_msg_queue_is_full :: "ipc_msg_queue \<Rightarrow> bool" where
  "ipc_msg_queue_is_full mq = (free_list mq = [])"

section \<open>Items and their buffers\<close>

definition msg_queue_buf_off :: "ipc_msg_queue \<Rightarrow> nat \<Rightarrow> nat" where
  "msg_queue_buf_off mq i = unat (mi_id (mq_items mq ! i)) * item_sz mq"

definition msg_queue_get_buf :: "ipc_msg_queue \<Rightarrow> nat \<Rightarrow> u8 list" where
  "msg_queue_get_buf mq i = take (item_sz mq) (drop (msg_queue_buf_off mq i) (mq_buf mq))"

definition msg_queue_put_buf :: "ipc_msg_queue \<Rightarrow> nat \<Rightarrow> u8 list \<Rightarrow> ipc_msg_queue" where
  "msg_queue_put_buf mq i bs =
     mq\<lparr>mq_buf := take (msg_queue_buf_off mq i) (mq_buf mq) @ bs @
                   drop (msg_queue_buf_off mq i + length bs) (mq_buf mq)\<rparr>"

definition msg_queue_get_item :: "ipc_msg_queue \<Rightarrow> u32 \<Rightarrow> nat option" where
  "msg_queue_get_item mq mid = (if unat mid < num_items mq then Some (unat mid) else None)"

definition mq_update_item :: "nat \<Rightarrow> (msg_item \<Rightarrow> msg_item) \<Rightarrow> ipc_msg_queue \<Rightarrow> ipc_msg_queue" where
  "mq_update_item i f mq = mq\<lparr>mq_items := (mq_items mq)[i := f (mq_items mq ! i)]\<rparr>"

text \<open>\<^verbatim>\<open>list_delete (&item->node)\<close>: the item leaves whatever list it is on.\<close>

definition mq_unlink :: "nat \<Rightarrow> ipc_msg_queue \<Rightarrow> ipc_msg_queue" where
  "mq_unlink i mq = mq\<lparr>free_list := remove1 i (free_list mq),
     filled_list := remove1 i (filled_list mq), read_list := remove1 i (read_list mq)\<rparr>"

section \<open>Writing, taking, reading and retiring a message\<close>

text \<open>
  The part of \<^verbatim>\<open>msg_write_locked\<close> that works on the peer's queue. The error
  \<^verbatim>\<open>ERR_NOT_ENOUGH_BUFFER\<close> is the branch in which the sender is marked blocked.
\<close>

definition msg_write_mq :: "kmem \<Rightarrow> umem \<Rightarrow> ipc_msg_queue \<Rightarrow> msg_desc \<Rightarrow> ipc_msg_queue \<times> nat res" where
  "msg_write_mq km um mq msg =
     (case free_list mq of
        [] \<Rightarrow> (mq, Inl ERR_NOT_ENOUGH_BUFFER)
      | i # _ \<Rightarrow>
          (let mq1 = mq_update_item i (\<lambda>it. it\<lparr>mi_num_handles := 0, mi_len := 0\<rparr>) mq;
               b = Some (msg_queue_get_buf mq1 i);
               (b', ret) =
                 (case msg of
                    IPC_MSG_BUFFER_KERNEL k \<Rightarrow>
                      if k_num_handles k \<noteq> 0 then (b, Inl ERR_NOT_SUPPORTED)
                      else kern_iovec_to_membuf km b (item_sz mq1) (k_iov k) (k_num_iov k)
                  | IPC_MSG_BUFFER_USER u \<Rightarrow>
                      if u_num_handles u \<noteq> 0 then (b, Inl ERR_NOT_SUPPORTED)
                      else user_iovec_to_membuf um b (item_sz mq1) (u_iov u) (unat (u_num_iov u))
                  | IPC_MSG_BUFFER_OTHER \<Rightarrow> (b, Inl ERR_INVALID_ARGS));
               mq2 = (case b' of None \<Rightarrow> mq1 | Some bs \<Rightarrow> msg_queue_put_buf mq1 i bs)
           in case ret of
                Inl e \<Rightarrow> (mq2, Inl e)
              | Inr n \<Rightarrow>
                  (let mq3 = mq_update_item i (\<lambda>it. it\<lparr>mi_len := n\<rparr>) mq2;
                       mq4 = mq_unlink i mq3;
                       mq5 = mq4\<lparr>filled_list := filled_list mq4 @ [i]\<rparr>
                   in (mq_update_item i (\<lambda>it. it\<lparr>mi_state := MSG_ITEM_STATE_FILLED\<rparr>) mq5, Inr n))))"

definition msg_read_locked ::
    "kmem \<Rightarrow> umem \<Rightarrow> ipc_msg_queue \<Rightarrow> u32 \<Rightarrow> u32 \<Rightarrow> msg_desc \<Rightarrow> kmem \<times> umem \<times> nat res" where
  "msg_read_locked km um mq mid offset msg =
     (case msg_queue_get_item mq mid of
        None \<Rightarrow> (km, um, Inl ERR_INVALID_ARGS)
      | Some i \<Rightarrow>
          (let item = mq_items mq ! i in
           if mi_state item \<noteq> MSG_ITEM_STATE_READ then (km, um, Inl ERR_INVALID_ARGS)
           else if mi_num_handles item \<noteq> 0 then (km, um, Inl ERR_NOT_SUPPORTED)
           else if unat offset > mi_len item then (km, um, Inl ERR_INVALID_ARGS)
           else
             (let bf = Some (drop (unat offset) (msg_queue_get_buf mq i));
                  bytes_left = mi_len item - unat offset
              in case msg of
                   IPC_MSG_BUFFER_KERNEL k \<Rightarrow>
                     if k_num_handles k \<noteq> 0 then (km, um, Inl ERR_NOT_SUPPORTED)
                     else (let (km', r) = membuf_to_kern_iovec (k_iov k) (k_num_iov k) bf bytes_left km
                           in (km', um, r))
                 | IPC_MSG_BUFFER_USER u \<Rightarrow>
                     if u_num_handles u \<noteq> 0 then (km, um, Inl ERR_NOT_SUPPORTED)
                     else (let (um', r) = membuf_to_user_iovec (u_iov u) (unat (u_num_iov u)) bf bytes_left um
                           in (km, um', r))
                 | IPC_MSG_BUFFER_OTHER \<Rightarrow> (km, um, Inl ERR_INVALID_ARGS))))"

definition msg_peek_next_filled_locked :: "ipc_msg_queue \<Rightarrow> ipc_msg_info res" where
  "msg_peek_next_filled_locked mq =
     (case filled_list mq of
        [] \<Rightarrow> Inl ERR_NO_MSG
      | i # _ \<Rightarrow> Inr \<lparr>info_len = word_of_nat (mi_len (mq_items mq ! i)),
                      info_id = ucast (mi_id (mq_items mq ! i))\<rparr>)"

text \<open>With no filled message the code dereferences a null item, which is \<open>None\<close>.\<close>

definition msg_get_filled_locked :: "ipc_msg_queue \<Rightarrow> ipc_msg_queue option" where
  "msg_get_filled_locked mq =
     (case filled_list mq of
        [] \<Rightarrow> None
      | i # _ \<Rightarrow>
          (let mq1 = mq_unlink i mq;
               mq2 = mq1\<lparr>read_list := read_list mq1 @ [i]\<rparr>
           in Some (mq_update_item i (\<lambda>it. it\<lparr>mi_state := MSG_ITEM_STATE_READ\<rparr>) mq2)))"

text \<open>The part of \<^verbatim>\<open>msg_put_read_locked\<close> that works on the channel's own queue.\<close>

definition msg_put_read_mq :: "ipc_msg_queue \<Rightarrow> u32 \<Rightarrow> ipc_msg_queue res" where
  "msg_put_read_mq mq mid =
     (case msg_queue_get_item mq mid of
        None \<Rightarrow> Inl ERR_INVALID_ARGS
      | Some i \<Rightarrow>
          if mi_state (mq_items mq ! i) \<noteq> MSG_ITEM_STATE_READ then Inl ERR_INVALID_ARGS
          else (let mq1 = mq_unlink i mq;
                    mq2 = mq1\<lparr>free_list := i # free_list mq1\<rparr>
                in Inr (mq_update_item i (\<lambda>it. it\<lparr>mi_state := MSG_ITEM_STATE_FREE\<rparr>) mq2)))"

section \<open>Invariant\<close>

text \<open>
  Every item is on exactly one of the three lists, the one its state names; an item's
  identifier is its index, and its payload fits its slot of the payload area.
\<close>

definition item_state_of :: "ipc_msg_queue \<Rightarrow> nat \<Rightarrow> msg_state" where
  "item_state_of mq i =
     (if i \<in> set (free_list mq) then MSG_ITEM_STATE_FREE
      else if i \<in> set (filled_list mq) then MSG_ITEM_STATE_FILLED
      else MSG_ITEM_STATE_READ)"

definition item_ok :: "ipc_msg_queue \<Rightarrow> nat \<Rightarrow> bool" where
  "item_ok mq i \<longleftrightarrow> (let it = mq_items mq ! i in
     mi_id it = word_of_nat i \<and> mi_num_handles it = 0 \<and> mi_len it \<le> item_sz mq \<and>
     mi_state it = item_state_of mq i)"

definition mq_wf :: "ipc_msg_queue \<Rightarrow> bool" where
  "mq_wf mq \<longleftrightarrow>
     num_items mq \<le> 256 \<and>
     length (mq_items mq) = num_items mq \<and>
     length (mq_buf mq) = num_items mq * item_sz mq \<and>
     distinct (free_list mq @ filled_list mq @ read_list mq) \<and>
     set (free_list mq @ filled_list mq @ read_list mq) = {..<num_items mq} \<and>
     (\<forall>i<num_items mq. item_ok mq i)"

text \<open>The payload of an item, the messages waiting to be taken, and those being read.\<close>

definition payload :: "ipc_msg_queue \<Rightarrow> nat \<Rightarrow> u8 list" where
  "payload mq i = take (mi_len (mq_items mq ! i)) (msg_queue_get_buf mq i)"

definition pending :: "ipc_msg_queue \<Rightarrow> u8 list list" where
  "pending mq = map (payload mq) (filled_list mq)"

definition readable :: "ipc_msg_queue \<Rightarrow> nat \<rightharpoonup> u8 list" where
  "readable mq i = (if i \<in> set (read_list mq) then Some (payload mq i) else None)"

subsection \<open>Slots do not overlap\<close>

lemma take_drop_splice_other:
  assumes "k + n \<le> off \<or> off + length bs \<le> k" "off + length bs \<le> length B"
  shows "take n (drop k (take off B @ bs @ drop (off + length bs) B)) = take n (drop k B)"
  using assms by (intro nth_equalityI) (auto simp: nth_append)

lemma take_drop_splice_same:
  assumes "off + length bs \<le> length B"
  shows "take (length bs) (drop off (take off B @ bs @ drop (off + length bs) B)) = bs"
  using assms by simp

lemma slots_disjoint: "i \<noteq> j \<Longrightarrow> i * sz + sz \<le> j * sz \<or> j * sz + sz \<le> i * (sz::nat)"
proof -
  assume "i \<noteq> j"
  then consider "Suc i \<le> j" | "Suc j \<le> i" by linarith
  then show ?thesis
  proof cases
    case 1
    then have "Suc i * sz \<le> j * sz" by (rule mult_le_mono1)
    then show ?thesis by simp
  next
    case 2
    then have "Suc j * sz \<le> i * sz" by (rule mult_le_mono1)
    then show ?thesis by simp
  qed
qed

lemma slot_in_buf: "i < n \<Longrightarrow> i * sz + sz \<le> n * (sz::nat)"
  using mult_le_mono1 [of "Suc i" n sz] by simp

lemma mq_wf_item:
  assumes "mq_wf mq" "i < num_items mq"
  shows "mi_id (mq_items mq ! i) = word_of_nat i" "mi_num_handles (mq_items mq ! i) = 0"
    "mi_len (mq_items mq ! i) \<le> item_sz mq" "mi_state (mq_items mq ! i) = item_state_of mq i"
    "i < length (mq_items mq)"
  using assms by (auto simp: mq_wf_def item_ok_def Let_def)

lemma mq_wf_off: "mq_wf mq \<Longrightarrow> i < num_items mq \<Longrightarrow> msg_queue_buf_off mq i = i * item_sz mq"
  by (auto simp: msg_queue_buf_off_def mq_wf_item unat_of_nat mq_wf_def)

lemma length_get_buf:
  "mq_wf mq \<Longrightarrow> i < num_items mq \<Longrightarrow> length (msg_queue_get_buf mq i) = item_sz mq"
  using slot_in_buf [of i "num_items mq" "item_sz mq"]
  by (auto simp: msg_queue_get_buf_def mq_wf_off mq_wf_def)

lemma length_payload: "mq_wf mq \<Longrightarrow> i < num_items mq \<Longrightarrow> length (payload mq i) = mi_len (mq_items mq ! i)"
  using mq_wf_item(3) by (auto simp: payload_def length_get_buf)

lemma mq_wf_lists:
  assumes "mq_wf mq"
  shows "set (free_list mq) \<subseteq> {..<num_items mq}" "set (filled_list mq) \<subseteq> {..<num_items mq}"
    "set (read_list mq) \<subseteq> {..<num_items mq}"
    "set (free_list mq) \<inter> set (filled_list mq) = {}" "set (free_list mq) \<inter> set (read_list mq) = {}"
    "set (filled_list mq) \<inter> set (read_list mq) = {}"
    "distinct (free_list mq)" "distinct (filled_list mq)" "distinct (read_list mq)"
  using assms by (auto simp: mq_wf_def)

lemma item_state_READ_iff:
  "mq_wf mq \<Longrightarrow> i < num_items mq \<Longrightarrow>
     mi_state (mq_items mq ! i) = MSG_ITEM_STATE_READ \<longleftrightarrow> i \<in> set (read_list mq)"
  using mq_wf_item(4) [of mq i] by (auto simp: item_state_of_def mq_wf_def)

section \<open>What each operation does to a well-formed queue\<close>

text \<open>The bytes a message descriptor supplies to a slot of \<open>sz\<close> bytes, and the result.\<close>

definition msg_gather :: "kmem \<Rightarrow> umem \<Rightarrow> nat \<Rightarrow> msg_desc \<Rightarrow> u8 list \<times> nat res" where
  "msg_gather km um sz msg =
     (case msg of
        IPC_MSG_BUFFER_KERNEL k \<Rightarrow>
          if k_num_handles k \<noteq> 0 then ([], Inl ERR_NOT_SUPPORTED)
          else if k_num_iov k = 0 \<or> sz = 0 then ([], Inr 0)
          else (case k_iov k of
                  None \<Rightarrow> ([], Inl ERR_INVALID_ARGS)
                | Some v \<Rightarrow> kern_to_membuf_loop km sz (take (k_num_iov k) v) 0)
      | IPC_MSG_BUFFER_USER u \<Rightarrow>
          if u_num_handles u \<noteq> 0 then ([], Inl ERR_NOT_SUPPORTED)
          else if u_num_iov u = 0 \<or> sz = 0 then ([], Inr 0)
          else user_to_membuf_loop um sz (u_iov u) (unat (u_num_iov u)) 0
      | IPC_MSG_BUFFER_OTHER \<Rightarrow> ([], Inl ERR_INVALID_ARGS))"

lemma msg_gather_bound: "length (fst (msg_gather km um sz msg)) \<le> sz"
  using kern_to_membuf_loop_bound user_to_membuf_loop_bound
  by (auto simp: msg_gather_def split: msg_desc.split option.split)

lemma msg_gather_count: "snd (msg_gather km um sz msg) = Inr n \<Longrightarrow> n = length (fst (msg_gather km um sz msg))"
  by (auto simp: msg_gather_def split: msg_desc.splits option.splits if_splits
      dest!: kern_to_membuf_loop_count_snd user_to_membuf_loop_count_snd)

lemma kern_iovec_to_membuf_overwrite:
  "kern_iovec_to_membuf km (Some b) sz iov n =
     (let g = (if n = 0 \<or> sz = 0 then ([], Inr 0)
               else case iov of None \<Rightarrow> ([], Inl ERR_INVALID_ARGS)
                    | Some v \<Rightarrow> kern_to_membuf_loop km sz (take n v) 0)
      in (Some (overwrite (fst g) b), snd g))"
  by (auto simp: kern_iovec_to_membuf_def split_beta Let_def split: option.split)

lemma user_iovec_to_membuf_overwrite:
  "user_iovec_to_membuf um (Some b) sz a n =
     (let g = (if n = 0 \<or> sz = 0 then ([], Inr 0) else user_to_membuf_loop um sz a n 0)
      in (Some (overwrite (fst g) b), snd g))"
  by (auto simp: user_iovec_to_membuf_def split_beta Let_def)

text \<open>The queue after slot \<open>i\<close> has received the bytes \<open>bs\<close>.\<close>

definition mq_store :: "ipc_msg_queue \<Rightarrow> nat \<Rightarrow> u8 list \<Rightarrow> u8 list" where
  "mq_store mq i bs = take (i * item_sz mq) (mq_buf mq) @ overwrite bs (msg_queue_get_buf mq i) @
     drop (i * item_sz mq + item_sz mq) (mq_buf mq)"

lemma msg_write_mq_eq:
  assumes "mq_wf mq" "free_list mq = i # fs"
  shows "msg_write_mq km um mq msg =
    (let bs = fst (msg_gather km um (item_sz mq) msg); it = mq_items mq ! i
     in case snd (msg_gather km um (item_sz mq) msg) of
          Inl e \<Rightarrow> (mq\<lparr>mq_buf := mq_store mq i bs, mq_items := (mq_items mq)[i := it\<lparr>mi_len := 0\<rparr>]\<rparr>, Inl e)
        | Inr n \<Rightarrow> (mq\<lparr>mq_buf := mq_store mq i bs,
             mq_items := (mq_items mq)[i := it\<lparr>mi_len := n, mi_state := MSG_ITEM_STATE_FILLED\<rparr>],
             free_list := fs, filled_list := filled_list mq @ [i]\<rparr>, Inr n))"
proof -
  have i: "i < num_items mq" "i \<notin> set (filled_list mq)" "i \<notin> set (read_list mq)"
    using mq_wf_lists [OF assms(1)] assms(2) by auto
  note it = mq_wf_item [OF assms(1) i(1)]
  have nh: "(mq_items mq ! i)\<lparr>mi_num_handles := 0\<rparr> = mq_items mq ! i"
    using it(2) by (cases "mq_items mq ! i") simp
  define mq1 where "mq1 = mq_update_item i (\<lambda>it. it\<lparr>mi_num_handles := 0, mi_len := 0\<rparr>) mq"
  have mq1: "mq1 = mq\<lparr>mq_items := (mq_items mq)[i := (mq_items mq ! i)\<lparr>mi_len := 0\<rparr>]\<rparr>"
    using nh by (simp add: mq1_def mq_update_item_def)
  have off: "msg_queue_buf_off mq1 i = i * item_sz mq"
    using it(5) mq_wf_off [OF assms(1) i(1)] by (simp add: mq1 msg_queue_buf_off_def)
  have gb: "msg_queue_get_buf mq1 i = msg_queue_get_buf mq i"
    using off mq_wf_off [OF assms(1) i(1)] by (simp add: msg_queue_get_buf_def mq1)
  have len: "length (msg_queue_get_buf mq i) = item_sz mq" by (rule length_get_buf [OF assms(1) i(1)])
  have put: "msg_queue_put_buf mq1 i (overwrite bs (msg_queue_get_buf mq i)) = mq1\<lparr>mq_buf := mq_store mq i bs\<rparr>"
    if "length bs \<le> item_sz mq" for bs
    using that len off by (simp add: msg_queue_put_buf_def mq_store_def mq1)
  have g: "(case msg of
              IPC_MSG_BUFFER_KERNEL k \<Rightarrow>
                if k_num_handles k \<noteq> 0 then (Some (msg_queue_get_buf mq i), Inl ERR_NOT_SUPPORTED)
                else kern_iovec_to_membuf km (Some (msg_queue_get_buf mq i)) (item_sz mq) (k_iov k) (k_num_iov k)
            | IPC_MSG_BUFFER_USER u \<Rightarrow>
                if u_num_handles u \<noteq> 0 then (Some (msg_queue_get_buf mq i), Inl ERR_NOT_SUPPORTED)
                else user_iovec_to_membuf um (Some (msg_queue_get_buf mq i)) (item_sz mq) (u_iov u) (unat (u_num_iov u))
            | IPC_MSG_BUFFER_OTHER \<Rightarrow> (Some (msg_queue_get_buf mq i), Inl ERR_INVALID_ARGS)) =
      (Some (overwrite (fst (msg_gather km um (item_sz mq) msg)) (msg_queue_get_buf mq i)),
       snd (msg_gather km um (item_sz mq) msg))"
    by (cases msg) (auto simp: msg_gather_def kern_iovec_to_membuf_overwrite user_iovec_to_membuf_overwrite
        Let_def unsigned_eq_0_iff split: option.split)
  have sz: "item_sz mq1 = item_sz mq" by (simp add: mq1)
  have fin: "mq_update_item i (\<lambda>it. it\<lparr>mi_state := MSG_ITEM_STATE_FILLED\<rparr>)
        ((mq_unlink i (mq_update_item i (\<lambda>it. it\<lparr>mi_len := n\<rparr>) (mq1\<lparr>mq_buf := B\<rparr>)))
          \<lparr>filled_list := filled_list (mq_unlink i (mq_update_item i (\<lambda>it. it\<lparr>mi_len := n\<rparr>) (mq1\<lparr>mq_buf := B\<rparr>))) @ [i]\<rparr>)
      = mq\<lparr>mq_buf := B, mq_items := (mq_items mq)[i := (mq_items mq ! i)\<lparr>mi_len := n, mi_state := MSG_ITEM_STATE_FILLED\<rparr>],
           free_list := fs, filled_list := filled_list mq @ [i]\<rparr>" for n B
    using i it(5) assms(2) by (simp add: mq1 mq_update_item_def mq_unlink_def remove1_idem)
  show ?thesis
    unfolding msg_write_mq_def assms(2) list.case mq1_def [symmetric] gb sz Let_def
    using put [OF msg_gather_bound] fin
    by (simp add: g mq1 split: sum.split)
qed

lemma msg_get_filled_eq:
  assumes "mq_wf mq" "filled_list mq = i # fs"
  shows "msg_get_filled_locked mq =
    Some (mq\<lparr>filled_list := fs, read_list := read_list mq @ [i],
      mq_items := (mq_items mq)[i := (mq_items mq ! i)\<lparr>mi_state := MSG_ITEM_STATE_READ\<rparr>]\<rparr>)"
proof -
  have "i \<notin> set (free_list mq)" "i \<notin> set (read_list mq)"
    using mq_wf_lists [OF assms(1)] assms(2) by auto
  then show ?thesis
    using assms(2) by (simp add: msg_get_filled_locked_def mq_unlink_def mq_update_item_def remove1_idem Let_def)
qed

lemma msg_put_read_eq:
  assumes "mq_wf mq" "i \<in> set (read_list mq)"
  shows "msg_put_read_mq mq (word_of_nat i) =
    Inr (mq\<lparr>read_list := remove1 i (read_list mq), free_list := i # free_list mq,
      mq_items := (mq_items mq)[i := (mq_items mq ! i)\<lparr>mi_state := MSG_ITEM_STATE_FREE\<rparr>]\<rparr>)"
proof -
  have i: "i < num_items mq" "i \<notin> set (free_list mq)" "i \<notin> set (filled_list mq)"
    using mq_wf_lists [OF assms(1)] assms(2) by auto
  have "num_items mq \<le> 256" using assms(1) by (simp add: mq_wf_def)
  then have "unat (word_of_nat i :: u32) = i" using i(1) by (simp add: unat_of_nat)
  then show ?thesis
    using i item_state_READ_iff [OF assms(1) i(1)] assms(2)
    by (simp add: msg_put_read_mq_def msg_queue_get_item_def mq_unlink_def mq_update_item_def
        remove1_idem Let_def)
qed

lemma msg_put_read_Inr_iff:
  assumes "mq_wf mq"
  shows "(\<exists>mq'. msg_put_read_mq mq mid = Inr mq') \<longleftrightarrow> unat mid \<in> set (read_list mq)"
  using item_state_READ_iff [OF assms, of "unat mid"] mq_wf_lists(3) [OF assms]
  by (auto simp: msg_put_read_mq_def msg_queue_get_item_def Let_def split: option.splits if_splits)

lemma msg_put_read_error:
  "msg_put_read_mq mq mid = Inl e \<Longrightarrow> e = ERR_INVALID_ARGS"
  by (auto simp: msg_put_read_mq_def Let_def split: option.splits if_splits)

lemma length_mq_store:
  assumes "mq_wf mq" "i < num_items mq" "length bs \<le> item_sz mq"
  shows "length (mq_store mq i bs) = length (mq_buf mq)"
  using assms slot_in_buf [of i "num_items mq" "item_sz mq"] length_get_buf [OF assms(1,2)]
  by (auto simp: mq_store_def mq_wf_def)

lemma mq_store_slot_same:
  assumes "mq_wf mq" "i < num_items mq" "length bs \<le> item_sz mq"
  shows "take (item_sz mq) (drop (i * item_sz mq) (mq_store mq i bs)) = overwrite bs (msg_queue_get_buf mq i)"
  using assms slot_in_buf [of i "num_items mq" "item_sz mq"] length_get_buf [OF assms(1,2)]
  by (auto simp: mq_store_def mq_wf_def)

lemma mq_store_slot_other:
  assumes "mq_wf mq" "i < num_items mq" "length bs \<le> item_sz mq" "j \<noteq> i"
  shows "take (item_sz mq) (drop (j * item_sz mq) (mq_store mq i bs)) =
    take (item_sz mq) (drop (j * item_sz mq) (mq_buf mq))"
proof -
  have l: "length (overwrite bs (msg_queue_get_buf mq i)) = item_sz mq"
    using length_get_buf [OF assms(1,2)] assms(3) by simp
  have "i * item_sz mq + item_sz mq \<le> length (mq_buf mq)"
    using slot_in_buf [OF assms(2)] assms(1) by (simp add: mq_wf_def)
  then show ?thesis
    using take_drop_splice_other [of "j * item_sz mq" "item_sz mq" "i * item_sz mq"
        "overwrite bs (msg_queue_get_buf mq i)" "mq_buf mq"] slots_disjoint [OF assms(4), of "item_sz mq"] l
    by (auto simp: mq_store_def)
qed

subsection \<open>Preservation of the invariant\<close>

lemma mq_wf_create:
  assumes "n \<le> 256" "ipc_msg_queue_create a1 a2 n sz = Inr mq"
  shows "mq_wf mq"
  using assms
  by (auto simp: ipc_msg_queue_create_def mq_wf_def item_ok_def item_state_of_def Let_def split: if_splits)

text \<open>Each operation rewrites one item and moves it between the lists.\<close>

lemma mq_wf_step:
  assumes "mq_wf mq" "i < num_items mq"
    "num_items mq' = num_items mq" "item_sz mq' = item_sz mq"
    "length (mq_buf mq') = length (mq_buf mq)"
    "mq_items mq' = (mq_items mq)[i := it]"
    "distinct (free_list mq' @ filled_list mq' @ read_list mq')"
    "set (free_list mq' @ filled_list mq' @ read_list mq') = {..<num_items mq}"
    "\<And>j. j \<noteq> i \<Longrightarrow> item_state_of mq' j = item_state_of mq j"
    "mi_id it = mi_id (mq_items mq ! i)" "mi_num_handles it = mi_num_handles (mq_items mq ! i)"
    "mi_len it \<le> item_sz mq" "mi_state it = item_state_of mq' i"
  shows "mq_wf mq'"
proof -
  have "item_ok mq' j" if "j < num_items mq" for j
    using assms that mq_wf_item [OF assms(1) that]
    by (cases "j = i") (auto simp: item_ok_def Let_def)
  then show ?thesis using assms(1,3-8) by (simp add: mq_wf_def)
qed

lemma mq_wf_write_error:
  assumes "mq_wf mq" "i < num_items mq" "length bs \<le> item_sz mq"
  shows "mq_wf (mq\<lparr>mq_buf := mq_store mq i bs, mq_items := (mq_items mq)[i := (mq_items mq ! i)\<lparr>mi_len := 0\<rparr>]\<rparr>)"
  using assms length_mq_store [OF assms] mq_wf_item [OF assms(1,2)]
  by (intro mq_wf_step [OF assms(1,2), where it = "(mq_items mq ! i)\<lparr>mi_len := 0\<rparr>"]) (auto simp: mq_wf_def item_state_of_def)

lemma mq_wf_write:
  assumes "mq_wf mq"
  shows "mq_wf (fst (msg_write_mq km um mq msg))"
proof (cases "free_list mq")
  case Nil
  then show ?thesis using assms by (simp add: msg_write_mq_def)
next
  case (Cons i fs)
  let ?g = "msg_gather km um (item_sz mq) msg"
  have i: "i < num_items mq" using mq_wf_lists [OF assms] Cons by auto
  show ?thesis
  proof (cases "snd ?g")
    case (Inl e)
    then show ?thesis
      using mq_wf_write_error [OF assms i msg_gather_bound] by (simp add: msg_write_mq_eq [OF assms Cons] Let_def)
  next
    case (Inr n)
    have n: "n \<le> item_sz mq" using msg_gather_count [OF Inr] msg_gather_bound by simp
    have w: "mq_wf (mq\<lparr>mq_buf := mq_store mq i (fst ?g),
        mq_items := (mq_items mq)[i := (mq_items mq ! i)\<lparr>mi_len := n, mi_state := MSG_ITEM_STATE_FILLED\<rparr>],
        free_list := fs, filled_list := filled_list mq @ [i]\<rparr>)"
      using assms n Cons length_mq_store [OF assms i msg_gather_bound, of km um msg]
      by (intro mq_wf_step [OF assms i, where it =
            "(mq_items mq ! i)\<lparr>mi_len := n, mi_state := MSG_ITEM_STATE_FILLED\<rparr>"]) (auto simp: mq_wf_def item_state_of_def)
    then show ?thesis by (simp add: msg_write_mq_eq [OF assms Cons] Inr Let_def)
  qed
qed

lemma mq_wf_get_filled:
  assumes "mq_wf mq" "msg_get_filled_locked mq = Some mq'"
  shows "mq_wf mq'"
proof -
  obtain i fs where f: "filled_list mq = i # fs"
    using assms(2) by (auto simp: msg_get_filled_locked_def split: list.splits)
  then have i: "i < num_items mq" using mq_wf_lists [OF assms(1)] by auto
  show ?thesis
    using assms f mq_wf_item [OF assms(1) i]
    by (intro mq_wf_step [OF assms(1) i, where it = "(mq_items mq ! i)\<lparr>mi_state := MSG_ITEM_STATE_READ\<rparr>"])
      (auto simp: msg_get_filled_eq [OF assms(1) f] mq_wf_def item_state_of_def)
qed

lemma mq_wf_put_read:
  assumes "mq_wf mq" "msg_put_read_mq mq mid = Inr mq'"
  shows "mq_wf mq'"
proof -
  have i: "unat mid \<in> set (read_list mq)" using assms msg_put_read_Inr_iff by blast
  have "mq' = mq\<lparr>read_list := remove1 (unat mid) (read_list mq), free_list := unat mid # free_list mq,
      mq_items := (mq_items mq)[unat mid := (mq_items mq ! unat mid)\<lparr>mi_state := MSG_ITEM_STATE_FREE\<rparr>]\<rparr>"
    using msg_put_read_eq [OF assms(1) i] assms(2) by simp
  moreover have n: "unat mid < num_items mq" using i mq_wf_lists [OF assms(1)] by auto
  ultimately show ?thesis
    using assms(1) i mq_wf_item [OF assms(1) n]
    by (intro mq_wf_step [OF assms(1) n, where it = "(mq_items mq ! unat mid)\<lparr>mi_state := MSG_ITEM_STATE_FREE\<rparr>"])
      (auto simp: mq_wf_def item_state_of_def)
qed

subsection \<open>Effect on the messages\<close>

lemma payload_eqI:
  assumes "mi_len (mq_items mq' ! i) = mi_len (mq_items mq ! i)" "mi_id (mq_items mq' ! i) = mi_id (mq_items mq ! i)"
    "item_sz mq' = item_sz mq" "mq_buf mq' = mq_buf mq"
  shows "payload mq' i = payload mq i"
  using assms by (simp add: payload_def msg_queue_get_buf_def msg_queue_buf_off_def)

lemma payload_store_other:
  assumes "mq_wf mq" "i < num_items mq" "length bs \<le> item_sz mq" "j < num_items mq" "j \<noteq> i"
    "mq_buf mq' = mq_store mq i bs" "mq_items mq' = (mq_items mq)[i := it]" "item_sz mq' = item_sz mq"
  shows "payload mq' j = payload mq j"
proof -
  have "msg_queue_buf_off mq' j = msg_queue_buf_off mq j" "mi_len (mq_items mq' ! j) = mi_len (mq_items mq ! j)"
    using assms(5,7,8) by (simp_all add: msg_queue_buf_off_def)
  then show ?thesis
    unfolding payload_def msg_queue_get_buf_def mq_wf_off [OF assms(1,4)] assms(6,8)
    using mq_store_slot_other [OF assms(1,2,3,5)] by simp
qed

lemma payload_store_same:
  assumes "mq_wf mq" "i < num_items mq" "length bs \<le> item_sz mq" "mq_buf mq' = mq_store mq i bs"
    "mq_items mq' = (mq_items mq)[i := it]" "item_sz mq' = item_sz mq"
    "mi_len it = length bs" "mi_id it = mi_id (mq_items mq ! i)"
  shows "payload mq' i = bs"
proof -
  have "msg_queue_buf_off mq' i = msg_queue_buf_off mq i" "mi_len (mq_items mq' ! i) = length bs"
    using assms(5-8) mq_wf_item(5) [OF assms(1,2)] by (simp_all add: msg_queue_buf_off_def)
  then have "payload mq' i = take (length bs) (take (item_sz mq) (drop (i * item_sz mq) (mq_store mq i bs)))"
    by (simp only: payload_def msg_queue_get_buf_def mq_wf_off [OF assms(1,2)] assms(4,6))
  then show ?thesis by (simp only: mq_store_slot_same [OF assms(1-3)] take_overwrite)
qed

text \<open>The three outcomes of a write: no room, a bad descriptor, a message at the end of the queue.\<close>

lemma msg_write_full:
  "free_list mq = [] \<Longrightarrow> msg_write_mq km um mq msg = (mq, Inl ERR_NOT_ENOUGH_BUFFER)"
  by (simp add: msg_write_mq_def)

lemma msg_write_bad:
  assumes "mq_wf mq" "free_list mq \<noteq> []" "snd (msg_gather km um (item_sz mq) msg) = Inl e"
    "msg_write_mq km um mq msg = (mq', r)"
  shows "r = Inl e" "pending mq' = pending mq" "readable mq' = readable mq" "free_list mq' = free_list mq"
    "item_sz mq' = item_sz mq"
proof -
  obtain i fs where f: "free_list mq = i # fs" using assms(2) by (cases "free_list mq") auto
  have i: "i < num_items mq" "i \<notin> set (filled_list mq)" "i \<notin> set (read_list mq)"
    using mq_wf_lists [OF assms(1)] f by auto
  let ?bs = "fst (msg_gather km um (item_sz mq) msg)"
  have mq': "mq' = mq\<lparr>mq_buf := mq_store mq i ?bs, mq_items := (mq_items mq)[i := (mq_items mq ! i)\<lparr>mi_len := 0\<rparr>]\<rparr>"
    "r = Inl e"
    using assms(3,4) by (simp_all add: msg_write_mq_eq [OF assms(1) f] Let_def)
  have "payload mq' j = payload mq j" if "j < num_items mq" "j \<noteq> i" for j
    using payload_store_other [OF assms(1) i(1) msg_gather_bound that] mq'(1) by simp
  then show "r = Inl e" "pending mq' = pending mq" "readable mq' = readable mq" "free_list mq' = free_list mq"
    "item_sz mq' = item_sz mq"
    using mq' i mq_wf_lists [OF assms(1)]
    by (auto simp: pending_def readable_def fun_eq_iff intro!: map_cong)
qed

lemma msg_write_ok:
  assumes "mq_wf mq" "free_list mq = i # fs" "snd (msg_gather km um (item_sz mq) msg) = Inr n"
    "msg_write_mq km um mq msg = (mq', r)"
  shows "r = Inr n" "pending mq' = pending mq @ [fst (msg_gather km um (item_sz mq) msg)]"
    "readable mq' = readable mq" "free_list mq' = fs" "item_sz mq' = item_sz mq"
proof -
  have i: "i < num_items mq" "i \<notin> set (filled_list mq)" "i \<notin> set (read_list mq)"
    using mq_wf_lists [OF assms(1)] assms(2) by auto
  let ?bs = "fst (msg_gather km um (item_sz mq) msg)"
  let ?it = "(mq_items mq ! i)\<lparr>mi_len := n, mi_state := MSG_ITEM_STATE_FILLED\<rparr>"
  have mq': "mq' = mq\<lparr>mq_buf := mq_store mq i ?bs, mq_items := (mq_items mq)[i := ?it],
      free_list := fs, filled_list := filled_list mq @ [i]\<rparr>" "r = Inr n"
    using assms(3,4) by (simp_all add: msg_write_mq_eq [OF assms(1,2)] Let_def)
  have "payload mq' j = payload mq j" if "j < num_items mq" "j \<noteq> i" for j
    using payload_store_other [OF assms(1) i(1) msg_gather_bound that] mq'(1) by simp
  moreover have "payload mq' i = ?bs"
    using payload_store_same [OF assms(1) i(1) msg_gather_bound, of mq' km um msg ?it]
      msg_gather_count [OF assms(3)] mq'(1) by simp
  ultimately show "r = Inr n" "pending mq' = pending mq @ [?bs]" "readable mq' = readable mq"
    "free_list mq' = fs" "item_sz mq' = item_sz mq"
    using mq' i mq_wf_lists [OF assms(1)]
    by (auto simp: pending_def readable_def fun_eq_iff intro!: map_cong)
qed

lemma msg_get_filled_effect:
  assumes "mq_wf mq" "filled_list mq = i # fs" "msg_get_filled_locked mq = Some mq'"
  shows "pending mq = payload mq i # pending mq'" "readable mq' = (readable mq)(i \<mapsto> payload mq i)"
    "readable mq i = None" "free_list mq' = free_list mq" "item_sz mq' = item_sz mq"
proof -
  have i: "i < num_items mq" "i \<notin> set (read_list mq)"
    using mq_wf_lists [OF assms(1)] assms(2) by auto
  have mq': "mq' = mq\<lparr>filled_list := fs, read_list := read_list mq @ [i],
      mq_items := (mq_items mq)[i := (mq_items mq ! i)\<lparr>mi_state := MSG_ITEM_STATE_READ\<rparr>]\<rparr>"
    using assms(3) by (simp add: msg_get_filled_eq [OF assms(1,2)])
  have "payload mq' j = payload mq j" for j
    by (rule payload_eqI) (use mq' mq_wf_item(5) [OF assms(1) i(1)] in \<open>auto simp: nth_list_update\<close>)
  then show "pending mq = payload mq i # pending mq'" "readable mq' = (readable mq)(i \<mapsto> payload mq i)"
    "readable mq i = None" "free_list mq' = free_list mq" "item_sz mq' = item_sz mq"
    using mq' i assms(2) by (auto simp: pending_def readable_def fun_eq_iff)
qed

lemma msg_put_read_effect:
  assumes "mq_wf mq" "msg_put_read_mq mq mid = Inr mq'"
  shows "pending mq' = pending mq" "readable mq' = (readable mq)(unat mid := None)"
    "free_list mq' = unat mid # free_list mq" "item_sz mq' = item_sz mq"
proof -
  have r: "unat mid \<in> set (read_list mq)" using assms msg_put_read_Inr_iff by blast
  then have i: "unat mid < num_items mq" "unat mid \<notin> set (filled_list mq)"
    using mq_wf_lists [OF assms(1)] by auto
  have mq': "mq' = mq\<lparr>read_list := remove1 (unat mid) (read_list mq), free_list := unat mid # free_list mq,
      mq_items := (mq_items mq)[unat mid := (mq_items mq ! unat mid)\<lparr>mi_state := MSG_ITEM_STATE_FREE\<rparr>]\<rparr>"
    using msg_put_read_eq [OF assms(1) r] assms(2) by simp
  have "payload mq' j = payload mq j" for j
    by (rule payload_eqI) (use mq' mq_wf_item(5) [OF assms(1) i(1)] in \<open>auto simp: nth_list_update\<close>)
  then show "pending mq' = pending mq" "readable mq' = (readable mq)(unat mid := None)"
    "free_list mq' = unat mid # free_list mq" "item_sz mq' = item_sz mq"
    using mq' i mq_wf_lists(9) [OF assms(1)] by (auto simp: pending_def readable_def fun_eq_iff)
qed

section \<open>The contract of a message queue\<close>

text \<open>
  A run of queue operations: sources of messages are put, messages are taken for reading,
  read messages are retired. The run returns the queue, the messages that were accepted
  and those that were taken, in order.
\<close>

datatype 's fifo_op = FPut 's | FTake | FRetire u32

fun fifo_run :: "('q \<Rightarrow> 's \<Rightarrow> 'q \<times> bool) \<Rightarrow> ('q \<Rightarrow> nat option) \<Rightarrow> ('q \<Rightarrow> 'q option) \<Rightarrow>
    ('q \<Rightarrow> u32 \<Rightarrow> 'q option) \<Rightarrow> ('q \<Rightarrow> nat \<Rightarrow> 'm option) \<Rightarrow> ('q \<Rightarrow> 's \<Rightarrow> 'm option) \<Rightarrow>
    'q \<Rightarrow> 's fifo_op list \<Rightarrow> 'q \<times> 'm list \<times> 'm list" where
  "fifo_run put nxt tak ret rd ct q [] = (q, [], [])"
| "fifo_run put nxt tak ret rd ct q (FPut s # ops) =
     (let (q', ok) = put q s; (q'', acc, tk) = fifo_run put nxt tak ret rd ct q' ops
      in (q'', if ok then the (ct q s) # acc else acc, tk))"
| "fifo_run put nxt tak ret rd ct q (FTake # ops) =
     (case (nxt q, tak q) of
        (Some i, Some q') \<Rightarrow>
          (let (q'', acc, tk) = fifo_run put nxt tak ret rd ct q' ops in (q'', acc, the (rd q' i) # tk))
      | _ \<Rightarrow> fifo_run put nxt tak ret rd ct q ops)"
| "fifo_run put nxt tak ret rd ct q (FRetire mid # ops) =
     (case ret q mid of
        None \<Rightarrow> fifo_run put nxt tak ret rd ct q ops
      | Some q' \<Rightarrow> fifo_run put nxt tak ret rd ct q' ops)"

locale msg_fifo =
  fixes wf :: "'q \<Rightarrow> bool"
    and pend :: "'q \<Rightarrow> 'm list"
    and rd :: "'q \<Rightarrow> nat \<Rightarrow> 'm option"
    and room :: "'q \<Rightarrow> nat"
    and ct :: "'q \<Rightarrow> 's \<Rightarrow> 'm option"
    and put :: "'q \<Rightarrow> 's \<Rightarrow> 'q \<times> bool"
    and nxt :: "'q \<Rightarrow> nat option"
    and tak :: "'q \<Rightarrow> 'q option"
    and ret :: "'q \<Rightarrow> u32 \<Rightarrow> 'q option"
  assumes put_wf: "wf q \<Longrightarrow> wf (fst (put q s))"
    and put_ok_iff: "wf q \<Longrightarrow> snd (put q s) \<longleftrightarrow> room q > 0 \<and> ct q s \<noteq> None"
    and put_ok: "wf q \<Longrightarrow> put q s = (q', True) \<Longrightarrow>
          pend q' = pend q @ [the (ct q s)] \<and> rd q' = rd q \<and> room q = Suc (room q')"
    and put_fail: "wf q \<Longrightarrow> put q s = (q', False) \<Longrightarrow> pend q' = pend q \<and> rd q' = rd q \<and> room q' = room q"
    and take_none: "wf q \<Longrightarrow> tak q = None \<longleftrightarrow> pend q = []"
    and next_none: "wf q \<Longrightarrow> nxt q = None \<longleftrightarrow> pend q = []"
    and take_some: "wf q \<Longrightarrow> tak q = Some q' \<Longrightarrow> nxt q = Some i \<Longrightarrow>
          wf q' \<and> pend q = hd (pend q) # pend q' \<and> rd q' = (rd q)(i \<mapsto> hd (pend q)) \<and>
          rd q i = None \<and> room q' = room q"
    and ret_iff: "wf q \<Longrightarrow> ret q mid \<noteq> None \<longleftrightarrow> rd q (unat mid) \<noteq> None"
    and ret_some: "wf q \<Longrightarrow> ret q mid = Some q' \<Longrightarrow>
          wf q' \<and> pend q' = pend q \<and> rd q' = (rd q)(unat mid := None) \<and> room q' = Suc (room q)"
begin

lemma run_wf_fifo:
  assumes "wf q" "fifo_run put nxt tak ret rd ct q ops = (q', acc, tk)"
  shows "wf q' \<and> tk @ pend q' = pend q @ acc"
  using assms
proof (induction ops arbitrary: q q' acc tk)
  case Nil
  then show ?case by auto
next
  case (Cons op ops)
  show ?case
  proof (cases op)
    case (FPut s)
    obtain q1 ok where p: "put q s = (q1, ok)" by fastforce
    obtain q2 acc2 tk2 where r: "fifo_run put nxt tak ret rd ct q1 ops = (q2, acc2, tk2)"
      by (metis prod_cases3)
    have "wf q1" using put_wf [OF Cons.prems(1), of s] p by simp
    then show ?thesis
      using Cons.IH [OF _ r] Cons.prems p r FPut put_ok [OF Cons.prems(1)] put_fail [OF Cons.prems(1)]
      by (cases ok) auto
  next
    case FTake
    show ?thesis
    proof (cases "pend q = []")
      case True
      then show ?thesis
        using Cons FTake take_none [OF Cons.prems(1)] by (auto split: option.splits)
    next
      case False
      then obtain i q1 where t: "nxt q = Some i" "tak q = Some q1"
        using take_none [OF Cons.prems(1)] next_none [OF Cons.prems(1)] by blast
      obtain q2 acc2 tk2 where r: "fifo_run put nxt tak ret rd ct q1 ops = (q2, acc2, tk2)"
        by (metis prod_cases3)
      have q1: "wf q1" "pend q = hd (pend q) # pend q1" "rd q1 = (rd q)(i \<mapsto> hd (pend q))"
        using take_some [OF Cons.prems(1) t(2,1)] by auto
      have "q' = q2" "acc = acc2" "tk = hd (pend q) # tk2"
        using Cons.prems(2) FTake t r q1(3) by auto
      then show ?thesis using Cons.IH [OF q1(1) r] q1(2) by (metis append_Cons)
    qed
  next
    case (FRetire mid)
    then show ?thesis
      using Cons ret_some [OF Cons.prems(1)] by (cases "ret q mid") fastforce+
  qed
qed

text \<open>The number of slots is constant: what is not pending or being read is room.\<close>

lemma take_conserves:
  "wf q \<Longrightarrow> tak q = Some q' \<Longrightarrow> nxt q = Some i \<Longrightarrow> finite (dom (rd q)) \<Longrightarrow>
     room q' + length (pend q') + card (dom (rd q')) = room q + length (pend q) + card (dom (rd q))"
  using take_some [of q q' i]
  by (cases "pend q") (auto simp: card_insert_if domIff)

lemma retire_conserves:
  "wf q \<Longrightarrow> ret q mid = Some q' \<Longrightarrow> finite (dom (rd q)) \<Longrightarrow>
     room q' + length (pend q') + card (dom (rd q')) = room q + length (pend q) + card (dom (rd q))"
  using ret_some [of q mid q'] ret_iff [of q mid] card_Suc_Diff1 [of "dom (rd q)" "unat mid"]
  by (auto simp: domIff)

lemma put_conserves:
  "wf q \<Longrightarrow> put q s = (q', ok) \<Longrightarrow>
     room q' + length (pend q') + card (dom (rd q')) = room q + length (pend q) + card (dom (rd q))"
  using put_ok [of q s q'] put_fail [of q s q'] by (cases ok) auto

end

section \<open>The queue of the code meets the contract\<close>

type_synonym msg_source = "kmem \<times> umem \<times> msg_desc"

definition mq_content :: "ipc_msg_queue \<Rightarrow> msg_source \<Rightarrow> u8 list option" where
  "mq_content mq src = (case src of (km, um, msg) \<Rightarrow>
     (case msg_gather km um (item_sz mq) msg of (bs, Inr _) \<Rightarrow> Some bs | (_, Inl _) \<Rightarrow> None))"

definition mq_put :: "ipc_msg_queue \<Rightarrow> msg_source \<Rightarrow> ipc_msg_queue \<times> bool" where
  "mq_put mq src = (case src of (km, um, msg) \<Rightarrow>
     (case msg_write_mq km um mq msg of (mq', Inr _) \<Rightarrow> (mq', True) | (mq', Inl _) \<Rightarrow> (mq', False)))"

definition mq_next :: "ipc_msg_queue \<Rightarrow> nat option" where
  "mq_next mq = (case msg_peek_next_filled_locked mq of Inr info \<Rightarrow> Some (unat (info_id info)) | Inl _ \<Rightarrow> None)"

definition mq_retire :: "ipc_msg_queue \<Rightarrow> u32 \<Rightarrow> ipc_msg_queue option" where
  "mq_retire mq mid = (case msg_put_read_mq mq mid of Inr mq' \<Rightarrow> Some mq' | Inl _ \<Rightarrow> None)"

lemma mq_next_eq:
  assumes "mq_wf mq" "filled_list mq = i # fs"
  shows "mq_next mq = Some i"
proof -
  have i: "i < num_items mq" using mq_wf_lists [OF assms(1)] assms(2) by auto
  have "num_items mq \<le> 256" using assms(1) by (simp add: mq_wf_def)
  then show ?thesis
    using assms(2) i mq_wf_item(1) [OF assms(1) i]
    by (simp add: mq_next_def msg_peek_next_filled_locked_def unat_of_nat)
qed

lemma mq_put_cases:
  assumes "mq_wf mq"
  shows "case mq_put mq src of
      (mq', True) \<Rightarrow> free_list mq \<noteq> [] \<and> mq_content mq src \<noteq> None \<and>
        pending mq' = pending mq @ [the (mq_content mq src)] \<and> readable mq' = readable mq \<and>
        length (free_list mq) = Suc (length (free_list mq'))
    | (mq', False) \<Rightarrow> (free_list mq = [] \<or> mq_content mq src = None) \<and>
        pending mq' = pending mq \<and> readable mq' = readable mq \<and> length (free_list mq') = length (free_list mq)"
proof -
  obtain km um msg where src: "src = (km, um, msg)" by (metis prod_cases3)
  obtain mq' r where w: "msg_write_mq km um mq msg = (mq', r)" by fastforce
  show ?thesis
  proof (cases "free_list mq")
    case Nil
    then have "mq_put mq src = (mq, False)" by (simp add: src mq_put_def msg_write_full)
    then show ?thesis using Nil by simp
  next
    case (Cons i fs)
    show ?thesis
    proof (cases "snd (msg_gather km um (item_sz mq) msg)")
      case (Inl e)
      then show ?thesis
        using msg_write_bad [OF assms _ Inl w] Cons w
        by (cases "msg_gather km um (item_sz mq) msg") (auto simp: src mq_put_def mq_content_def)
    next
      case (Inr n)
      then show ?thesis
        using msg_write_ok [OF assms Cons Inr w] Cons w
        by (cases "msg_gather km um (item_sz mq) msg") (auto simp: src mq_put_def mq_content_def)
    qed
  qed
qed

interpretation mq: msg_fifo
  mq_wf pending readable "\<lambda>mq. length (free_list mq)" mq_content mq_put mq_next msg_get_filled_locked mq_retire
proof (unfold_locales, goal_cases)
  case (1 q s)
  then show ?case
    using mq_wf_write [of q "fst s" "fst (snd s)" "snd (snd s)"]
    by (cases "msg_write_mq (fst s) (fst (snd s)) q (snd (snd s))")
      (auto simp: mq_put_def split_beta split: sum.splits)
next
  case (2 q s)
  then show ?case using mq_put_cases [of q s] by (cases "mq_put q s") (auto split: bool.splits)
next
  case (3 q s q')
  then show ?case using mq_put_cases [of q s] by auto
next
  case (4 q s q')
  then show ?case using mq_put_cases [of q s] by auto
next
  case (5 q)
  then show ?case by (auto simp: msg_get_filled_locked_def pending_def Let_def split: list.splits)
next
  case (6 q)
  then show ?case by (auto simp: mq_next_def msg_peek_next_filled_locked_def pending_def split: list.splits)
next
  case (7 q q' i)
  then obtain j fs where f: "filled_list q = j # fs"
    by (auto simp: msg_get_filled_locked_def split: list.splits)
  then have "j = i" using mq_next_eq [OF 7(1)] 7(3) by auto
  then show ?case
    using msg_get_filled_effect [OF 7(1) f 7(2)] mq_wf_get_filled [OF 7(1,2)] by simp
next
  case (8 q mid)
  then show ?case
    using msg_put_read_Inr_iff [OF 8, of mid] by (auto simp: mq_retire_def readable_def split: sum.splits)
next
  case (9 q mid q')
  then have "msg_put_read_mq q mid = Inr q'" by (auto simp: mq_retire_def split: sum.splits)
  then show ?case using msg_put_read_effect [OF 9(1)] mq_wf_put_read [OF 9(1)] by simp
qed

section \<open>Properties of the queue\<close>

text \<open>C12: whatever sequence of writes, takes and retirements is applied to a well-formed
  queue, it stays well formed, and the messages taken followed by those still pending are the
  messages that were pending at the start followed by those accepted since: nothing is lost,
  duplicated, reordered or changed while it waits.\<close>

theorem mq_run_fifo:
  assumes "mq_wf mq"
    "fifo_run mq_put mq_next msg_get_filled_locked mq_retire readable mq_content mq ops = (mq', acc, tk)"
  shows "mq_wf mq' \<and> tk @ pending mq' = pending mq @ acc"
  by (rule mq.run_wf_fifo [OF assms])

definition demo_mq :: ipc_msg_queue where
  "demo_mq = (case ipc_msg_queue_create True True 2 4 of Inr mq \<Rightarrow> mq)"

definition demo_src :: "nat \<Rightarrow> msg_source" where
  "demo_src n = (\<lambda>a. ucast a, \<lparr>um_bytes = Map.empty, um_writable = (\<lambda>_. False)\<rparr>,
     IPC_MSG_BUFFER_KERNEL \<lparr>k_num_iov = 1, k_iov = Some [\<lparr>iov_base = word_of_nat n, iov_len = 2\<rparr>], k_num_handles = 0\<rparr>)"

theorem mq_run_fifo_witness:
  "mq_wf demo_mq \<and>
   (case fifo_run mq_put mq_next msg_get_filled_locked mq_retire readable mq_content demo_mq
      [FPut (demo_src 16), FPut (demo_src 32), FPut (demo_src 48), FTake, FRetire 0, FPut (demo_src 64)] of
      (mq', acc, tk) \<Rightarrow> mq_wf mq' \<and> tk @ pending mq' = acc \<and> tk = [[16, 17]] \<and> acc = [[16, 17], [32, 33], [64, 65]])"
proof -
  let ?ops = "[FPut (demo_src 16), FPut (demo_src 32), FPut (demo_src 48), FTake, FRetire 0, FPut (demo_src 64)]"
  let ?run = "fifo_run mq_put mq_next msg_get_filled_locked mq_retire readable mq_content demo_mq ?ops"
  have wf: "mq_wf demo_mq" and e: "pending demo_mq = []"
    and v: "snd ?run = ([[16, 17], [32, 33], [64, 65]], [[16, 17]])" by code_simp+
  have "?run = (fst ?run, fst (snd ?run), snd (snd ?run))" by simp
  from mq_run_fifo [OF wf this] show ?thesis using wf e v by (simp add: split_beta)
qed

lemma membuf_to_kern_iovec_take:
  "membuf_to_kern_iovec iov n (Some (take l b)) l m = membuf_to_kern_iovec iov n (Some b) l m"
  by (simp add: membuf_to_kern_iovec_def split: option.split)

lemma membuf_to_user_iovec_take:
  "membuf_to_user_iovec a n (Some (take l b)) l m = membuf_to_user_iovec a n (Some b) l m"
  by (simp add: membuf_to_user_iovec_def)

lemma msg_read_kern_eq:
  assumes "mq_wf mq"
  shows "msg_read_locked km um mq mid offset (IPC_MSG_BUFFER_KERNEL k) =
    (case readable mq (unat mid) of
       None \<Rightarrow> (km, um, Inl ERR_INVALID_ARGS)
     | Some bs \<Rightarrow>
         if unat offset > length bs then (km, um, Inl ERR_INVALID_ARGS)
         else if k_num_handles k \<noteq> 0 then (km, um, Inl ERR_NOT_SUPPORTED)
         else (let (km', r) = membuf_to_kern_iovec (k_iov k) (k_num_iov k) (Some (drop (unat offset) bs))
                                (length bs - unat offset) km
               in (km', um, r)))"
proof (cases "unat mid < num_items mq")
  case False
  then show ?thesis
    using mq_wf_lists(3) [OF assms] by (auto simp: msg_read_locked_def msg_queue_get_item_def readable_def)
next
  case True
  let ?i = "unat mid"
  note it = mq_wf_item [OF assms True] and st = item_state_READ_iff [OF assms True]
  have "take (mi_len (mq_items mq ! ?i) - unat offset) (drop (unat offset) (msg_queue_get_buf mq ?i)) =
      drop (unat offset) (payload mq ?i)"
    by (simp add: payload_def drop_take)
  then have "membuf_to_kern_iovec iov n (Some (drop (unat offset) (msg_queue_get_buf mq ?i)))
        (mi_len (mq_items mq ! ?i) - unat offset) km =
      membuf_to_kern_iovec iov n (Some (drop (unat offset) (payload mq ?i)))
        (mi_len (mq_items mq ! ?i) - unat offset) km" for iov n
    by (metis membuf_to_kern_iovec_take)
  then show ?thesis
    using True it st length_payload [OF assms True]
    by (auto simp: msg_read_locked_def msg_queue_get_item_def readable_def Let_def)
qed


definition demo_read_mq :: ipc_msg_queue where
  "demo_read_mq = (case msg_get_filled_locked (fst (mq_put demo_mq (demo_src 16))) of Some mq \<Rightarrow> mq)"


end
