(* ===== verification/Ipc_State.thy ===== *)
theory Ipc_State
  imports Ipc_Msg
begin

text \<open>
  The objects of Trusty IPC: handles (\<^verbatim>\<open>handle.c\<close>, \<^verbatim>\<open>refcount.h\<close>), ports and channels with
  their reference lists (\<^verbatim>\<open>ipc.h\<close>, \<^verbatim>\<open>reflist.h\<close>, the reference counting part of \<^verbatim>\<open>ipc.c\<close>).
  The kernel state is a store of ports and channels by address together with the two global
  lists of \<^verbatim>\<open>ipc.c\<close>. A failed assertion, a null dereference and an access to a freed object
  set the flag \<open>faulted\<close>, which nothing clears: an operation is safe where the flag
  stays down.
\<close>

section \<open>Data\<close>

type_synonym addr = nat

datatype handle_ops = OPS_NONE | OPS_PORT | OPS_CHAN

text \<open>
  A cookie is an opaque pointer-sized value, 0 the null pointer. A waiting thread is known
  by the event object on its stack. The list node of a handle is in the set \<open>hlinked\<close> of the
  kernel state while it is on a list.
\<close>

record handle =
  refcnt :: int
  h_ops :: handle_ops
  wait_event :: "nat option"
  h_cookie :: nat

text \<open>
  The identity of a connecting party is a pointer: to the constant \<^verbatim>\<open>zero_uuid\<close>, which
  stands for the non-secure world, or to the identifier in an application's properties.
\<close>

datatype uuid_ptr = ZERO_UUID | APP_UUID "u8 list"

datatype port_state = IPC_PORT_STATE_INVALID | IPC_PORT_STATE_LISTENING | IPC_PORT_STATE_CLOSING

abbreviation IPC_PORT_ALLOW_TA_CONNECT :: u32 where "IPC_PORT_ALLOW_TA_CONNECT \<equiv> 1"
abbreviation IPC_PORT_ALLOW_NS_CONNECT :: u32 where "IPC_PORT_ALLOW_NS_CONNECT \<equiv> 2"

text \<open>\<open>p_node\<close>: the port is linked on \<^verbatim>\<open>ipc_port_list\<close>.\<close>

record ipc_port =
  p_path :: "u8 list"
  p_uuid :: uuid_ptr
  p_state :: port_state
  p_flags :: u32
  p_num_recv_bufs :: nat
  p_recv_buf_size :: nat
  p_handle :: handle
  p_pending_list :: "addr list"
  p_node :: bool

datatype chan_state =
    IPC_CHAN_STATE_INVALID
  | IPC_CHAN_STATE_ACCEPTING
  | IPC_CHAN_STATE_CONNECTING
  | IPC_CHAN_STATE_CONNECTED
  | IPC_CHAN_STATE_DISCONNECTING
  | IPC_CHAN_STATE_WAITING_FOR_PORT

abbreviation IPC_CHAN_FLAG_SERVER :: u32 where "IPC_CHAN_FLAG_SERVER \<equiv> 1"

abbreviation IPC_CHAN_AUX_STATE_SEND_BLOCKED :: u32 where "IPC_CHAN_AUX_STATE_SEND_BLOCKED \<equiv> 1"
abbreviation IPC_CHAN_AUX_STATE_SEND_UNBLOCKED :: u32 where "IPC_CHAN_AUX_STATE_SEND_UNBLOCKED \<equiv> 2"
abbreviation IPC_CHAN_AUX_STATE_CONNECTED :: u32 where "IPC_CHAN_AUX_STATE_CONNECTED \<equiv> 4"

text \<open>
  The references on a channel object: a local variable of a running operation, the
  channel's own node and handle references, and the peer reference of another channel.
\<close>

datatype obj_ref = RefTmp | RefNode | RefHandle | RefPeer addr

text \<open>The list a channel's node is linked on.\<close>

datatype chan_node = NodeClear | NodeWaiting | NodePending addr

record ipc_chan =
  c_refobj :: "obj_ref list"
  c_peer :: "addr option"
  c_uuid :: uuid_ptr
  c_state :: chan_state
  c_flags :: u32
  c_aux_state :: u32
  c_handle :: handle
  c_node :: chan_node
  c_msg_queue :: "ipc_msg_queue option"
  c_path :: "u8 list option"

text \<open>
  \<open>allocs\<close> lists the outcomes of the coming allocations (they succeed when the list
  is used up); \<open>next_addr\<close> is the address of the next object; \<open>signaled\<close> the events
  that have been signaled; \<open>hlinked\<close> the handles whose \<^verbatim>\<open>hlist_node\<close> is on a handle list.
\<close>

record kst =
  chans :: "addr \<rightharpoonup> ipc_chan"
  ports :: "addr \<rightharpoonup> ipc_port"
  ipc_port_list :: "addr list"
  waiting_for_port_chan_list :: "addr list"
  next_addr :: addr
  allocs :: "bool list"
  signaled :: "nat set"
  hlinked :: "addr set"
  faulted :: bool

definition init_kst :: kst where
  "init_kst = \<lparr>chans = Map.empty, ports = Map.empty, ipc_port_list = [], waiting_for_port_chan_list = [],
     next_addr = 1, allocs = [], signaled = {}, hlinked = {}, faulted = False\<rparr>"

section \<open>Access to the store\<close>

definition fault :: "kst \<Rightarrow> kst" where
  "fault w = w\<lparr>faulted := True\<rparr>"

definition kassert :: "bool \<Rightarrow> kst \<Rightarrow> kst" where
  "kassert b w = (if b then w else fault w)"

definition kalloc :: "kst \<Rightarrow> bool \<times> kst" where
  "kalloc w = (case allocs w of [] \<Rightarrow> (True, w) | b # bs \<Rightarrow> (b, w\<lparr>allocs := bs\<rparr>))"

definition upd_chan :: "addr \<Rightarrow> (ipc_chan \<Rightarrow> ipc_chan) \<Rightarrow> kst \<Rightarrow> kst" where
  "upd_chan c f w = (case chans w c of None \<Rightarrow> fault w | Some x \<Rightarrow> w\<lparr>chans := (chans w)(c \<mapsto> f x)\<rparr>)"

definition upd_port :: "addr \<Rightarrow> (ipc_port \<Rightarrow> ipc_port) \<Rightarrow> kst \<Rightarrow> kst" where
  "upd_port p f w = (case ports w p of None \<Rightarrow> fault w | Some x \<Rightarrow> w\<lparr>ports := (ports w)(p \<mapsto> f x)\<rparr>)"

text \<open>The zeroed handle of a freshly allocated object.\<close>

definition zero_handle :: handle where
  "zero_handle = \<lparr>refcnt = 0, h_ops = OPS_NONE, wait_event = None, h_cookie = 0\<rparr>"

text \<open>A handle is embedded in its port or channel and has that object's address.\<close>

definition handle_at :: "kst \<Rightarrow> addr \<Rightarrow> handle option" where
  "handle_at w h = (case chans w h of
     Some c \<Rightarrow> Some (c_handle c) | None \<Rightarrow> map_option p_handle (ports w h))"

definition upd_handle :: "addr \<Rightarrow> (handle \<Rightarrow> handle) \<Rightarrow> kst \<Rightarrow> kst" where
  "upd_handle h f w = (case chans w h of
     Some _ \<Rightarrow> upd_chan h (\<lambda>c. c\<lparr>c_handle := f (c_handle c)\<rparr>) w
   | None \<Rightarrow> upd_port h (\<lambda>p. p\<lparr>p_handle := f (p_handle p)\<rparr>) w)"

definition ipc_is_channel :: "kst \<Rightarrow> addr \<Rightarrow> bool" where
  "ipc_is_channel w h = (case handle_at w h of Some x \<Rightarrow> h_ops x = OPS_CHAN | None \<Rightarrow> False)"

definition ipc_is_port :: "kst \<Rightarrow> addr \<Rightarrow> bool" where
  "ipc_is_port w h = (case handle_at w h of Some x \<Rightarrow> h_ops x = OPS_PORT | None \<Rightarrow> False)"

section \<open>Handles\<close>

definition handle_init :: "addr \<Rightarrow> handle_ops \<Rightarrow> kst \<Rightarrow> kst" where
  "handle_init h ops w = (upd_handle h (\<lambda>_. \<lparr>refcnt = 1, h_ops = ops, wait_event = None, h_cookie = 0\<rparr>) w)
     \<lparr>hlinked := hlinked w - {h}\<rparr>"

definition handle_incref :: "addr \<Rightarrow> kst \<Rightarrow> kst" where
  "handle_incref h w = upd_handle h (\<lambda>x. x\<lparr>refcnt := refcnt x + 1\<rparr>) w"

definition handle_set_cookie :: "addr \<Rightarrow> nat \<Rightarrow> kst \<Rightarrow> kst" where
  "handle_set_cookie h ck w = upd_handle h (\<lambda>x. x\<lparr>h_cookie := ck\<rparr>) w"

definition handle_get_cookie :: "kst \<Rightarrow> addr \<Rightarrow> nat" where
  "handle_get_cookie w h = (case handle_at w h of Some x \<Rightarrow> h_cookie x | None \<Rightarrow> 0)"

definition handle_notify :: "addr \<Rightarrow> kst \<Rightarrow> kst" where
  "handle_notify h w = (case handle_at w h of
     None \<Rightarrow> fault w
   | Some x \<Rightarrow> (case wait_event x of None \<Rightarrow> w | Some e \<Rightarrow> w\<lparr>signaled := insert e (signaled w)\<rparr>))"

section \<open>Channel references\<close>

text \<open>
  \<^verbatim>\<open>list_delete (&chan->node)\<close>: unlink the channel from the list its node is on; a node
  that is on no list holds null pointers.
\<close>

definition chan_node_delete :: "addr \<Rightarrow> kst \<Rightarrow> kst" where
  "chan_node_delete c w = (case chans w c of
     None \<Rightarrow> fault w
   | Some x \<Rightarrow>
       (let w1 = upd_chan c (\<lambda>x. x\<lparr>c_node := NodeClear\<rparr>) w in
        case c_node x of
          NodeClear \<Rightarrow> fault w
        | NodeWaiting \<Rightarrow> w1\<lparr>waiting_for_port_chan_list := remove1 c (waiting_for_port_chan_list w1)\<rparr>
        | NodePending p \<Rightarrow> upd_port p (\<lambda>x. x\<lparr>p_pending_list := remove1 c (p_pending_list x)\<rparr>) w1))"

definition chan_destroy_refobj :: "addr \<Rightarrow> kst \<Rightarrow> kst" where
  "chan_destroy_refobj c w = (case chans w c of
     None \<Rightarrow> fault w
   | Some x \<Rightarrow>
       (let w1 = kassert (c_peer x = None) w;
            w2 = kassert (c_node x = NodeClear) w1
        in w2\<lparr>chans := (chans w2)(c := None)\<rparr>))"

definition chan_add_ref :: "addr \<Rightarrow> obj_ref \<Rightarrow> kst \<Rightarrow> kst" where
  "chan_add_ref c r w = (case chans w c of
     None \<Rightarrow> fault w
   | Some x \<Rightarrow> upd_chan c (\<lambda>x. x\<lparr>c_refobj := c_refobj x @ [r]\<rparr>) (kassert (r \<notin> set (c_refobj x)) w))"

definition chan_del_ref :: "addr \<Rightarrow> obj_ref \<Rightarrow> kst \<Rightarrow> kst" where
  "chan_del_ref c r w = (case chans w c of
     None \<Rightarrow> fault w
   | Some x \<Rightarrow>
       (let w1 = upd_chan c (\<lambda>x. x\<lparr>c_refobj := remove1 r (c_refobj x)\<rparr>) (kassert (r \<in> set (c_refobj x)) w)
        in if remove1 r (c_refobj x) = [] then chan_destroy_refobj c w1 else w1))"

definition chan_handle_init :: "addr \<Rightarrow> kst \<Rightarrow> kst" where
  "chan_handle_init c w = chan_add_ref c RefHandle (handle_init c OPS_CHAN w)"

definition chan_alloc :: "u32 \<Rightarrow> uuid_ptr \<Rightarrow> kst \<Rightarrow> addr option \<times> kst" where
  "chan_alloc flags uuid w =
     (let (ok, w1) = kalloc w in
      if \<not> ok then (None, w1)
      else (Some (next_addr w1),
            w1\<lparr>next_addr := Suc (next_addr w1),
               chans := (chans w1)(next_addr w1 \<mapsto>
                 \<lparr>c_refobj = [RefTmp], c_peer = None, c_uuid = uuid, c_state = IPC_CHAN_STATE_INVALID,
                  c_flags = flags, c_aux_state = 0, c_handle = zero_handle, c_node = NodeClear,
                  c_msg_queue = None, c_path = None\<rparr>)\<rparr>))"

section \<open>Dropping handle references\<close>

definition port_handle_destroy :: "addr \<Rightarrow> kst \<Rightarrow> kst" where
  "port_handle_destroy p w = (case ports w p of
     None \<Rightarrow> fault w
   | Some x \<Rightarrow>
       (let w1 = kassert (p_pending_list x = []) w;
            w2 = kassert (\<not> p_node x) w1
        in w2\<lparr>ports := (ports w2)(p := None)\<rparr>))"

definition chan_handle_destroy :: "addr \<Rightarrow> kst \<Rightarrow> kst" where
  "chan_handle_destroy c w = chan_del_ref c RefHandle w"

text \<open>The call through \<^verbatim>\<open>handle->ops->destroy\<close>.\<close>

definition handle_destroy :: "addr \<Rightarrow> kst \<Rightarrow> kst" where
  "handle_destroy h w = (case handle_at w h of
     None \<Rightarrow> fault w
   | Some x \<Rightarrow> (case h_ops x of
       OPS_NONE \<Rightarrow> fault w
     | OPS_PORT \<Rightarrow> port_handle_destroy h w
     | OPS_CHAN \<Rightarrow> chan_handle_destroy h w))"

definition handle_decref :: "addr \<Rightarrow> kst \<Rightarrow> kst" where
  "handle_decref h w = (case handle_at w h of
     None \<Rightarrow> fault w
   | Some x \<Rightarrow>
       (let w1 = upd_handle h (\<lambda>x. x\<lparr>refcnt := refcnt x - 1\<rparr>) w
        in if refcnt x = 1 then handle_destroy h w1 else w1))"

end
