(* ===== verification/Ipc.thy ===== *)
theory Ipc
  imports Ipc_State
begin

text \<open>
  Ports and channels (\<^verbatim>\<open>lk/trusty/lib/trusty/ipc.c\<close>) and the channel level of message passing
  (\<^verbatim>\<open>ipc_msg.c\<close>). Every operation runs under \<^verbatim>\<open>ipc_lock\<close> and is one transition of the
  kernel state. The invariant \<open>ipc_inv\<close> and what it gives are in the theory that
  follows.
\<close>

section \<open>Channel shutdown\<close>

definition chan_shutdown_one :: "addr \<Rightarrow> kst \<Rightarrow> kst" where
  "chan_shutdown_one c w = (case chans w c of
     None \<Rightarrow> fault w
   | Some x \<Rightarrow> (case c_state x of
       IPC_CHAN_STATE_CONNECTED \<Rightarrow>
         handle_notify c (upd_chan c (\<lambda>x. x\<lparr>c_state := IPC_CHAN_STATE_DISCONNECTING\<rparr>) w)
     | IPC_CHAN_STATE_CONNECTING \<Rightarrow>
         handle_notify c (upd_chan c (\<lambda>x. x\<lparr>c_state := IPC_CHAN_STATE_DISCONNECTING\<rparr>) w)
     | IPC_CHAN_STATE_WAITING_FOR_PORT \<Rightarrow>
         (let w1 = kassert (c_node x \<noteq> NodeClear) w;
              w2 = chan_node_delete c w1;
              w3 = chan_del_ref c RefNode w2
          in upd_chan c (\<lambda>x. x\<lparr>c_state := IPC_CHAN_STATE_DISCONNECTING\<rparr>) w3)
     | IPC_CHAN_STATE_ACCEPTING \<Rightarrow>
         upd_chan c (\<lambda>x. x\<lparr>c_state := IPC_CHAN_STATE_DISCONNECTING\<rparr>) w
     | _ \<Rightarrow> w))"

definition chan_shutdown_locked :: "addr \<Rightarrow> kst \<Rightarrow> kst" where
  "chan_shutdown_locked c w =
     (let w1 = chan_shutdown_one c w in
      case chans w1 c of
        None \<Rightarrow> fault w1
      | Some x \<Rightarrow> (case c_peer x of
          None \<Rightarrow> w1
        | Some d \<Rightarrow>
            (let w2 = chan_shutdown_one d w1;
                 w3 = chan_del_ref d (RefPeer c) w2
             in upd_chan c (\<lambda>x. x\<lparr>c_peer := None\<rparr>) w3)))"

section \<open>Port shutdown and handle closing\<close>

fun port_shutdown_pending :: "addr \<Rightarrow> addr list \<Rightarrow> kst \<Rightarrow> kst" where
  "port_shutdown_pending p [] w = w"
| "port_shutdown_pending p (s # ss) w =
     (let w1 = chan_shutdown_locked s w;
          w2 = chan_node_delete s w1;
          w3 = chan_del_ref s RefNode w2;
          w4 = handle_decref p w3
      in port_shutdown_pending p ss w4)"

definition port_shutdown :: "addr \<Rightarrow> kst \<Rightarrow> kst" where
  "port_shutdown p w = (case ports w p of
     None \<Rightarrow> fault w
   | Some x \<Rightarrow>
       (let w1 = upd_port p (\<lambda>x. x\<lparr>p_state := IPC_PORT_STATE_CLOSING\<rparr>) w;
            w2 = (if p_node x
                  then handle_decref p
                         ((upd_port p (\<lambda>x. x\<lparr>p_node := False\<rparr>) w1)
                            \<lparr>ipc_port_list := remove1 p (ipc_port_list w1)\<rparr>)
                  else w1)
        in port_shutdown_pending p (p_pending_list x) w2))"

text \<open>The call through \<^verbatim>\<open>handle->ops->shutdown\<close>, then the caller's reference is dropped.\<close>

definition handle_close :: "addr \<Rightarrow> kst \<Rightarrow> kst" where
  "handle_close h w = (case handle_at w h of
     None \<Rightarrow> fault w
   | Some x \<Rightarrow> handle_decref h (case h_ops x of
       OPS_NONE \<Rightarrow> fault w
     | OPS_PORT \<Rightarrow> port_shutdown h w
     | OPS_CHAN \<Rightarrow> chan_shutdown_locked h w))"

section \<open>Connecting to a port\<close>

definition is_ns_client :: "uuid_ptr \<Rightarrow> bool" where
  "is_ns_client uuid = (uuid = ZERO_UUID)"

definition check_access :: "ipc_port \<Rightarrow> uuid_ptr option \<Rightarrow> unit res" where
  "check_access port uuid = (case uuid of
     None \<Rightarrow> Inl ERR_ACCESS_DENIED
   | Some u \<Rightarrow>
       if is_ns_client u
       then (if p_flags port AND IPC_PORT_ALLOW_NS_CONNECT \<noteq> 0 then NO_ERROR else Inl ERR_ACCESS_DENIED)
       else (if p_flags port AND IPC_PORT_ALLOW_TA_CONNECT \<noteq> 0 then NO_ERROR else Inl ERR_ACCESS_DENIED))"

definition alloc_msg_queue :: "nat \<Rightarrow> nat \<Rightarrow> kst \<Rightarrow> ipc_msg_queue res \<times> kst" where
  "alloc_msg_queue n sz w =
     (let (a1, w1) = kalloc w;
          (a2, w2) = (if a1 then kalloc w1 else (False, w1))
      in (ipc_msg_queue_create a1 a2 n sz, w2))"

text \<open>The part of \<^verbatim>\<open>port_attach_client\<close> that follows once everything is allocated.\<close>

definition attach_link :: "addr \<Rightarrow> addr \<Rightarrow> addr \<Rightarrow> kst \<Rightarrow> kst" where
  "attach_link p client server w =
     (let w1 = upd_chan server (\<lambda>x. x\<lparr>c_state := IPC_CHAN_STATE_ACCEPTING\<rparr>) w;
          w2 = upd_chan client (\<lambda>x. x\<lparr>c_state := IPC_CHAN_STATE_CONNECTING\<rparr>) w1;
          w3 = upd_chan client (\<lambda>x. x\<lparr>c_peer := Some server\<rparr>) (chan_add_ref server (RefPeer client) w2);
          w4 = upd_chan server (\<lambda>x. x\<lparr>c_peer := Some client\<rparr>) (chan_add_ref client (RefPeer server) w3);
          w5 = chan_add_ref server RefNode w4;
          w6 = upd_port p (\<lambda>x. x\<lparr>p_pending_list := p_pending_list x @ [server]\<rparr>)
                 (upd_chan server (\<lambda>x. x\<lparr>c_node := NodePending p\<rparr>) w5);
          w7 = handle_incref p w6;
          w8 = handle_notify p w7
      in chan_del_ref server RefTmp w8)"

definition port_attach_client :: "addr \<Rightarrow> addr \<Rightarrow> kst \<Rightarrow> unit res \<times> kst" where
  "port_attach_client p client w = (case (ports w p, chans w client) of
     (Some port, Some cl) \<Rightarrow>
       if p_state port \<noteq> IPC_PORT_STATE_LISTENING then (Inl ERR_NOT_READY, w)
       else (case check_access port (Some (c_uuid cl)) of
         Inl e \<Rightarrow> (Inl e, w)
       | Inr _ \<Rightarrow>
           (case chan_alloc IPC_CHAN_FLAG_SERVER (p_uuid port) w of
              (None, w1) \<Rightarrow> (Inl ERR_NO_MEMORY, w1)
            | (Some server, w1) \<Rightarrow>
                (case alloc_msg_queue (p_num_recv_bufs port) (p_recv_buf_size port) w1 of
                   (Inl _, w2) \<Rightarrow> (Inl ERR_NO_MEMORY, chan_del_ref server RefTmp w2)
                 | (Inr cmq, w2) \<Rightarrow>
                     (let w3 = upd_chan client (\<lambda>x. x\<lparr>c_msg_queue := Some cmq\<rparr>) w2 in
                      case alloc_msg_queue (p_num_recv_bufs port) (p_recv_buf_size port) w3 of
                        (Inl _, w4) \<Rightarrow>
                          (Inl ERR_NO_MEMORY,
                           chan_del_ref server RefTmp (upd_chan client (\<lambda>x. x\<lparr>c_msg_queue := None\<rparr>) w4))
                      | (Inr smq, w4) \<Rightarrow>
                          (NO_ERROR, attach_link p client server
                             (upd_chan server (\<lambda>x. x\<lparr>c_msg_queue := Some smq\<rparr>) w4))))))
   | _ \<Rightarrow> (Inl ERR_INVALID_ARGS, fault w))"

section \<open>Creating and publishing a port\<close>

definition IPC_CHAN_MAX_BUFS :: nat where "IPC_CHAN_MAX_BUFS = 32"
definition IPC_CHAN_MAX_BUF_SIZE :: nat where "IPC_CHAN_MAX_BUF_SIZE = 4096"
definition IPC_PORT_PATH_MAX :: nat where "IPC_PORT_PATH_MAX = 64"

definition ipc_port_create ::
    "uuid_ptr option \<Rightarrow> u8 list \<Rightarrow> nat \<Rightarrow> nat \<Rightarrow> u32 \<Rightarrow> kst \<Rightarrow> addr res \<times> kst" where
  "ipc_port_create sid path num_recv_bufs recv_buf_size flags w = (case sid of
     None \<Rightarrow> (Inl ERR_INVALID_ARGS, w)
   | Some uuid \<Rightarrow>
       if num_recv_bufs = 0 \<or> num_recv_bufs > IPC_CHAN_MAX_BUFS \<or>
          recv_buf_size = 0 \<or> recv_buf_size > IPC_CHAN_MAX_BUF_SIZE
       then (Inl ERR_INVALID_ARGS, w)
       else
         (let (ok, w1) = kalloc w in
          if \<not> ok then (Inl ERR_NO_MEMORY, w1)
          else if length path = 0 then (Inl ERR_INVALID_ARGS, w1)
          else if length path \<ge> IPC_PORT_PATH_MAX then (Inl ERR_TOO_BIG, w1)
          else
            (let p = next_addr w1;
                 w2 = w1\<lparr>next_addr := Suc p,
                         ports := (ports w1)(p \<mapsto>
                           \<lparr>p_path = path, p_uuid = uuid, p_state = IPC_PORT_STATE_INVALID, p_flags = flags,
                            p_num_recv_bufs = num_recv_bufs, p_recv_buf_size = recv_buf_size,
                            p_handle = zero_handle, p_pending_list = [], p_node = False\<rparr>)\<rparr>
             in (Inr p, handle_init p OPS_PORT w2))))"

fun port_find :: "(addr \<rightharpoonup> ipc_port) \<Rightarrow> addr list \<Rightarrow> u8 list \<Rightarrow> addr option" where
  "port_find ps [] path = None"
| "port_find ps (p # ls) path =
     (case ps p of
        Some port \<Rightarrow> if path = p_path port then Some p else port_find ps ls path
      | None \<Rightarrow> port_find ps ls path)"

definition port_find_locked :: "kst \<Rightarrow> u8 list \<Rightarrow> addr option" where
  "port_find_locked w path = port_find (ports w) (ipc_port_list w) path"

text \<open>
  The loop of \<^verbatim>\<open>ipc_port_publish\<close> over the clients that wait for a port. The successor of
  a node is fetched before its body runs and the body unlinks only that node, so the loop
  visits the list as it was.
\<close>

fun port_publish_clients :: "addr \<Rightarrow> u8 list \<Rightarrow> addr list \<Rightarrow> kst \<Rightarrow> kst" where
  "port_publish_clients p path [] w = w"
| "port_publish_clients p path (client # cs) w = (case chans w client of
     None \<Rightarrow> fault w
   | Some x \<Rightarrow> (case c_path x of
       None \<Rightarrow> fault w
     | Some cpath \<Rightarrow>
         if cpath \<noteq> path then port_publish_clients p path cs w
         else
           (let w1 = upd_chan client (\<lambda>x. x\<lparr>c_path := None\<rparr>) w;
                w2 = chan_add_ref client RefTmp w1;
                w3 = chan_node_delete client w2;
                w4 = chan_del_ref client RefNode w3;
                (err, w5) = port_attach_client p client w4;
                w6 = (case err of Inl _ \<Rightarrow> chan_shutdown_locked client w5 | Inr _ \<Rightarrow> w5);
                w7 = chan_del_ref client RefTmp w6
            in port_publish_clients p path cs w7)))"

definition ipc_port_publish :: "addr \<Rightarrow> kst \<Rightarrow> unit res \<times> kst" where
  "ipc_port_publish p w = (case ports w p of
     None \<Rightarrow> (Inl ERR_INVALID_ARGS, fault w)
   | Some port \<Rightarrow>
       (let w0 = kassert (\<not> p_node port) w in
        case port_find_locked w0 (p_path port) of
          Some _ \<Rightarrow> (Inl ERR_ALREADY_EXISTS, w0)
        | None \<Rightarrow>
            (let w1 = upd_port p (\<lambda>x. x\<lparr>p_state := IPC_PORT_STATE_LISTENING, p_node := True\<rparr>) w0;
                 w2 = w1\<lparr>ipc_port_list := ipc_port_list w1 @ [p]\<rparr>;
                 w3 = handle_incref p w2
             in (NO_ERROR, port_publish_clients p (p_path port) (waiting_for_port_chan_list w3) w3))))"

abbreviation IPC_CONNECT_WAIT_FOR_PORT :: u32 where "IPC_CONNECT_WAIT_FOR_PORT \<equiv> 1"
abbreviation IPC_CONNECT_ASYNC :: u32 where "IPC_CONNECT_ASYNC \<equiv> 2"
abbreviation IPC_CONNECT_MASK :: u32 where "IPC_CONNECT_MASK \<equiv> 3"

text \<open>
  \<open>path\<close> is the content of the caller's buffer up to its terminator; a buffer of
  \<open>max_path\<close> bytes without one is the case of a longer list.
\<close>

definition ipc_port_connect_async ::
    "uuid_ptr option \<Rightarrow> u8 list \<Rightarrow> nat \<Rightarrow> u32 \<Rightarrow> kst \<Rightarrow> addr res \<times> kst" where
  "ipc_port_connect_async cid path max_path flags w = (case cid of
     None \<Rightarrow> (Inl ERR_INVALID_ARGS, w)
   | Some uuid \<Rightarrow>
       if length path = 0 \<or> length path \<ge> max_path then (Inl ERR_INVALID_ARGS, w)
       else (case chan_alloc 0 uuid w of
         (None, w1) \<Rightarrow> (Inl ERR_NO_MEMORY, w1)
       | (Some client, w1) \<Rightarrow>
           (case port_find_locked w1 path of
              Some p \<Rightarrow>
                (case port_attach_client p client w1 of
                   (Inl e, w2) \<Rightarrow> (Inl e, chan_del_ref client RefTmp w2)
                 | (Inr _, w2) \<Rightarrow> (Inr client, chan_del_ref client RefTmp (chan_handle_init client w2)))
            | None \<Rightarrow>
                if flags AND IPC_CONNECT_WAIT_FOR_PORT = 0
                then (Inl ERR_NOT_FOUND, chan_del_ref client RefTmp w1)
                else
                  (let (ok, w2) = kalloc w1 in
                   if \<not> ok then (Inl ERR_NO_MEMORY, chan_del_ref client RefTmp w2)
                   else
                     (let w3 = upd_chan client (\<lambda>x. x\<lparr>c_path := Some path\<rparr>) w2;
                          w4 = upd_chan client (\<lambda>x. x\<lparr>c_state := IPC_CHAN_STATE_WAITING_FOR_PORT\<rparr>) w3;
                          w5 = (upd_chan client (\<lambda>x. x\<lparr>c_node := NodeWaiting\<rparr>) w4)
                                 \<lparr>waiting_for_port_chan_list := waiting_for_port_chan_list w4 @ [client]\<rparr>;
                          w6 = chan_add_ref client RefNode w5
                      in (Inr client, chan_del_ref client RefTmp (chan_handle_init client w6)))))))"

section \<open>Accepting a connection\<close>

text \<open>The part of \<^verbatim>\<open>ipc_port_accept\<close> that follows once a pending server channel was found.\<close>

definition accept_server :: "addr \<Rightarrow> addr \<Rightarrow> kst \<Rightarrow> (addr \<times> uuid_ptr) res \<times> kst" where
  "accept_server p server w =
     (let w1 = chan_node_delete server w;
          w1' = kassert (case chans w1 server of
                  Some x \<Rightarrow> c_flags x AND IPC_CHAN_FLAG_SERVER \<noteq> 0 | None \<Rightarrow> False) w1;
          w2 = chan_add_ref server RefTmp w1';
          w3 = chan_del_ref server RefNode w2;
          w4 = handle_decref p w3
      in case chans w4 server of
           None \<Rightarrow> (Inl ERR_CHANNEL_CLOSED, fault w4)
         | Some sv \<Rightarrow>
             (case c_peer sv of
                None \<Rightarrow>
                  (Inl ERR_CHANNEL_CLOSED, chan_del_ref server RefTmp (chan_shutdown_locked server w4))
              | Some client \<Rightarrow>
                  (case chans w4 client of
                     None \<Rightarrow> (Inl ERR_CHANNEL_CLOSED, fault w4)
                   | Some cl \<Rightarrow>
                       if c_state sv \<noteq> IPC_CHAN_STATE_ACCEPTING \<or> c_state cl \<noteq> IPC_CHAN_STATE_CONNECTING
                       then (Inl ERR_CHANNEL_CLOSED, chan_del_ref server RefTmp (chan_shutdown_locked server w4))
                       else
                         (let w5 = upd_chan server (\<lambda>x. x\<lparr>c_state := IPC_CHAN_STATE_CONNECTED\<rparr>) w4;
                              w6 = upd_chan client (\<lambda>x. x\<lparr>c_state := IPC_CHAN_STATE_CONNECTED,
                                     c_aux_state := c_aux_state x OR IPC_CHAN_AUX_STATE_CONNECTED\<rparr>) w5;
                              w7 = chan_handle_init server w6;
                              w8 = handle_notify client w7
                          in (Inr (server, c_uuid cl), chan_del_ref server RefTmp w8)))))"

definition ipc_port_accept :: "addr option \<Rightarrow> kst \<Rightarrow> (addr \<times> uuid_ptr) res \<times> kst" where
  "ipc_port_accept phandle w = (case phandle of
     None \<Rightarrow> (Inl ERR_INVALID_ARGS, w)
   | Some p \<Rightarrow>
       if \<not> ipc_is_port w p then (Inl ERR_INVALID_ARGS, w)
       else (case ports w p of
         None \<Rightarrow> (Inl ERR_INVALID_ARGS, fault w)
       | Some port \<Rightarrow>
           if p_state port \<noteq> IPC_PORT_STATE_LISTENING then (Inl ERR_CHANNEL_CLOSED, w)
           else (case p_pending_list port of
             [] \<Rightarrow> (Inl ERR_NO_MSG, w)
           | server # _ \<Rightarrow> accept_server p server w)))"

section \<open>Polling\<close>

abbreviation IPC_HANDLE_POLL_READY :: u32 where "IPC_HANDLE_POLL_READY \<equiv> 1"
abbreviation IPC_HANDLE_POLL_ERROR :: u32 where "IPC_HANDLE_POLL_ERROR \<equiv> 2"
abbreviation IPC_HANDLE_POLL_HUP :: u32 where "IPC_HANDLE_POLL_HUP \<equiv> 4"
abbreviation IPC_HANDLE_POLL_MSG :: u32 where "IPC_HANDLE_POLL_MSG \<equiv> 8"
abbreviation IPC_HANDLE_POLL_SEND_UNBLOCKED :: u32 where "IPC_HANDLE_POLL_SEND_UNBLOCKED \<equiv> 16"

definition port_poll :: "ipc_port \<Rightarrow> u32" where
  "port_poll port =
     (if p_state port \<noteq> IPC_PORT_STATE_LISTENING then IPC_HANDLE_POLL_ERROR
      else if p_pending_list port \<noteq> [] then IPC_HANDLE_POLL_READY
      else 0)"

definition chan_poll :: "ipc_chan \<Rightarrow> u32" where
  "chan_poll chan =
     (if c_state chan = IPC_CHAN_STATE_INVALID then IPC_HANDLE_POLL_ERROR
      else
        (if c_state chan = IPC_CHAN_STATE_DISCONNECTING then IPC_HANDLE_POLL_HUP else 0) OR
        (if c_aux_state chan AND IPC_CHAN_AUX_STATE_CONNECTED \<noteq> 0 then IPC_HANDLE_POLL_READY else 0) OR
        (case c_msg_queue chan of
           Some mq \<Rightarrow> if \<not> ipc_msg_queue_is_empty mq then IPC_HANDLE_POLL_MSG else 0
         | None \<Rightarrow> 0) OR
        (if c_aux_state chan AND IPC_CHAN_AUX_STATE_SEND_UNBLOCKED \<noteq> 0 then IPC_HANDLE_POLL_SEND_UNBLOCKED else 0))"

definition chan_finalize_event :: "addr \<Rightarrow> u32 \<Rightarrow> kst \<Rightarrow> kst" where
  "chan_finalize_event c event w =
     (if event AND (IPC_HANDLE_POLL_SEND_UNBLOCKED OR IPC_HANDLE_POLL_READY) \<noteq> 0
      then
        (let w1 = (if event AND IPC_HANDLE_POLL_SEND_UNBLOCKED \<noteq> 0
                   then upd_chan c (\<lambda>x. x\<lparr>c_aux_state := c_aux_state x AND NOT IPC_CHAN_AUX_STATE_SEND_UNBLOCKED\<rparr>) w
                   else w)
         in if event AND IPC_HANDLE_POLL_READY \<noteq> 0
            then upd_chan c (\<lambda>x. x\<lparr>c_aux_state := c_aux_state x AND NOT IPC_CHAN_AUX_STATE_CONNECTED\<rparr>) w1
            else w1)
      else w)"

text \<open>The calls through \<^verbatim>\<open>ops->poll\<close> and \<^verbatim>\<open>ops->finalize_event\<close> (ports have no finalizer).\<close>

definition handle_poll :: "kst \<Rightarrow> addr \<Rightarrow> u32" where
  "handle_poll w h = (case chans w h of
     Some c \<Rightarrow> if h_ops (c_handle c) = OPS_CHAN then chan_poll c else 0
   | None \<Rightarrow> (case ports w h of Some p \<Rightarrow> port_poll p | None \<Rightarrow> 0))"

definition handle_finalize_event :: "addr \<Rightarrow> u32 \<Rightarrow> kst \<Rightarrow> kst" where
  "handle_finalize_event h event w = (if ipc_is_channel w h then chan_finalize_event h event w else w)"

section \<open>Messages on a channel\<close>

text \<open>A null handle is \<open>None\<close>.\<close>

definition check_channel_locked :: "kst \<Rightarrow> addr option \<Rightarrow> unit res" where
  "check_channel_locked w ch = (case ch of
     None \<Rightarrow> Inl ERR_INVALID_ARGS
   | Some h \<Rightarrow> if \<not> ipc_is_channel w h then Inl ERR_INVALID_ARGS else NO_ERROR)"

definition check_channel_connected_locked :: "kst \<Rightarrow> addr option \<Rightarrow> unit res" where
  "check_channel_connected_locked w ch = (case check_channel_locked w ch of
     Inl e \<Rightarrow> Inl e
   | Inr _ \<Rightarrow> (case Option.bind ch (chans w) of
       None \<Rightarrow> Inl ERR_INVALID_ARGS
     | Some chan \<Rightarrow>
         if c_state chan = IPC_CHAN_STATE_CONNECTED then NO_ERROR
         else if c_state chan = IPC_CHAN_STATE_DISCONNECTING then Inl ERR_CHANNEL_CLOSED
         else Inl ERR_NOT_READY))"

text \<open>\<^verbatim>\<open>chan->peer->msg_queue\<close> is dereferenced without a check.\<close>

definition msg_write_locked :: "kmem \<Rightarrow> umem \<Rightarrow> addr \<Rightarrow> msg_desc \<Rightarrow> kst \<Rightarrow> nat res \<times> kst" where
  "msg_write_locked km um c msg w =
     (case Option.bind (Option.bind (chans w c) c_peer) (\<lambda>d. map_option (Pair d) (chans w d)) of
        None \<Rightarrow> (Inl ERR_FAULT, fault w)
      | Some (d, peer) \<Rightarrow>
          (case c_msg_queue peer of
             None \<Rightarrow> (Inl ERR_FAULT, fault w)
           | Some mq \<Rightarrow>
               if free_list mq = []
               then (Inl ERR_NOT_ENOUGH_BUFFER,
                     upd_chan c (\<lambda>x. x\<lparr>c_aux_state := c_aux_state x OR IPC_CHAN_AUX_STATE_SEND_BLOCKED\<rparr>) w)
               else (let (mq', r) = msg_write_mq km um mq msg
                     in (r, upd_chan d (\<lambda>x. x\<lparr>c_msg_queue := Some mq'\<rparr>) w))))"

definition msg_put_read_locked :: "addr \<Rightarrow> u32 \<Rightarrow> kst \<Rightarrow> unit res \<times> kst" where
  "msg_put_read_locked c mid w = (case chans w c of
     None \<Rightarrow> (Inl ERR_FAULT, fault w)
   | Some chan \<Rightarrow>
       (case c_msg_queue chan of
          None \<Rightarrow> (Inl ERR_FAULT, fault w)
        | Some mq \<Rightarrow>
            (case msg_put_read_mq mq mid of
               Inl e \<Rightarrow> (Inl e, w)
             | Inr mq' \<Rightarrow>
                 (let w1 = upd_chan c (\<lambda>x. x\<lparr>c_msg_queue := Some mq'\<rparr>) w in
                  case c_peer chan of
                    None \<Rightarrow> (NO_ERROR, w1)
                  | Some d \<Rightarrow>
                      (case chans w1 d of
                         None \<Rightarrow> (NO_ERROR, fault w1)
                       | Some peer \<Rightarrow>
                           if c_aux_state peer AND IPC_CHAN_AUX_STATE_SEND_BLOCKED \<noteq> 0
                           then (NO_ERROR, handle_notify d (upd_chan d (\<lambda>x. x\<lparr>c_aux_state :=
                                   (c_aux_state x AND NOT IPC_CHAN_AUX_STATE_SEND_BLOCKED) OR
                                   IPC_CHAN_AUX_STATE_SEND_UNBLOCKED\<rparr>) w1))
                           else (NO_ERROR, w1))))))"

definition send_msg_locked :: "kmem \<Rightarrow> umem \<Rightarrow> addr option \<Rightarrow> msg_desc \<Rightarrow> kst \<Rightarrow> nat res \<times> kst" where
  "send_msg_locked km um ch msg w = (case check_channel_connected_locked w ch of
     Inl e \<Rightarrow> (Inl e, w)
   | Inr _ \<Rightarrow>
       (let c = the ch; (r, w1) = msg_write_locked km um c msg w in
        case r of
          Inl e \<Rightarrow> (Inl e, w1)
        | Inr n \<Rightarrow> (Inr n, (case Option.bind (chans w1 c) c_peer of
            None \<Rightarrow> fault w1 | Some d \<Rightarrow> handle_notify d w1))))"

definition ipc_send_msg :: "kmem \<Rightarrow> umem \<Rightarrow> addr option \<Rightarrow> ipc_msg_kern option \<Rightarrow> kst \<Rightarrow> nat res \<times> kst" where
  "ipc_send_msg km um ch msg w = (case msg of
     None \<Rightarrow> (Inl ERR_INVALID_ARGS, w)
   | Some m \<Rightarrow> send_msg_locked km um ch (IPC_MSG_BUFFER_KERNEL m) w)"

definition ipc_get_msg :: "addr option \<Rightarrow> kst \<Rightarrow> ipc_msg_info res \<times> kst" where
  "ipc_get_msg ch w = (case check_channel_locked w ch of
     Inl e \<Rightarrow> (Inl e, w)
   | Inr _ \<Rightarrow>
       (case Option.bind (Option.bind ch (chans w)) c_msg_queue of
          None \<Rightarrow> (Inl ERR_FAULT, fault w)
        | Some mq \<Rightarrow>
            (case msg_peek_next_filled_locked mq of
               Inl e \<Rightarrow> (Inl e, w)
             | Inr info \<Rightarrow> (Inr info, (case msg_get_filled_locked mq of
                 None \<Rightarrow> fault w
               | Some mq' \<Rightarrow> upd_chan (the ch) (\<lambda>x. x\<lparr>c_msg_queue := Some mq'\<rparr>) w)))))"

definition ipc_put_msg :: "addr option \<Rightarrow> u32 \<Rightarrow> kst \<Rightarrow> unit res \<times> kst" where
  "ipc_put_msg ch mid w = (case check_channel_locked w ch of
     Inl e \<Rightarrow> (Inl e, w)
   | Inr _ \<Rightarrow> msg_put_read_locked (the ch) mid w)"

definition read_msg_locked ::
    "kmem \<Rightarrow> umem \<Rightarrow> addr option \<Rightarrow> u32 \<Rightarrow> u32 \<Rightarrow> msg_desc \<Rightarrow> kst \<Rightarrow> kmem \<times> umem \<times> nat res \<times> kst" where
  "read_msg_locked km um ch mid offset msg w = (case check_channel_locked w ch of
     Inl e \<Rightarrow> (km, um, Inl e, w)
   | Inr _ \<Rightarrow>
       (case Option.bind (Option.bind ch (chans w)) c_msg_queue of
          None \<Rightarrow> (km, um, Inl ERR_FAULT, fault w)
        | Some mq \<Rightarrow> (let (km', um', r) = msg_read_locked km um mq mid offset msg in (km', um', r, w))))"

definition ipc_read_msg ::
    "kmem \<Rightarrow> umem \<Rightarrow> addr option \<Rightarrow> u32 \<Rightarrow> u32 \<Rightarrow> ipc_msg_kern option \<Rightarrow> kst \<Rightarrow> kmem \<times> umem \<times> nat res \<times> kst" where
  "ipc_read_msg km um ch mid offset msg w = (case msg of
     None \<Rightarrow> (km, um, Inl ERR_INVALID_ARGS, w)
   | Some m \<Rightarrow> read_msg_locked km um ch mid offset (IPC_MSG_BUFFER_KERNEL m) w)"

end
