(* ===== verification/Ipc_Inv.thy ===== *)
theory Ipc_Inv
  imports Ipc "HOL-Library.Multiset"
begin

text \<open>
  The invariant of the IPC objects and its preservation by every operation of \<^verbatim>\<open>ipc.c\<close> and
  \<^verbatim>\<open>ipc_msg.c\<close>. The multiset \<open>H\<close> holds the handle references that clients of IPC own
  (the tables of user contexts, the endpoints of the virtio device, local variables of system
  calls); \<open>tmp\<close> is the set of channels a running operation holds a local reference on, empty
  between operations.
\<close>

section \<open>The invariant\<close>

text \<open>The state of the peer of a channel that is connected or about to be.\<close>

fun partner :: "chan_state \<Rightarrow> chan_state option" where
  "partner IPC_CHAN_STATE_ACCEPTING = Some IPC_CHAN_STATE_CONNECTING"
| "partner IPC_CHAN_STATE_CONNECTING = Some IPC_CHAN_STATE_ACCEPTING"
| "partner IPC_CHAN_STATE_CONNECTED = Some IPC_CHAN_STATE_CONNECTED"
| "partner _ = None"

text \<open>What the invariant reads of the store: peers, states, and the pending lists.\<close>

definition peers :: "(addr \<rightharpoonup> ipc_chan) \<Rightarrow> addr \<Rightarrow> addr option" where
  "peers m c = Option.bind (m c) c_peer"

definition states :: "(addr \<rightharpoonup> ipc_chan) \<Rightarrow> addr \<Rightarrow> chan_state option" where
  "states m c = map_option c_state (m c)"

definition pends :: "(addr \<rightharpoonup> ipc_port) \<Rightarrow> addr \<Rightarrow> addr list" where
  "pends m p = (case m p of Some x \<Rightarrow> p_pending_list x | None \<Rightarrow> [])"

text \<open>
  The links between channels: a peer is a live channel that has got past its set-up and that
  points back or has hung up; a channel that is connected, or about to be, has a peer in the
  matching state that points back.
\<close>

definition links_wf :: "(addr \<Rightarrow> addr option) \<Rightarrow> (addr \<Rightarrow> chan_state option) \<Rightarrow> bool" where
  "links_wf po st \<longleftrightarrow>
     (\<forall>c d. po c = Some d \<longrightarrow> d \<noteq> c \<and> (po d = None \<or> po d = Some c) \<and>
        st c \<notin> {None, Some IPC_CHAN_STATE_INVALID, Some IPC_CHAN_STATE_WAITING_FOR_PORT} \<and>
        st d \<notin> {None, Some IPC_CHAN_STATE_INVALID, Some IPC_CHAN_STATE_WAITING_FOR_PORT}) \<and>
     (\<forall>c s t. st c = Some s \<longrightarrow> partner s = Some t \<longrightarrow>
        (\<exists>d. po c = Some d \<and> po d = Some c \<and> st d = Some t))"

text \<open>The references on a channel are the ones the rest of the state accounts for.\<close>

definition refs_wf :: "addr set \<Rightarrow> addr multiset \<Rightarrow> (addr \<Rightarrow> addr option) \<Rightarrow> addr \<Rightarrow> ipc_chan \<Rightarrow> bool" where
  "refs_wf tmp H po c x \<longleftrightarrow>
     distinct (c_refobj x) \<and>
     (RefTmp \<in> set (c_refobj x) \<longleftrightarrow> c \<in> tmp) \<and>
     (RefNode \<in> set (c_refobj x) \<longleftrightarrow> c_node x \<noteq> NodeClear) \<and>
     (RefHandle \<in> set (c_refobj x) \<longleftrightarrow> c \<in># H) \<and>
     (\<forall>d. RefPeer d \<in> set (c_refobj x) \<longleftrightarrow> po d = Some c) \<and>
     (c_peer x \<noteq> None \<longrightarrow> c \<in># H \<or> c_node x \<noteq> NodeClear \<or> c \<in> tmp)"

definition hdl_wf :: "addr multiset \<Rightarrow> addr \<Rightarrow> ipc_chan \<Rightarrow> bool" where
  "hdl_wf H c x \<longleftrightarrow>
     refcnt (c_handle x) = int (count H c) \<and> (c \<in># H \<longrightarrow> h_ops (c_handle x) = OPS_CHAN)"

definition node_wf :: "addr multiset \<Rightarrow> addr list \<Rightarrow> (addr \<Rightarrow> addr list) \<Rightarrow> addr \<Rightarrow> ipc_chan \<Rightarrow> bool" where
  "node_wf H wl pd c x \<longleftrightarrow>
     (c_node x = NodeWaiting \<longleftrightarrow> c \<in> set wl) \<and>
     (\<forall>p. c_node x = NodePending p \<longleftrightarrow> c \<in> set (pd p)) \<and>
     (c_node x = NodeWaiting \<longrightarrow> c_state x = IPC_CHAN_STATE_WAITING_FOR_PORT \<and> c \<in># H \<and> c_path x \<noteq> None) \<and>
     (\<forall>p. c_node x = NodePending p \<longrightarrow> c_flags x AND IPC_CHAN_FLAG_SERVER \<noteq> 0 \<and> c \<notin># H)"

definition phase_wf :: "addr set \<Rightarrow> addr \<Rightarrow> ipc_chan \<Rightarrow> bool" where
  "phase_wf tmp c x \<longleftrightarrow>
     (c_state x = IPC_CHAN_STATE_INVALID \<longrightarrow> set (c_refobj x) \<subseteq> {RefTmp}) \<and>
     (c_state x = IPC_CHAN_STATE_WAITING_FOR_PORT \<longrightarrow> c_node x = NodeWaiting \<or> c \<in> tmp) \<and>
     (c_peer x \<noteq> None \<longrightarrow> c_msg_queue x \<noteq> None) \<and>
     (\<forall>mq. c_msg_queue x = Some mq \<longrightarrow> mq_wf mq)"

definition port_wf :: "addr multiset \<Rightarrow> addr list \<Rightarrow> addr \<Rightarrow> ipc_port \<Rightarrow> bool" where
  "port_wf H pl p x \<longleftrightarrow>
     h_ops (p_handle x) = OPS_PORT \<and>
     refcnt (p_handle x) = int (count H p) + (if p_node x then 1 else 0) + int (length (p_pending_list x)) \<and>
     p \<in># H \<and> distinct (p_pending_list x) \<and>
     (p_node x \<longleftrightarrow> p \<in> set pl) \<and>
     (p_node x \<longleftrightarrow> p_state x = IPC_PORT_STATE_LISTENING) \<and>
     0 < p_num_recv_bufs x \<and> p_num_recv_bufs x \<le> IPC_CHAN_MAX_BUFS \<and>
     0 < p_recv_buf_size x \<and> p_recv_buf_size x \<le> IPC_CHAN_MAX_BUF_SIZE \<and>
     0 < length (p_path x) \<and> length (p_path x) < IPC_PORT_PATH_MAX"

definition chans_wf :: "addr set \<Rightarrow> addr multiset \<Rightarrow> kst \<Rightarrow> bool" where
  "chans_wf tmp H w \<longleftrightarrow> (\<forall>c x. chans w c = Some x \<longrightarrow>
     refs_wf tmp H (peers (chans w)) c x \<and> hdl_wf H c x \<and>
     node_wf H (waiting_for_port_chan_list w) (pends (ports w)) c x \<and> phase_wf tmp c x)"

definition ports_wf :: "addr multiset \<Rightarrow> kst \<Rightarrow> bool" where
  "ports_wf H w \<longleftrightarrow> (\<forall>p x. ports w p = Some x \<longrightarrow> port_wf H (ipc_port_list w) p x) \<and>
     (\<forall>p q x y. p \<in> set (ipc_port_list w) \<longrightarrow> q \<in> set (ipc_port_list w) \<longrightarrow>
        ports w p = Some x \<longrightarrow> ports w q = Some y \<longrightarrow> p_path x = p_path y \<longrightarrow> p = q)"

text \<open>The addresses on the lists, in the store and in \<open>H\<close>.\<close>

definition addrs_wf :: "addr set \<Rightarrow> addr multiset \<Rightarrow> kst \<Rightarrow> bool" where
  "addrs_wf tmp H w \<longleftrightarrow>
     distinct (ipc_port_list w) \<and> distinct (waiting_for_port_chan_list w) \<and>
     set (ipc_port_list w) \<subseteq> dom (ports w) \<and> set (waiting_for_port_chan_list w) \<subseteq> dom (chans w) \<and>
     (\<forall>p. set (pends (ports w) p) \<subseteq> dom (chans w)) \<and>
     dom (chans w) \<inter> dom (ports w) = {} \<and> set_mset H \<subseteq> dom (chans w) \<union> dom (ports w) \<and>
     tmp \<subseteq> dom (chans w) \<and> (\<forall>a \<in> dom (chans w) \<union> dom (ports w). a < next_addr w)"

text \<open>
  \<open>ipc_core\<close> holds at every point of an operation at which the references are accounted
  for; between operations no channel without references is left.
\<close>

definition ipc_core :: "addr set \<Rightarrow> addr multiset \<Rightarrow> kst \<Rightarrow> bool" where
  "ipc_core tmp H w \<longleftrightarrow>
     \<not> faulted w \<and> addrs_wf tmp H w \<and> links_wf (peers (chans w)) (states (chans w)) \<and> chans_wf tmp H w \<and> ports_wf H w"

lemma partner_Some_iff:
  "partner s = Some t \<longleftrightarrow>
     s = IPC_CHAN_STATE_ACCEPTING \<and> t = IPC_CHAN_STATE_CONNECTING \<or>
     s = IPC_CHAN_STATE_CONNECTING \<and> t = IPC_CHAN_STATE_ACCEPTING \<or>
     s = IPC_CHAN_STATE_CONNECTED \<and> t = IPC_CHAN_STATE_CONNECTED"
  by (cases s; cases t) auto

lemma partner_None_iff:
  "partner s = None \<longleftrightarrow> s \<in> {IPC_CHAN_STATE_INVALID, IPC_CHAN_STATE_DISCONNECTING, IPC_CHAN_STATE_WAITING_FOR_PORT}"
  by (cases s) auto

definition alive :: "kst \<Rightarrow> bool" where
  "alive w \<longleftrightarrow> (\<forall>c x. chans w c = Some x \<longrightarrow> c_refobj x \<noteq> [])"

definition ipc_inv :: "addr set \<Rightarrow> addr multiset \<Rightarrow> kst \<Rightarrow> bool" where
  "ipc_inv tmp H w \<longleftrightarrow> ipc_core tmp H w \<and> alive w"

lemma ipc_core_chan:
  assumes "ipc_core tmp H w" "chans w c = Some x"
  shows "refs_wf tmp H (peers (chans w)) c x" "hdl_wf H c x"
    "node_wf H (waiting_for_port_chan_list w) (pends (ports w)) c x" "phase_wf tmp c x"
  using assms by (auto simp: ipc_core_def chans_wf_def)

lemma ipc_core_port: "ipc_core tmp H w \<Longrightarrow> ports w p = Some x \<Longrightarrow> port_wf H (ipc_port_list w) p x"
  by (simp add: ipc_core_def ports_wf_def)

lemma ipc_inv_init: "ipc_inv {} {#} init_kst"
  by (simp add: ipc_inv_def ipc_core_def alive_def addrs_wf_def links_wf_def chans_wf_def ports_wf_def
      init_kst_def peers_def states_def pends_def)

section \<open>Reading an updated store\<close>

lemma peers_upd [simp]:
  "peers (m(c \<mapsto> x)) = (peers m)(c := c_peer x)" "peers (m(c := None)) = (peers m)(c := None)"
  by (auto simp: peers_def)

lemma states_upd [simp]:
  "states (m(c \<mapsto> x)) = (states m)(c \<mapsto> c_state x)" "states (m(c := None)) = (states m)(c := None)"
  by (auto simp: states_def)

lemma pends_upd [simp]:
  "pends (m(p \<mapsto> x)) = (pends m)(p := p_pending_list x)" "pends (m(p := None)) = (pends m)(p := [])"
  by (auto simp: pends_def)

lemma peers_Some: "m c = Some x \<Longrightarrow> peers m c = c_peer x"
  by (simp add: peers_def)

lemma states_Some: "m c = Some x \<Longrightarrow> states m c = Some (c_state x)"
  by (simp add: states_def)

lemma pends_Some: "m p = Some x \<Longrightarrow> pends m p = p_pending_list x"
  by (simp add: pends_def)

lemma states_None_iff: "states m c = None \<longleftrightarrow> m c = None"
  by (simp add: states_def)

lemma peers_SomeD: "peers m c = Some d \<Longrightarrow> \<exists>x. m c = Some x \<and> c_peer x = Some d"
  by (auto simp: peers_def split: bind_splits)

lemmas views = peers_Some states_Some pends_Some

text \<open>The fields each part of the invariant does not read.\<close>

lemma refs_wf_frame [simp]:
  "refs_wf tmp H po c (x\<lparr>c_state := s\<rparr>) = refs_wf tmp H po c x"
  "refs_wf tmp H po c (x\<lparr>c_aux_state := a\<rparr>) = refs_wf tmp H po c x"
  "refs_wf tmp H po c (x\<lparr>c_handle := h\<rparr>) = refs_wf tmp H po c x"
  "refs_wf tmp H po c (x\<lparr>c_msg_queue := q\<rparr>) = refs_wf tmp H po c x"
  "refs_wf tmp H po c (x\<lparr>c_path := pa\<rparr>) = refs_wf tmp H po c x"
  by (simp_all add: refs_wf_def)

lemma hdl_wf_frame [simp]:
  "hdl_wf H c (x\<lparr>c_state := s\<rparr>) = hdl_wf H c x"
  "hdl_wf H c (x\<lparr>c_aux_state := a\<rparr>) = hdl_wf H c x"
  "hdl_wf H c (x\<lparr>c_msg_queue := q\<rparr>) = hdl_wf H c x"
  "hdl_wf H c (x\<lparr>c_path := pa\<rparr>) = hdl_wf H c x"
  "hdl_wf H c (x\<lparr>c_peer := pe\<rparr>) = hdl_wf H c x"
  "hdl_wf H c (x\<lparr>c_node := n\<rparr>) = hdl_wf H c x"
  "hdl_wf H c (x\<lparr>c_refobj := r\<rparr>) = hdl_wf H c x"
  by (simp_all add: hdl_wf_def)

lemma node_wf_frame [simp]:
  "node_wf H wl pd c (x\<lparr>c_aux_state := a\<rparr>) = node_wf H wl pd c x"
  "node_wf H wl pd c (x\<lparr>c_handle := h\<rparr>) = node_wf H wl pd c x"
  "node_wf H wl pd c (x\<lparr>c_msg_queue := q\<rparr>) = node_wf H wl pd c x"
  "node_wf H wl pd c (x\<lparr>c_peer := pe\<rparr>) = node_wf H wl pd c x"
  "node_wf H wl pd c (x\<lparr>c_refobj := r\<rparr>) = node_wf H wl pd c x"
  by (simp_all add: node_wf_def)

lemma phase_wf_frame [simp]:
  "phase_wf tmp c (x\<lparr>c_aux_state := a\<rparr>) = phase_wf tmp c x"
  "phase_wf tmp c (x\<lparr>c_handle := h\<rparr>) = phase_wf tmp c x"
  "phase_wf tmp c (x\<lparr>c_path := pa\<rparr>) = phase_wf tmp c x"
  by (simp_all add: phase_wf_def)

lemma phase_wf_remove_ref: "phase_wf tmp c x \<Longrightarrow> phase_wf tmp c (x\<lparr>c_refobj := remove1 r (c_refobj x)\<rparr>)"
  using set_remove1_subset by (fastforce simp: phase_wf_def)

section \<open>Elementary changes of state\<close>

text \<open>
  Each operation is a sequence of a few of the following changes, every one of which keeps the
  invariant.
\<close>

definition disc :: "chan_state \<Rightarrow> chan_state" where
  "disc s = (if partner s = None then s else IPC_CHAN_STATE_DISCONNECTING)"

lemma partner_disc [simp]: "partner (disc s) = None"
  by (simp add: disc_def)

lemma disc_eq_iff [simp]:
  "disc s = IPC_CHAN_STATE_INVALID \<longleftrightarrow> s = IPC_CHAN_STATE_INVALID"
  "disc s = IPC_CHAN_STATE_WAITING_FOR_PORT \<longleftrightarrow> s = IPC_CHAN_STATE_WAITING_FOR_PORT"
  by (auto simp: disc_def partner_None_iff)

lemma node_wf_disc: "node_wf H wl pd c x \<Longrightarrow> node_wf H wl pd c (x\<lparr>c_state := disc (c_state x)\<rparr>)"
  by (simp add: node_wf_def)

lemma phase_wf_disc: "phase_wf tmp c x \<Longrightarrow> phase_wf tmp c (x\<lparr>c_state := disc (c_state x)\<rparr>)"
  by (simp add: phase_wf_def)

lemma links_disconnect:
  assumes "links_wf po st" "po c = Some d" "st c = Some s" "st d = Some t"
  shows "links_wf po (st(c \<mapsto> disc s, d \<mapsto> disc t))"
proof -
  show ?thesis
    unfolding links_wf_def
  proof (intro conjI allI impI)
    fix a b assume ab: "po a = Some b"
    with assms(1) have "b \<noteq> a \<and> (po b = None \<or> po b = Some a)" unfolding links_wf_def by blast
    then show "b \<noteq> a" "po b = None \<or> po b = Some a" by auto
    show "(st(c \<mapsto> disc s, d \<mapsto> disc t)) a \<notin> {None, Some IPC_CHAN_STATE_INVALID, Some IPC_CHAN_STATE_WAITING_FOR_PORT}"
      "(st(c \<mapsto> disc s, d \<mapsto> disc t)) b \<notin> {None, Some IPC_CHAN_STATE_INVALID, Some IPC_CHAN_STATE_WAITING_FOR_PORT}"
      using assms ab unfolding links_wf_def by auto
  next
    fix a u v assume u: "(st(c \<mapsto> disc s, d \<mapsto> disc t)) a = Some u" "partner u = Some v"
    then have a: "a \<noteq> c" "a \<noteq> d" "st a = Some u" by (auto split: if_splits)
    then obtain b where b: "po a = Some b" "po b = Some a" "st b = Some v"
      using assms(1) u(2) unfolding links_wf_def by blast
    have "b \<noteq> c" using a b assms(2) by auto
    moreover have "b \<noteq> d"
    proof
      assume "b = d"
      then have "po d = None \<or> po d = Some c" using assms(1,2) unfolding links_wf_def by blast
      then show False using \<open>b = d\<close> a b by simp
    qed
    ultimately show "\<exists>b. po a = Some b \<and> po b = Some a \<and> (st(c \<mapsto> disc s, d \<mapsto> disc t)) b = Some v"
      using b by simp
  qed
qed

lemma core_disconnect:
  assumes inv: "ipc_core tmp H w" and c: "chans w c = Some x" "c_peer x = Some d" "chans w d = Some y"
  shows "ipc_core tmp H (w\<lparr>chans := (chans w)(c \<mapsto> x\<lparr>c_state := disc (c_state x)\<rparr>, d \<mapsto> y\<lparr>c_state := disc (c_state y)\<rparr>)\<rparr>)"
    (is "ipc_core tmp H ?w")
proof -
  have "c \<noteq> d" using inv c unfolding ipc_core_def links_wf_def by (metis peers_Some)
  then have po: "peers (chans ?w) = peers (chans w)"
    using c by (simp add: fun_upd_idem views)
  have "links_wf (peers (chans ?w)) (states (chans ?w))"
    using inv c unfolding po by (auto simp: ipc_core_def views intro: links_disconnect)
  moreover have "addrs_wf tmp H ?w" using inv c by (auto simp: ipc_core_def addrs_wf_def)
  moreover have "ports_wf H ?w" using inv by (simp add: ipc_core_def ports_wf_def)
  moreover have "chans_wf tmp H ?w"
    using inv c \<open>c \<noteq> d\<close> unfolding chans_wf_def po
    by (auto simp: ipc_core_def chans_wf_def node_wf_disc phase_wf_disc)
  ultimately show ?thesis using inv by (simp add: ipc_core_def)
qed

lemma partner_sym: "partner s = Some t \<Longrightarrow> partner t = Some s"
  by (cases s) auto

lemma links_drop:
  assumes "links_wf po st" "st c = Some s" "partner s = None"
  shows "links_wf (po(c := None)) st"
proof -
  have "\<exists>d. (po(c := None)) a = Some d \<and> (po(c := None)) d = Some a \<and> st d = Some t"
    if a: "st a = Some u" "partner u = Some t" for a u t
  proof -
    obtain d where d: "po a = Some d" "po d = Some a" "st d = Some t"
      using assms(1) a unfolding links_wf_def by blast
    have "a \<noteq> c" using a assms by auto
    moreover have "d \<noteq> c" using d partner_sym [OF a(2)] assms by auto
    ultimately show ?thesis using d by simp
  qed
  moreover have "b \<noteq> a \<and> ((po(c := None)) b = None \<or> (po(c := None)) b = Some a) \<and>
        st a \<notin> {None, Some IPC_CHAN_STATE_INVALID, Some IPC_CHAN_STATE_WAITING_FOR_PORT} \<and>
        st b \<notin> {None, Some IPC_CHAN_STATE_INVALID, Some IPC_CHAN_STATE_WAITING_FOR_PORT}"
    if "(po(c := None)) a = Some b" for a b
  proof -
    have "po a = Some b" using that by (auto split: if_splits)
    with assms(1) have "b \<noteq> a \<and> (po b = None \<or> po b = Some a) \<and>
        st a \<notin> {None, Some IPC_CHAN_STATE_INVALID, Some IPC_CHAN_STATE_WAITING_FOR_PORT} \<and>
        st b \<notin> {None, Some IPC_CHAN_STATE_INVALID, Some IPC_CHAN_STATE_WAITING_FOR_PORT}"
      unfolding links_wf_def by blast
    then show ?thesis by simp
  qed
  ultimately show ?thesis unfolding links_wf_def by blast
qed

lemma links_free:
  assumes "links_wf po st" "po d = None" "\<And>e. po e \<noteq> Some d"
  shows "links_wf po (st(d := None))"
proof -
  have 1: "a \<noteq> d" "b \<noteq> d" if "po a = Some b" for a b using that assms(2,3) by auto
  have 2: "\<exists>b. po a = Some b \<and> po b = Some a \<and> (st(d := None)) b = Some t"
    if a: "(st(d := None)) a = Some u" "partner u = Some t" for a u t
  proof -
    have "st a = Some u" using a by (auto split: if_splits)
    then obtain b where "po a = Some b" "po b = Some a" "st b = Some t"
      using assms(1) a(2) unfolding links_wf_def by blast
    then show ?thesis using 1 by auto
  qed
  show ?thesis
    unfolding links_wf_def using assms(1) 1 2 by (simp add: links_wf_def)
qed

lemma refs_wf_drop_peer:
  "refs_wf tmp H po d y \<Longrightarrow> po c = Some d \<Longrightarrow>
     refs_wf tmp H (po(c := None)) d (y\<lparr>c_refobj := remove1 (RefPeer c) (c_refobj y)\<rparr>)"
  by (auto simp: refs_wf_def)

lemma refs_wf_unpeer:
  "refs_wf tmp H po c x \<Longrightarrow> po c = Some d \<Longrightarrow> d \<noteq> c \<Longrightarrow> refs_wf tmp H (po(c := None)) c (x\<lparr>c_peer := None\<rparr>)"
  by (auto simp: refs_wf_def)

lemma refs_wf_drop_other:
  "refs_wf tmp H po e z \<Longrightarrow> po c = Some d \<Longrightarrow> e \<noteq> d \<Longrightarrow> refs_wf tmp H (po(c := None)) e z"
  by (auto simp: refs_wf_def)

lemma phase_wf_unpeer: "phase_wf tmp c x \<Longrightarrow> phase_wf tmp c (x\<lparr>c_peer := None\<rparr>)"
  by (simp add: phase_wf_def)

lemma core_drop_peer:
  assumes inv: "ipc_core tmp H w" and c: "chans w c = Some x" "c_peer x = Some d" "chans w d = Some y"
    and s: "partner (c_state x) = None"
  shows "ipc_core tmp H (w\<lparr>chans := (chans w)(c \<mapsto> x\<lparr>c_peer := None\<rparr>,
           d \<mapsto> y\<lparr>c_refobj := remove1 (RefPeer c) (c_refobj y)\<rparr>)\<rparr>)"
    (is "ipc_core tmp H ?w")
proof -
  have pc: "peers (chans w) c = Some d" "peers (chans w) d = c_peer y" using c by (auto simp: views)
  have cd: "c \<noteq> d" using inv pc unfolding ipc_core_def links_wf_def by blast
  have po: "peers (chans ?w) = (peers (chans w))(c := None)"
    using cd pc by (simp add: fun_upd_idem)
  have "states (chans ?w) = states (chans w)"
    using cd c by (simp add: fun_upd_idem views)
  moreover have "links_wf ((peers (chans w))(c := None)) (states (chans w))"
    using inv c s by (auto simp: ipc_core_def views intro: links_drop)
  moreover have "addrs_wf tmp H ?w" using inv c by (auto simp: ipc_core_def addrs_wf_def)
  moreover have "ports_wf H ?w" using inv by (simp add: ipc_core_def ports_wf_def)
  moreover have "chans_wf tmp H ?w"
    using inv c cd pc unfolding chans_wf_def po
    by (auto simp: ipc_core_def chans_wf_def phase_wf_remove_ref phase_wf_unpeer
        intro: refs_wf_drop_peer refs_wf_unpeer refs_wf_drop_other)
  ultimately show ?thesis using inv po by (simp add: ipc_core_def)
qed

text \<open>Freeing a channel whose last reference is gone.\<close>

definition reap :: "addr \<Rightarrow> kst \<Rightarrow> kst" where
  "reap c w = (case chans w c of
     Some x \<Rightarrow> if c_refobj x = [] then w\<lparr>chans := (chans w)(c := None)\<rparr> else w
   | None \<Rightarrow> w)"

lemma unreferenced:
  assumes "ipc_core tmp H w" "chans w c = Some x" "c_refobj x = []"
  shows "c_peer x = None" "c_node x = NodeClear" "c \<notin># H" "c \<notin> tmp" "peers (chans w) e \<noteq> Some c"
    "c \<notin> set (waiting_for_port_chan_list w)" "c \<notin> set (pends (ports w) p)"
  using ipc_core_chan [OF assms(1,2)] assms(3) by (auto simp: refs_wf_def node_wf_def)

lemma refs_wf_free:
  "refs_wf tmp H po e z \<Longrightarrow> po d = None \<Longrightarrow> refs_wf tmp H (po(d := None)) e z"
  by (simp add: fun_upd_idem)

lemma core_reap:
  assumes "ipc_core tmp H w"
  shows "ipc_core tmp H (reap c w)"
proof (cases "\<exists>x. chans w c = Some x \<and> c_refobj x = []")
  case False
  then show ?thesis using assms by (auto simp: reap_def split: option.split)
next
  case True
  then obtain x where x: "chans w c = Some x" "c_refobj x = []" by blast
  note u = unreferenced [OF assms x]
  let ?w = "w\<lparr>chans := (chans w)(c := None)\<rparr>"
  have po: "peers (chans ?w) = peers (chans w)" using u(1) x by (simp add: fun_upd_idem views)
  have "links_wf (peers (chans w)) (states (chans ?w))"
    using assms u x by (auto simp: ipc_core_def views intro: links_free)
  moreover have "addrs_wf tmp H ?w"
    using assms u by (auto simp: ipc_core_def addrs_wf_def)
  moreover have "ports_wf H ?w" using assms by (simp add: ipc_core_def ports_wf_def)
  moreover have "chans_wf tmp H ?w"
    using assms unfolding chans_wf_def po by (auto simp: ipc_core_def chans_wf_def)
  ultimately have "ipc_core tmp H ?w" using assms po by (simp add: ipc_core_def)
  then show ?thesis using x by (simp add: reap_def)
qed

lemma alive_reap:
  assumes "\<And>e x. chans w e = Some x \<Longrightarrow> e \<noteq> c \<Longrightarrow> c_refobj x \<noteq> []"
  shows "alive (reap c w)"
proof -
  have "c_refobj x \<noteq> []" if "chans (reap c w) e = Some x" for e x
    using that assms [of e x] by (cases "e = c") (auto simp: reap_def split: option.splits if_splits)
  then show ?thesis by (simp add: alive_def)
qed

end
