(* ===== verification/Ipc_Change.thy ===== *)
theory Ipc_Change
  imports Ipc_Inv
begin

text \<open>
  The remaining elementary changes of the IPC state: local references, the two lists a
  channel's node can be on, handles, set-up of channels and ports.
\<close>

section \<open>Local references\<close>

lemma refs_wf_tmp_other: "e \<noteq> c \<Longrightarrow> refs_wf (insert c tmp) H po e z = refs_wf tmp H po e z"
  by (simp add: refs_wf_def)

lemma refs_wf_tmp_less: "e \<noteq> c \<Longrightarrow> refs_wf (tmp - {c}) H po e z = refs_wf tmp H po e z"
  by (simp add: refs_wf_def)

lemma phase_wf_tmp_other:
  "e \<noteq> c \<Longrightarrow> phase_wf (insert c tmp) e z = phase_wf tmp e z"
  "e \<noteq> c \<Longrightarrow> phase_wf (tmp - {c}) e z = phase_wf tmp e z"
  by (simp_all add: phase_wf_def)

lemma core_tmp_add:
  assumes inv: "ipc_core tmp H w" and c: "chans w c = Some x" "c \<notin> tmp"
  shows "ipc_core (insert c tmp) H (w\<lparr>chans := (chans w)(c \<mapsto> x\<lparr>c_refobj := c_refobj x @ [RefTmp]\<rparr>)\<rparr>)"
    (is "ipc_core ?t H ?w")
proof -
  note k = ipc_core_chan [OF inv c(1)]
  have po: "peers (chans ?w) = peers (chans w)" "states (chans ?w) = states (chans w)"
    using c by (simp_all add: fun_upd_idem views)
  have "addrs_wf ?t H ?w" using inv c by (auto simp: ipc_core_def addrs_wf_def)
  moreover have "ports_wf H ?w" using inv by (simp add: ipc_core_def ports_wf_def)
  moreover have "chans_wf ?t H ?w"
  proof -
    have "refs_wf ?t H (peers (chans w)) c (x\<lparr>c_refobj := c_refobj x @ [RefTmp]\<rparr>)"
      using k(1) c by (auto simp: refs_wf_def)
    moreover have "phase_wf ?t c (x\<lparr>c_refobj := c_refobj x @ [RefTmp]\<rparr>)"
      using k(4) by (auto simp: phase_wf_def)
    ultimately show ?thesis
      using inv k unfolding chans_wf_def po
      by (auto simp: ipc_core_def chans_wf_def refs_wf_tmp_other phase_wf_tmp_other)
  qed
  ultimately show ?thesis using inv po by (simp add: ipc_core_def)
qed

lemma core_tmp_drop:
  assumes inv: "ipc_core tmp H w" and c: "chans w c = Some x"
    and s: "c_state x = IPC_CHAN_STATE_WAITING_FOR_PORT \<Longrightarrow> c_node x = NodeWaiting"
    and p: "c_peer x \<noteq> None \<Longrightarrow> c \<in># H \<or> c_node x \<noteq> NodeClear"
  shows "ipc_core (tmp - {c}) H (w\<lparr>chans := (chans w)(c \<mapsto> x\<lparr>c_refobj := remove1 RefTmp (c_refobj x)\<rparr>)\<rparr>)"
    (is "ipc_core ?t H ?w")
proof -
  note k = ipc_core_chan [OF inv c(1)]
  have po: "peers (chans ?w) = peers (chans w)" "states (chans ?w) = states (chans w)"
    using c by (simp_all add: fun_upd_idem views)
  have "addrs_wf ?t H ?w" using inv c by (auto simp: ipc_core_def addrs_wf_def)
  moreover have "ports_wf H ?w" using inv by (simp add: ipc_core_def ports_wf_def)
  moreover have "chans_wf ?t H ?w"
  proof -
    have "refs_wf ?t H (peers (chans w)) c (x\<lparr>c_refobj := remove1 RefTmp (c_refobj x)\<rparr>)"
      using k(1) c p by (auto simp: refs_wf_def)
    moreover have "phase_wf ?t c (x\<lparr>c_refobj := remove1 RefTmp (c_refobj x)\<rparr>)"
      using phase_wf_remove_ref [OF k(4), of RefTmp] s by (auto simp: phase_wf_def)
    ultimately show ?thesis
      using inv k unfolding chans_wf_def po
      by (auto simp: ipc_core_def chans_wf_def refs_wf_tmp_less phase_wf_tmp_other)
  qed
  ultimately show ?thesis using inv po by (simp add: ipc_core_def)
qed

section \<open>Leaving a list\<close>

lemma node_wf_waiting_other:
  "e \<noteq> c \<Longrightarrow> node_wf H (remove1 c wl) pd e z = node_wf H wl pd e z"
  by (simp add: node_wf_def)

lemma node_wf_pending_other:
  "e \<noteq> c \<Longrightarrow> node_wf H wl (pd(p := remove1 c (pd p))) e z = node_wf H wl pd e z"
  by (auto simp: node_wf_def)

lemma links_quiet:
  assumes "links_wf po st" "po c = None" "partner t = None" "\<And>e. po e \<noteq> Some c"
  shows "links_wf po (st(c \<mapsto> t))"
proof -
  have 1: "a \<noteq> c" "b \<noteq> c" if "po a = Some b" for a b using that assms(2,4) by auto
  have 2: "\<exists>b. po a = Some b \<and> po b = Some a \<and> (st(c \<mapsto> t)) b = Some v"
    if a: "(st(c \<mapsto> t)) a = Some u" "partner u = Some v" for a u v
  proof -
    have "st a = Some u" using a assms(3) by (auto split: if_splits)
    then obtain b where "po a = Some b" "po b = Some a" "st b = Some v"
      using assms(1) a(2) unfolding links_wf_def by blast
    then show ?thesis using 1 by auto
  qed
  show ?thesis unfolding links_wf_def using assms(1) 1 2 by (simp add: links_wf_def)
qed

text \<open>A channel that nobody points to and that points to nobody.\<close>

lemma waiting_unlinked:
  assumes "ipc_core tmp H w" "chans w c = Some x"
    "c_state x \<in> {IPC_CHAN_STATE_INVALID, IPC_CHAN_STATE_WAITING_FOR_PORT}"
  shows "c_peer x = None" "peers (chans w) e \<noteq> Some c"
proof -
  have l: "links_wf (peers (chans w)) (states (chans w))" using assms(1) by (simp add: ipc_core_def)
  have st: "states (chans w) c = Some (c_state x)" and po: "peers (chans w) c = c_peer x"
    using assms(2) by (simp_all add: views)
  show "peers (chans w) e \<noteq> Some c"
    using l st assms(3) unfolding links_wf_def by (metis empty_iff insert_iff)
  show "c_peer x = None"
    using l st po assms(3) unfolding links_wf_def by (metis empty_iff insert_iff option.exhaust)
qed

lemma core_leave_waiting:
  assumes inv: "ipc_core tmp H w" and c: "chans w c = Some x" "c_node x = NodeWaiting"
    and s: "s = IPC_CHAN_STATE_DISCONNECTING \<or> s = IPC_CHAN_STATE_WAITING_FOR_PORT \<and> c \<in> tmp"
  shows "ipc_core tmp H (w\<lparr>chans := (chans w)(c \<mapsto> x\<lparr>c_node := NodeClear, c_refobj := remove1 RefNode (c_refobj x),
           c_state := s, c_path := pa\<rparr>),
         waiting_for_port_chan_list := remove1 c (waiting_for_port_chan_list w)\<rparr>)"
    (is "ipc_core tmp H ?w")
proof -
  note k = ipc_core_chan [OF inv c(1)]
  have st: "c_state x = IPC_CHAN_STATE_WAITING_FOR_PORT" using k(3) c by (simp add: node_wf_def)
  note u = waiting_unlinked [OF inv c(1)]
  have pn: "c_peer x = None" "\<And>e. peers (chans w) e \<noteq> Some c" using u st by auto
  have po: "peers (chans ?w) = peers (chans w)" using c by (simp add: fun_upd_idem views)
  have "links_wf (peers (chans ?w)) (states (chans ?w))"
    using inv c pn s unfolding po by (auto simp: ipc_core_def views intro!: links_quiet)
  moreover have "addrs_wf tmp H ?w" using inv c by (auto simp: ipc_core_def addrs_wf_def dest: notin_set_remove1)
  moreover have "ports_wf H ?w" using inv by (simp add: ipc_core_def ports_wf_def)
  moreover have "chans_wf tmp H ?w"
  proof -
    let ?x = "x\<lparr>c_node := NodeClear, c_refobj := remove1 RefNode (c_refobj x), c_state := s, c_path := pa\<rparr>"
    have "distinct (waiting_for_port_chan_list w)" using inv by (simp add: ipc_core_def addrs_wf_def)
    then have "node_wf H (remove1 c (waiting_for_port_chan_list w)) (pends (ports w)) c ?x"
      using k(3) c by (auto simp: node_wf_def)
    moreover have "refs_wf tmp H (peers (chans w)) c ?x" using k(1) pn c by (auto simp: refs_wf_def)
    moreover have "hdl_wf H c ?x" using k(2) by simp
    moreover have "phase_wf tmp c ?x" using k(4) s by (auto simp: phase_wf_def)
    ultimately show ?thesis
      using inv unfolding chans_wf_def po
      by (auto simp: ipc_core_def chans_wf_def node_wf_waiting_other)
  qed
  ultimately show ?thesis using inv by (simp add: ipc_core_def)
qed

lemma core_leave_pending:
  assumes inv: "ipc_core tmp H w" and c: "chans w c = Some x" "c_node x = NodePending p"
    and p: "ports w p = Some q" and s: "c_peer x = None \<or> c \<in> tmp"
  shows "ipc_core tmp H (w\<lparr>chans := (chans w)(c \<mapsto> x\<lparr>c_node := NodeClear, c_refobj := remove1 RefNode (c_refobj x)\<rparr>),
         ports := (ports w)(p \<mapsto> q\<lparr>p_pending_list := remove1 c (p_pending_list q),
           p_handle := (p_handle q)\<lparr>refcnt := refcnt (p_handle q) - 1\<rparr>\<rparr>)\<rparr>)"
    (is "ipc_core tmp H ?w")
proof -
  note k = ipc_core_chan [OF inv c(1)] and kp = ipc_core_port [OF inv p]
  have po: "peers (chans ?w) = peers (chans w)" "states (chans ?w) = states (chans w)"
    using c by (simp_all add: fun_upd_idem views)
  have pd: "pends (ports ?w) = (pends (ports w))(p := remove1 c (pends (ports w) p))"
    using p by (simp add: views)
  have "c \<in> set (pends (ports w) p)" using k(3) c(2) unfolding node_wf_def by blast
  then have mem: "c \<in> set (p_pending_list q)" "distinct (p_pending_list q)"
    using kp pends_Some [of "ports w", OF p] by (simp_all add: port_wf_def)
  have "addrs_wf tmp H ?w"
  proof -
    have "set (pends (ports ?w) a) \<subseteq> set (pends (ports w) a)" for a
      unfolding pd by (simp add: set_remove1_subset)
    moreover have "dom (chans ?w) = dom (chans w)" "dom (ports ?w) = dom (ports w)" using c(1) p by auto
    ultimately show ?thesis using inv unfolding ipc_core_def addrs_wf_def by (simp del: pends_upd dom_fun_upd) blast
  qed
  moreover have "ports_wf H ?w"
  proof -
    have "int (length (p_pending_list q)) - 1 = int (length (remove1 c (p_pending_list q)))"
      using mem(1) length_pos_if_in_set [OF mem(1)] by (simp add: length_remove1 of_nat_diff Suc_leI)
    then have "port_wf H (ipc_port_list w) p (q\<lparr>p_pending_list := remove1 c (p_pending_list q),
           p_handle := (p_handle q)\<lparr>refcnt := refcnt (p_handle q) - 1\<rparr>\<rparr>)"
      using kp mem by (auto simp: port_wf_def simp del: length_remove1)
    then show ?thesis using inv p by (auto simp: ipc_core_def ports_wf_def split: if_splits)
  qed
  moreover have "chans_wf tmp H ?w"
  proof -
    let ?x = "x\<lparr>c_node := NodeClear, c_refobj := remove1 RefNode (c_refobj x)\<rparr>"
    have "node_wf H (waiting_for_port_chan_list w) ((pends (ports w))(p := remove1 c (pends (ports w) p))) c ?x"
      using k(3) c mem p by (auto simp: node_wf_def views)
    moreover have "refs_wf tmp H (peers (chans w)) c ?x" using k(1) c s by (auto simp: refs_wf_def)
    moreover have "hdl_wf H c ?x" using k(2) by simp
    moreover have "phase_wf tmp c ?x" using phase_wf_remove_ref [OF k(4), of RefNode] c by (simp add: phase_wf_def)
    ultimately show ?thesis
      using inv unfolding chans_wf_def po pd
      by (auto simp: ipc_core_def chans_wf_def node_wf_pending_other)
  qed
  ultimately show ?thesis using inv po by (simp add: ipc_core_def)
qed

section \<open>New channels\<close>

lemma fresh_addr:
  assumes "ipc_core tmp H w"
  shows "chans w (next_addr w) = None" "ports w (next_addr w) = None" "next_addr w \<notin># H" "next_addr w \<notin> tmp"
    "next_addr w \<notin> set (waiting_for_port_chan_list w)" "next_addr w \<notin> set (pends (ports w) p)"
    "next_addr w \<notin> set (ipc_port_list w)"
proof -
  have a: "addrs_wf tmp H w" using assms by (simp add: ipc_core_def)
  have "next_addr w \<notin> dom (chans w) \<union> dom (ports w)" using a unfolding addrs_wf_def by blast
  then show "chans w (next_addr w) = None" "ports w (next_addr w) = None" "next_addr w \<notin># H" "next_addr w \<notin> tmp"
    "next_addr w \<notin> set (waiting_for_port_chan_list w)" "next_addr w \<notin> set (pends (ports w) p)"
    "next_addr w \<notin> set (ipc_port_list w)"
    using a unfolding addrs_wf_def by auto
qed

lemma peer_live: "ipc_core tmp H w \<Longrightarrow> peers (chans w) c = Some d \<Longrightarrow> chans w d \<noteq> None"
  unfolding ipc_core_def links_wf_def by (metis insertI1 states_None_iff)

definition new_chan :: "u32 \<Rightarrow> uuid_ptr \<Rightarrow> ipc_chan" where
  "new_chan flags uuid = \<lparr>c_refobj = [RefTmp], c_peer = None, c_uuid = uuid, c_state = IPC_CHAN_STATE_INVALID,
     c_flags = flags, c_aux_state = 0, c_handle = zero_handle, c_node = NodeClear,
     c_msg_queue = None, c_path = None\<rparr>"

lemma core_alloc:
  assumes inv: "ipc_core tmp H w" and c: "c = next_addr w"
  shows "ipc_core (insert c tmp) H (w\<lparr>next_addr := Suc c, chans := (chans w)(c \<mapsto> new_chan flags uuid)\<rparr>)"
    (is "ipc_core ?t H ?w")
proof -
  note f = fresh_addr [OF inv, folded c]
  have n: "peers (chans w) c = None" "\<And>e. peers (chans w) e \<noteq> Some c"
    using f(1) peer_live [OF inv, of _ c] by (simp add: peers_def) (use f(1) peer_live [OF inv, of _ c] in blast)
  have po: "peers (chans ?w) = peers (chans w)"
    using n by (simp add: fun_upd_idem new_chan_def)
  have "links_wf (peers (chans ?w)) (states (chans ?w))"
    using inv n unfolding po by (auto simp: ipc_core_def new_chan_def intro!: links_quiet)
  moreover have "addrs_wf ?t H ?w" using inv f(2) c unfolding ipc_core_def addrs_wf_def by (auto simp: less_Suc_eq)
  moreover have "ports_wf H ?w" using inv by (simp add: ipc_core_def ports_wf_def)
  moreover have "chans_wf ?t H ?w"
  proof -
    have "refs_wf ?t H (peers (chans w)) c (new_chan flags uuid)"
      "hdl_wf H c (new_chan flags uuid)" "phase_wf ?t c (new_chan flags uuid)"
      "node_wf H (waiting_for_port_chan_list w) (pends (ports w)) c (new_chan flags uuid)"
      using n f by (auto simp: refs_wf_def hdl_wf_def phase_wf_def node_wf_def new_chan_def zero_handle_def
          not_in_iff)
    then show ?thesis
      using inv unfolding chans_wf_def po
      by (auto simp: ipc_core_def chans_wf_def refs_wf_tmp_other phase_wf_tmp_other)
  qed
  ultimately show ?thesis using inv by (simp add: ipc_core_def)
qed

section \<open>Connecting a client with a new server channel\<close>

lemma links_connect:
  assumes "links_wf po st" "po c = None" "po s = None" "\<And>e. po e \<noteq> Some c" "\<And>e. po e \<noteq> Some s" "s \<noteq> c"
  shows "links_wf (po(c \<mapsto> s, s \<mapsto> c)) (st(c \<mapsto> IPC_CHAN_STATE_CONNECTING, s \<mapsto> IPC_CHAN_STATE_ACCEPTING))"
    (is "links_wf ?po ?st")
proof -
  have 1: "a \<noteq> c" "b \<noteq> c" "a \<noteq> s" "b \<noteq> s" if "po a = Some b" for a b using that assms(2-5) by auto
  have 2: "\<exists>b. ?po a = Some b \<and> ?po b = Some a \<and> ?st b = Some v"
    if a: "?st a = Some u" "partner u = Some v" for a u v
  proof (cases "a = c \<or> a = s")
    case True
    then show ?thesis using a assms(6) by auto
  next
    case False
    then have "st a = Some u" using a by simp
    then obtain b where b: "po a = Some b" "po b = Some a" "st b = Some v"
      using assms(1) a(2) unfolding links_wf_def by blast
    then show ?thesis using 1 by auto
  qed
  have 3: "b \<noteq> a \<and> (?po b = None \<or> ?po b = Some a) \<and>
        ?st a \<notin> {None, Some IPC_CHAN_STATE_INVALID, Some IPC_CHAN_STATE_WAITING_FOR_PORT} \<and>
        ?st b \<notin> {None, Some IPC_CHAN_STATE_INVALID, Some IPC_CHAN_STATE_WAITING_FOR_PORT}"
    if "?po a = Some b" for a b
  proof (cases "a = c \<or> a = s")
    case True
    then show ?thesis using that assms(6) by auto
  next
    case False
    then have "po a = Some b" using that by simp
    moreover from this assms(1) have "b \<noteq> a \<and> (po b = None \<or> po b = Some a) \<and>
        st a \<notin> {None, Some IPC_CHAN_STATE_INVALID, Some IPC_CHAN_STATE_WAITING_FOR_PORT} \<and>
        st b \<notin> {None, Some IPC_CHAN_STATE_INVALID, Some IPC_CHAN_STATE_WAITING_FOR_PORT}"
      unfolding links_wf_def by blast
    ultimately show ?thesis using 1 by simp
  qed
  show ?thesis unfolding links_wf_def using 2 3 by blast
qed

lemma refs_wf_connect_other:
  assumes "refs_wf tmp H po e z" "po c = None" "po s = None" "e \<noteq> c" "e \<noteq> s"
  shows "refs_wf (tmp - {s}) H (po(c \<mapsto> s, s \<mapsto> c)) e z"
  using assms unfolding refs_wf_def by auto

lemma node_wf_pending_add_other:
  "e \<noteq> s \<Longrightarrow> node_wf H wl (pd(p := pd p @ [s])) e z = node_wf H wl pd e z"
  by (auto simp: node_wf_def)

text \<open>The two ends of a new connection, as \<^verbatim>\<open>port_attach_client\<close> leaves them.\<close>

definition attached_client :: "addr \<Rightarrow> ipc_msg_queue \<Rightarrow> ipc_chan \<Rightarrow> ipc_chan" where
  "attached_client s mq x = x\<lparr>c_msg_queue := Some mq, c_state := IPC_CHAN_STATE_CONNECTING, c_peer := Some s,
     c_refobj := c_refobj x @ [RefPeer s]\<rparr>"

definition attached_server :: "addr \<Rightarrow> addr \<Rightarrow> ipc_msg_queue \<Rightarrow> ipc_chan \<Rightarrow> ipc_chan" where
  "attached_server c p mq y = y\<lparr>c_msg_queue := Some mq, c_state := IPC_CHAN_STATE_ACCEPTING, c_peer := Some c,
     c_refobj := [RefPeer c, RefNode], c_node := NodePending p\<rparr>"

lemma core_attach:
  assumes inv: "ipc_core tmp H w"
    and c: "chans w c = Some x" "c \<in> tmp" "c_node x = NodeClear"
      "c_state x \<in> {IPC_CHAN_STATE_INVALID, IPC_CHAN_STATE_WAITING_FOR_PORT}"
    and s: "chans w s = Some y" "s \<in> tmp" "c_state y = IPC_CHAN_STATE_INVALID" "s \<noteq> c"
      "c_flags y AND IPC_CHAN_FLAG_SERVER \<noteq> 0"
    and p: "ports w p = Some q" and mq: "mq_wf cmq" "mq_wf smq"
  shows "ipc_core (tmp - {s}) H (w\<lparr>chans := (chans w)(c \<mapsto> attached_client s cmq x, s \<mapsto> attached_server c p smq y),
         ports := (ports w)(p \<mapsto> q\<lparr>p_pending_list := p_pending_list q @ [s],
           p_handle := (p_handle q)\<lparr>refcnt := refcnt (p_handle q) + 1\<rparr>\<rparr>)\<rparr>)"
    (is "ipc_core ?t H ?w")
proof -
  note kc = ipc_core_chan [OF inv c(1)] and ks = ipc_core_chan [OF inv s(1)] and kp = ipc_core_port [OF inv p]
  have nc: "c_peer x = None" "\<And>e. peers (chans w) e \<noteq> Some c" using waiting_unlinked [OF inv c(1)] c(4) by auto
  have ns: "c_peer y = None" "\<And>e. peers (chans w) e \<noteq> Some s" using waiting_unlinked [OF inv s(1)] s(3) by auto
  have pn: "peers (chans w) c = None" "peers (chans w) s = None" using nc ns c s by (auto simp: views)
  have sr: "c_refobj y = [RefTmp]"
  proof -
    have "set (c_refobj y) = {RefTmp}" "distinct (c_refobj y)" using ks(1,4) s(2,3) by (auto simp: refs_wf_def phase_wf_def)
    then show ?thesis by (metis distinct_singleton empty_iff insert_iff list.set_intros(1,2) list.exhaust
          distinct.simps(2) list.set(1) set_empty2)
  qed
  have sn: "c_node y = NodeClear" "s \<notin># H" using ks(1) sr by (auto simp: refs_wf_def)
  have po: "peers (chans ?w) = (peers (chans w))(c \<mapsto> s, s \<mapsto> c)"
    by (simp add: attached_client_def attached_server_def)
  have pd: "pends (ports ?w) = (pends (ports w))(p := pends (ports w) p @ [s])" using p by (simp add: views)
  have np: "s \<notin> set (pends (ports w) p')" "s \<notin> set (waiting_for_port_chan_list w)" for p'
    using ks(3) sn by (auto simp: node_wf_def)
  have "links_wf (peers (chans ?w)) (states (chans ?w))"
  proof -
    have "links_wf (peers (chans w)) (states (chans w))" using inv by (simp add: ipc_core_def)
    from links_connect [OF this pn nc(2) ns(2) s(4)] show ?thesis
      by (simp add: attached_client_def attached_server_def)
  qed
  moreover have "addrs_wf ?t H ?w"
    using inv c(1) s(1) p unfolding ipc_core_def addrs_wf_def pd by (auto simp: subset_eq)
  moreover have "ports_wf H ?w"
  proof -
    have "port_wf H (ipc_port_list w) p (q\<lparr>p_pending_list := p_pending_list q @ [s],
           p_handle := (p_handle q)\<lparr>refcnt := refcnt (p_handle q) + 1\<rparr>\<rparr>)"
      using kp np(1) [of p] pends_Some [of "ports w", OF p] by (auto simp: port_wf_def)
    then show ?thesis using inv p by (auto simp: ipc_core_def ports_wf_def split: if_splits)
  qed
  moreover have "chans_wf ?t H ?w"
  proof -
    have "refs_wf ?t H ((peers (chans w))(c \<mapsto> s, s \<mapsto> c)) c (attached_client s cmq x)"
      using kc(1) nc ns pn c s by (auto simp: refs_wf_def attached_client_def)
    moreover have "refs_wf ?t H ((peers (chans w))(c \<mapsto> s, s \<mapsto> c)) s (attached_server c p smq y)"
      using ks(1) nc ns pn c s sn by (auto simp: refs_wf_def attached_server_def)
    moreover have "hdl_wf H c (attached_client s cmq x)" "hdl_wf H s (attached_server c p smq y)"
      using kc(2) ks(2) by (simp_all add: attached_client_def attached_server_def)
    moreover have "node_wf H (waiting_for_port_chan_list w) ((pends (ports w))(p := pends (ports w) p @ [s])) c
        (attached_client s cmq x)"
      using kc(3) c(3) s(4) by (auto simp: node_wf_def attached_client_def)
    moreover have "node_wf H (waiting_for_port_chan_list w) ((pends (ports w))(p := pends (ports w) p @ [s])) s
        (attached_server c p smq y)"
      using np sn s(5) by (auto simp: node_wf_def attached_server_def)
    moreover have "phase_wf ?t c (attached_client s cmq x)" "phase_wf ?t s (attached_server c p smq y)"
      using mq by (auto simp: phase_wf_def attached_client_def attached_server_def)
    ultimately show ?thesis
      using inv pn unfolding chans_wf_def po pd
      by (auto simp: ipc_core_def chans_wf_def node_wf_pending_add_other phase_wf_tmp_other
          intro!: refs_wf_connect_other)
  qed
  ultimately show ?thesis using inv by (simp add: ipc_core_def)
qed

section \<open>Handles\<close>

lemma add_holder_other:
  "e \<noteq> a \<Longrightarrow> refs_wf tmp (add_mset a H) po e z = refs_wf tmp H po e z"
  "e \<noteq> a \<Longrightarrow> hdl_wf (add_mset a H) e z = hdl_wf H e z"
  "e \<noteq> a \<Longrightarrow> node_wf (add_mset a H) wl pd e z = node_wf H wl pd e z"
  "e \<noteq> a \<Longrightarrow> port_wf (add_mset a H) pl e q = port_wf H pl e q"
  by (simp_all add: refs_wf_def hdl_wf_def node_wf_def port_wf_def)

lemma drop_holder_other:
  "e \<noteq> a \<Longrightarrow> refs_wf tmp (H - {#a#}) po e z = refs_wf tmp H po e z"
  "e \<noteq> a \<Longrightarrow> hdl_wf (H - {#a#}) e z = hdl_wf H e z"
  "e \<noteq> a \<Longrightarrow> node_wf (H - {#a#}) wl pd e z = node_wf H wl pd e z"
  "e \<noteq> a \<Longrightarrow> port_wf (H - {#a#}) pl e q = port_wf H pl e q"
  by (simp_all add: refs_wf_def hdl_wf_def node_wf_def port_wf_def in_diff_count count_greater_zero_iff)

lemma port_wf_cong:
  assumes "count H' p = count H p" "p \<in> set pl' \<longleftrightarrow> p \<in> set pl"
  shows "port_wf H' pl' p x = port_wf H pl p x"
proof -
  have "p \<in># H' \<longleftrightarrow> p \<in># H" using assms(1) by (simp flip: count_greater_zero_iff)
  then show ?thesis using assms by (simp add: port_wf_def)
qed

lemma ports_wf_add_chan: "ports_wf H w \<Longrightarrow> ports w a = None \<Longrightarrow> ports_wf (add_mset a H) w"
  unfolding ports_wf_def by (metis add_holder_other(4) option.distinct(1))

lemma core_disjoint: "ipc_core tmp H w \<Longrightarrow> chans w a = Some x \<Longrightarrow> ports w a = None"
  unfolding ipc_core_def addrs_wf_def by blast

text \<open>A channel gets its first handle reference and loses its local one.\<close>

lemma core_handle_new:
  assumes inv: "ipc_core tmp H w"
    and c: "chans w c = Some x" "c \<in> tmp" "c \<notin># H" "c_node x = NodeClear"
      "c_state x \<noteq> IPC_CHAN_STATE_INVALID" "c_state x \<noteq> IPC_CHAN_STATE_WAITING_FOR_PORT"
    and h: "refcnt h = 1" "h_ops h = OPS_CHAN"
  shows "ipc_core (tmp - {c}) (add_mset c H)
      (w\<lparr>chans := (chans w)(c \<mapsto> x\<lparr>c_handle := h, c_refobj := remove1 RefTmp (c_refobj x @ [RefHandle])\<rparr>)\<rparr>)"
    (is "ipc_core ?t ?H ?w")
proof -
  note k = ipc_core_chan [OF inv c(1)]
  have po: "peers (chans ?w) = peers (chans w)" "states (chans ?w) = states (chans w)"
    using c by (simp_all add: fun_upd_idem views)
  have "addrs_wf ?t ?H ?w" using inv c(1) by (auto simp: ipc_core_def addrs_wf_def)
  moreover have "ports_wf ?H ?w"
    using inv ports_wf_add_chan [of H ?w c] core_disjoint [OF inv c(1)] by (simp add: ipc_core_def ports_wf_def)
  moreover have "chans_wf ?t ?H ?w"
  proof -
    let ?x = "x\<lparr>c_handle := h, c_refobj := remove1 RefTmp (c_refobj x @ [RefHandle])\<rparr>"
    have "refs_wf ?t ?H (peers (chans w)) c ?x"
      using k(1) c by (auto simp: refs_wf_def remove1_append)
    moreover have "hdl_wf ?H c ?x" using c(3) h by (simp add: hdl_wf_def not_in_iff)
    moreover have "node_wf ?H (waiting_for_port_chan_list w) (pends (ports w)) c ?x"
      using k(3) c(4) by (simp add: node_wf_def)
    moreover have "phase_wf ?t c ?x" using k(4) c by (simp add: phase_wf_def)
    ultimately show ?thesis
      using inv unfolding chans_wf_def po
      by (auto simp: ipc_core_def chans_wf_def refs_wf_tmp_less phase_wf_tmp_other add_holder_other)
  qed
  ultimately show ?thesis using inv po by (simp add: ipc_core_def)
qed

text \<open>A new channel starts waiting for a port.\<close>

lemma core_wait:
  assumes inv: "ipc_core tmp H w" and c: "chans w c = Some x" "c \<in> tmp" "c \<notin># H" "c_state x = IPC_CHAN_STATE_INVALID"
    and h: "refcnt h = 1" "h_ops h = OPS_CHAN"
  shows "ipc_core (tmp - {c}) (add_mset c H)
      (w\<lparr>chans := (chans w)(c \<mapsto> x\<lparr>c_path := Some pa, c_state := IPC_CHAN_STATE_WAITING_FOR_PORT, c_node := NodeWaiting,
            c_handle := h, c_refobj := [RefNode, RefHandle]\<rparr>),
         waiting_for_port_chan_list := waiting_for_port_chan_list w @ [c]\<rparr>)"
    (is "ipc_core ?t ?H ?w")
proof -
  note k = ipc_core_chan [OF inv c(1)]
  have n: "c_peer x = None" "\<And>e. peers (chans w) e \<noteq> Some c" using waiting_unlinked [OF inv c(1)] c(4) by auto
  have pc: "peers (chans w) c = None" using n(1) c(1) by (simp add: views)
  have po: "peers (chans ?w) = peers (chans w)" using c by (simp add: fun_upd_idem views)
  have nc: "c_node x = NodeClear" using k(1,4) c(4) by (auto simp: refs_wf_def phase_wf_def)
  have "links_wf (peers (chans ?w)) (states (chans ?w))"
    using inv n pc unfolding po by (auto simp: ipc_core_def intro!: links_quiet)
  moreover have "addrs_wf ?t ?H ?w"
  proof -
    have "c \<notin> set (waiting_for_port_chan_list w)" using k(3) nc by (simp add: node_wf_def)
    then show ?thesis using inv c(1) by (auto simp: ipc_core_def addrs_wf_def)
  qed
  moreover have "ports_wf ?H ?w"
    using inv ports_wf_add_chan [of H ?w c] core_disjoint [OF inv c(1)] by (simp add: ipc_core_def ports_wf_def)
  moreover have "chans_wf ?t ?H ?w"
  proof -
    let ?x = "x\<lparr>c_path := Some pa, c_state := IPC_CHAN_STATE_WAITING_FOR_PORT, c_node := NodeWaiting,
            c_handle := h, c_refobj := [RefNode, RefHandle]\<rparr>"
    have "refs_wf ?t ?H (peers (chans w)) c ?x" using n by (simp add: refs_wf_def)
    moreover have "hdl_wf ?H c ?x" using c(3) h by (simp add: hdl_wf_def not_in_iff)
    moreover have "node_wf ?H (waiting_for_port_chan_list w @ [c]) (pends (ports w)) c ?x"
      using k(3) nc by (simp add: node_wf_def)
    moreover have "phase_wf ?t c ?x" using k(4) n by (simp add: phase_wf_def)
    moreover have "node_wf ?H (waiting_for_port_chan_list w @ [c]) (pends (ports w)) e z =
        node_wf H (waiting_for_port_chan_list w) (pends (ports w)) e z" if "e \<noteq> c" for e z
      using that by (simp add: node_wf_def)
    ultimately show ?thesis
      using inv unfolding chans_wf_def po
      by (auto simp: ipc_core_def chans_wf_def refs_wf_tmp_less phase_wf_tmp_other add_holder_other(1,2))
  qed
  ultimately show ?thesis using inv by (simp add: ipc_core_def)
qed

text \<open>A further handle reference, one less, and other changes of a handle.\<close>

lemma core_chan_handle:
  assumes inv: "ipc_core tmp H w" and c: "chans w c = Some x" "c \<in># H" "c \<in># H'" "\<And>e. e \<noteq> c \<Longrightarrow> count H' e = count H e"
    and h: "refcnt h = int (count H' c)" "h_ops h = OPS_CHAN"
  shows "ipc_core tmp H' (w\<lparr>chans := (chans w)(c \<mapsto> x\<lparr>c_handle := h\<rparr>)\<rparr>)"
    (is "ipc_core tmp ?H ?w")
proof -
  note k = ipc_core_chan [OF inv c(1)]
  have m: "e \<in># H' \<longleftrightarrow> e \<in># H" for e using c(2-4) by (cases "e = c") (auto simp flip: count_greater_zero_iff)
  have po: "peers (chans ?w) = peers (chans w)" "states (chans ?w) = states (chans w)"
    using c by (simp_all add: fun_upd_idem views)
  have "addrs_wf tmp ?H ?w" using inv c(1) m by (auto simp: ipc_core_def addrs_wf_def subset_eq)
  moreover have "ports_wf ?H ?w"
  proof -
    have "count H' p = count H p" if "ports w p = Some q" for p q
      using c(4) [of p] core_disjoint [OF inv c(1)] that by (cases "p = c") auto
    then have "port_wf H' (ipc_port_list w) p q" if "ports w p = Some q" for p q
      using ipc_core_port [OF inv that] port_wf_cong [of H' p H "ipc_port_list w" "ipc_port_list w"] that by simp
    then show ?thesis using inv by (simp add: ipc_core_def ports_wf_def)
  qed
  moreover have "chans_wf tmp ?H ?w"
  proof -
    have "refs_wf tmp H' (peers (chans w)) e z = refs_wf tmp H (peers (chans w)) e z"
      "node_wf H' (waiting_for_port_chan_list w) (pends (ports w)) e z =
       node_wf H (waiting_for_port_chan_list w) (pends (ports w)) e z"
      "e \<noteq> c \<Longrightarrow> hdl_wf H' e z = hdl_wf H e z" for e z
      using m c(4) by (simp_all add: refs_wf_def node_wf_def hdl_wf_def)
    moreover have "hdl_wf H' c (x\<lparr>c_handle := h\<rparr>)" using h by (simp add: hdl_wf_def)
    ultimately show ?thesis
      using inv c(1) unfolding chans_wf_def po by (auto simp: ipc_core_def chans_wf_def)
  qed
  ultimately show ?thesis using inv po by (simp add: ipc_core_def)
qed

text \<open>The last handle reference on a quiet channel goes.\<close>

lemma core_chan_unhandle:
  assumes inv: "ipc_core tmp H w" and c: "chans w c = Some x" "count H c = 1" "c_peer x = None"
      "c_state x \<noteq> IPC_CHAN_STATE_WAITING_FOR_PORT"
    and h: "refcnt h = 0"
  shows "ipc_core tmp (H - {#c#}) (w\<lparr>chans := (chans w)(c \<mapsto> x\<lparr>c_handle := h, c_refobj := remove1 RefHandle (c_refobj x)\<rparr>)\<rparr>)"
    (is "ipc_core tmp ?H ?w")
proof -
  note k = ipc_core_chan [OF inv c(1)]
  have nc: "c \<notin># H - {#c#}" using c(2) by (simp add: not_in_iff)
  have H: "H = add_mset c (H - {#c#})" using c(2) by (metis count_eq_zero_iff insert_DiffM zero_neq_one)
  have po: "peers (chans ?w) = peers (chans w)" "states (chans ?w) = states (chans w)"
    using c by (simp_all add: fun_upd_idem views)
  have "c \<in># H" using c(2) by (metis count_inI zero_neq_one)
  then have node: "c_node x = NodeClear" using k(3) c(4) by (cases "c_node x") (auto simp: node_wf_def)
  have "addrs_wf tmp ?H ?w" using inv c(1) by (auto simp: ipc_core_def addrs_wf_def dest: in_diffD)
  moreover have "ports_wf ?H ?w"
  proof -
    have "p \<noteq> c" if "ports w p = Some q" for p q using core_disjoint [OF inv c(1)] that by auto
    then have "port_wf ?H pl p q = port_wf H pl p q" if "ports w p = Some q" for p q pl
      using that drop_holder_other(4) [of p c] by simp
    then show ?thesis using inv by (simp add: ipc_core_def ports_wf_def)
  qed
  moreover have "chans_wf tmp ?H ?w"
  proof -
    let ?x = "x\<lparr>c_handle := h, c_refobj := remove1 RefHandle (c_refobj x)\<rparr>"
    have "refs_wf tmp ?H (peers (chans w)) c ?x" using k(1) c(3) nc by (auto simp: refs_wf_def)
    moreover have "hdl_wf ?H c ?x" using h nc c(2) by (simp add: hdl_wf_def)
    moreover have "node_wf ?H (waiting_for_port_chan_list w) (pends (ports w)) c ?x" using k(3) node by (simp add: node_wf_def)
    moreover have "phase_wf tmp c ?x" using phase_wf_remove_ref [OF k(4), of RefHandle] by (simp add: phase_wf_def)
    moreover have "refs_wf tmp ?H (peers (chans w)) e z = refs_wf tmp H (peers (chans w)) e z"
      "hdl_wf ?H e z = hdl_wf H e z"
      "node_wf ?H (waiting_for_port_chan_list w) (pends (ports w)) e z = node_wf H (waiting_for_port_chan_list w) (pends (ports w)) e z"
      if "e \<noteq> c" for e z
      using that by (simp_all add: drop_holder_other)
    ultimately show ?thesis
      using inv unfolding chans_wf_def po by (auto simp: ipc_core_def chans_wf_def)
  qed
  ultimately show ?thesis using inv po by (simp add: ipc_core_def)
qed

section \<open>Accepting\<close>

lemma links_accept:
  assumes "links_wf po st" "po s = Some c" "po c = Some s" "s \<noteq> c"
  shows "links_wf po (st(s \<mapsto> IPC_CHAN_STATE_CONNECTED, c \<mapsto> IPC_CHAN_STATE_CONNECTED))"
    (is "links_wf po ?st")
proof -
  have "\<exists>b. po a = Some b \<and> po b = Some a \<and> ?st b = Some v" if a: "?st a = Some u" "partner u = Some v" for a u v
  proof (cases "a = c \<or> a = s")
    case True
    then show ?thesis using a assms by auto
  next
    case False
    then have "st a = Some u" using a by simp
    then obtain b where b: "po a = Some b" "po b = Some a" "st b = Some v"
      using assms(1) a(2) unfolding links_wf_def by blast
    then have "b \<noteq> c" "b \<noteq> s" using False assms(2,3) by auto
    then show ?thesis using b by simp
  qed
  moreover have "b \<noteq> a \<and> (po b = None \<or> po b = Some a) \<and>
        ?st a \<notin> {None, Some IPC_CHAN_STATE_INVALID, Some IPC_CHAN_STATE_WAITING_FOR_PORT} \<and>
        ?st b \<notin> {None, Some IPC_CHAN_STATE_INVALID, Some IPC_CHAN_STATE_WAITING_FOR_PORT}"
    if "po a = Some b" for a b
  proof -
    have "b \<noteq> a \<and> (po b = None \<or> po b = Some a) \<and>
        st a \<notin> {None, Some IPC_CHAN_STATE_INVALID, Some IPC_CHAN_STATE_WAITING_FOR_PORT} \<and>
        st b \<notin> {None, Some IPC_CHAN_STATE_INVALID, Some IPC_CHAN_STATE_WAITING_FOR_PORT}"
      using that assms(1) unfolding links_wf_def by blast
    then show ?thesis by simp
  qed
  ultimately show ?thesis unfolding links_wf_def by blast
qed

lemma core_connected:
  assumes inv: "ipc_core tmp H w"
    and s: "chans w s = Some y" "c_peer y = Some c" "c_node y = NodeClear" and c: "chans w c = Some x" "c_peer x = Some s"
  shows "ipc_core tmp H (w\<lparr>chans := (chans w)(s \<mapsto> y\<lparr>c_state := IPC_CHAN_STATE_CONNECTED\<rparr>,
           c \<mapsto> x\<lparr>c_state := IPC_CHAN_STATE_CONNECTED, c_aux_state := a\<rparr>)\<rparr>)"
    (is "ipc_core tmp H ?w")
proof -
  note ks = ipc_core_chan [OF inv s(1)] and kc = ipc_core_chan [OF inv c(1)]
  have l: "links_wf (peers (chans w)) (states (chans w))" using inv by (simp add: ipc_core_def)
  have p: "peers (chans w) s = Some c" "peers (chans w) c = Some s" using s c by (simp_all add: views)
  have sc: "s \<noteq> c" using l p(1) unfolding links_wf_def by blast
  have po: "peers (chans ?w) = peers (chans w)" using s c sc by (simp add: fun_upd_idem views)
  have nw: "c_state x \<noteq> IPC_CHAN_STATE_WAITING_FOR_PORT"
    using waiting_unlinked(1) [OF inv c(1)] c(2) by auto
  then have "c_node x \<noteq> NodeWaiting" using kc(3) by (auto simp: node_wf_def)
  then have "node_wf H (waiting_for_port_chan_list w) (pends (ports w)) c
        (x\<lparr>c_state := IPC_CHAN_STATE_CONNECTED, c_aux_state := a\<rparr>)"
      "node_wf H (waiting_for_port_chan_list w) (pends (ports w)) s (y\<lparr>c_state := IPC_CHAN_STATE_CONNECTED\<rparr>)"
    using ks(3) kc(3) s(3) by (simp_all add: node_wf_def)
  moreover have "phase_wf tmp c (x\<lparr>c_state := IPC_CHAN_STATE_CONNECTED, c_aux_state := a\<rparr>)"
      "phase_wf tmp s (y\<lparr>c_state := IPC_CHAN_STATE_CONNECTED\<rparr>)"
    using ks(4) kc(4) by (simp_all add: phase_wf_def)
  ultimately have "chans_wf tmp H ?w"
    using inv s(1) c(1) sc unfolding chans_wf_def po by (auto simp: ipc_core_def chans_wf_def)
  moreover have "links_wf (peers (chans ?w)) (states (chans ?w))"
    using links_accept [OF l p sc] unfolding po by simp
  moreover have "addrs_wf tmp H ?w" using inv s c by (auto simp: ipc_core_def addrs_wf_def)
  moreover have "ports_wf H ?w" using inv by (simp add: ipc_core_def ports_wf_def)
  ultimately show ?thesis using inv by (simp add: ipc_core_def)
qed

text \<open>Changes of the fields that only matter to one channel.\<close>

lemma core_chan_local:
  assumes inv: "ipc_core tmp H w" and c: "chans w c = Some x"
    and f: "c_refobj x' = c_refobj x" "c_peer x' = c_peer x" "c_state x' = c_state x" "c_flags x' = c_flags x"
      "c_handle x' = c_handle x" "c_node x' = c_node x" "c_path x' = c_path x"
    and q: "c_peer x \<noteq> None \<longrightarrow> c_msg_queue x' \<noteq> None" "\<forall>mq. c_msg_queue x' = Some mq \<longrightarrow> mq_wf mq"
  shows "ipc_core tmp H (w\<lparr>chans := (chans w)(c \<mapsto> x')\<rparr>)"
    (is "ipc_core tmp H ?w")
proof -
  note k = ipc_core_chan [OF inv c]
  have po: "peers (chans ?w) = peers (chans w)" "states (chans ?w) = states (chans w)"
    using c f by (simp_all add: fun_upd_idem views)
  have "refs_wf tmp H (peers (chans w)) c x'" using k(1) unfolding refs_wf_def f .
  moreover have "hdl_wf H c x'" using k(2) unfolding hdl_wf_def f .
  moreover have "node_wf H (waiting_for_port_chan_list w) (pends (ports w)) c x'" using k(3) unfolding node_wf_def f .
  moreover have "phase_wf tmp c x'" using k(4) q unfolding phase_wf_def f by argo
  ultimately have "chans_wf tmp H ?w"
    using inv unfolding chans_wf_def po by (auto simp: ipc_core_def chans_wf_def)
  moreover have "addrs_wf tmp H ?w" using inv c by (auto simp: ipc_core_def addrs_wf_def)
  moreover have "ports_wf H ?w" using inv by (simp add: ipc_core_def ports_wf_def)
  ultimately show ?thesis using inv po by (simp add: ipc_core_def)
qed

section \<open>Ports\<close>

lemma core_port_new:
  assumes inv: "ipc_core tmp H w" and p: "p = next_addr w" and f: "\<And>H'. count H' p = 1 \<Longrightarrow> port_wf H' (ipc_port_list w) p q"
    "p_pending_list q = []"
  shows "ipc_core tmp (add_mset p H) (w\<lparr>next_addr := Suc p, ports := (ports w)(p \<mapsto> q)\<rparr>)"
    (is "ipc_core tmp ?H ?w")
proof -
  note fr = fresh_addr [OF inv, folded p]
  have ne: "c \<noteq> p" if "chans w c = Some z" for c z using fr(1) that by auto
  have pd: "pends (ports ?w) = pends (ports w)" using f(2) fr(2) by (simp add: fun_upd_idem pends_def)
  have "addrs_wf tmp ?H ?w"
    using inv p fr(1) unfolding ipc_core_def addrs_wf_def pd by (auto simp: less_Suc_eq)
  moreover have "ports_wf ?H ?w"
  proof -
    have "port_wf ?H (ipc_port_list w) p q" using f(1) fr(3) by (simp add: not_in_iff)
    moreover have "port_wf ?H (ipc_port_list w) e z" if "ports w e = Some z" "e \<noteq> p" for e z
      using inv that by (simp add: add_holder_other ipc_core_port)
    moreover have "\<forall>a b x y. a \<in> set (ipc_port_list w) \<longrightarrow> b \<in> set (ipc_port_list w) \<longrightarrow>
        ports w a = Some x \<longrightarrow> ports w b = Some y \<longrightarrow> p_path x = p_path y \<longrightarrow> a = b"
      using inv by (simp add: ipc_core_def ports_wf_def)
    ultimately show ?thesis using fr(7) by (auto simp: ports_wf_def)
  qed
  moreover have "chans_wf tmp ?H ?w"
    using inv ne unfolding chans_wf_def pd by (auto simp: ipc_core_def chans_wf_def add_holder_other)
  ultimately show ?thesis using inv by (simp add: ipc_core_def)
qed

lemma core_port_upd:
  assumes inv: "ipc_core tmp H w" and p: "ports w p = Some q" "p \<in># H'" "\<And>e. e \<noteq> p \<Longrightarrow> count H' e = count H e"
    and q: "port_wf H' pl p q'" "p_pending_list q' = p_pending_list q" "p_path q' = p_path q"
    and pl: "distinct pl" "\<And>e. e \<noteq> p \<Longrightarrow> e \<in> set pl \<longleftrightarrow> e \<in> set (ipc_port_list w)"
    and uniq: "\<And>e y. p \<in> set pl \<Longrightarrow> e \<in> set (ipc_port_list w) \<Longrightarrow> ports w e = Some y \<Longrightarrow> p_path y = p_path q \<Longrightarrow> e = p"
  shows "ipc_core tmp H' (w\<lparr>ports := (ports w)(p \<mapsto> q'), ipc_port_list := pl\<rparr>)"
    (is "ipc_core tmp H' ?w")
proof -
  have pH: "p \<in># H" using ipc_core_port [OF inv p(1)] by (simp add: port_wf_def)
  have m: "e \<in># H' \<longleftrightarrow> e \<in># H" for e
    using p(2,3) pH by (cases "e = p") (auto simp flip: count_greater_zero_iff)
  have pd: "pends (ports ?w) = pends (ports w)" using p(1) q(2) by (simp add: fun_upd_idem views)
  have ne: "c \<noteq> p" if "chans w c = Some z" for c z using core_disjoint [OF inv that] p(1) by auto
  have "addrs_wf tmp H' ?w"
  proof -
    have "set pl \<subseteq> insert p (set (ipc_port_list w))" using pl(2) by auto
    then show ?thesis
      using inv p(1) m pl(1) unfolding ipc_core_def addrs_wf_def pd by (auto simp: subset_eq)
  qed
  moreover have "ports_wf H' ?w"
  proof -
    have "port_wf H' pl e z" if "ports w e = Some z" "e \<noteq> p" for e z
      using ipc_core_port [OF inv that(1)] port_wf_cong [of H' e H pl "ipc_port_list w"] that(2) p(3) pl(2) by simp
    moreover have "a = b" if ab: "a \<in> set pl" "b \<in> set pl" "(ports ?w) a = Some x" "(ports ?w) b = Some y"
        "p_path x = p_path y" for a b x y
    proof -
      have u: "\<forall>a b x y. a \<in> set (ipc_port_list w) \<longrightarrow> b \<in> set (ipc_port_list w) \<longrightarrow>
          ports w a = Some x \<longrightarrow> ports w b = Some y \<longrightarrow> p_path x = p_path y \<longrightarrow> a = b"
        using inv by (simp add: ipc_core_def ports_wf_def)
      consider "a = p" "b = p" | "a = p" "b \<noteq> p" | "a \<noteq> p" "b = p" | "a \<noteq> p" "b \<noteq> p" by blast
      then show ?thesis
      proof cases
        case 2 then show ?thesis using ab q(3) uniq [of b y] pl(2) by simp
      next
        case 3 then show ?thesis using ab q(3) uniq [of a x] pl(2) by simp
      next
        case 4 then show ?thesis using ab u pl(2) by simp
      qed simp
    qed
    ultimately show ?thesis using q(1) by (simp add: ports_wf_def)
  qed
  moreover have "chans_wf tmp H' ?w"
  proof -
    have "refs_wf tmp H' (peers (chans w)) e z = refs_wf tmp H (peers (chans w)) e z"
      "node_wf H' (waiting_for_port_chan_list w) (pends (ports w)) e z =
       node_wf H (waiting_for_port_chan_list w) (pends (ports w)) e z"
      "e \<noteq> p \<Longrightarrow> hdl_wf H' e z = hdl_wf H e z" for e z
      using m p(3) by (simp_all add: refs_wf_def node_wf_def hdl_wf_def)
    then show ?thesis using inv ne unfolding chans_wf_def pd by (auto simp: ipc_core_def chans_wf_def)
  qed
  ultimately show ?thesis using inv by (simp add: ipc_core_def)
qed

lemma core_port_free:
  assumes inv: "ipc_core tmp H w" and p: "ports w p = Some q" "count H p = 1" "p_pending_list q = []" "\<not> p_node q"
  shows "ipc_core tmp (H - {#p#}) (w\<lparr>ports := (ports w)(p := None)\<rparr>)"
    (is "ipc_core tmp ?H ?w")
proof -
  have H: "H = add_mset p (H - {#p#})" using p(2) by (metis count_eq_zero_iff insert_DiffM zero_neq_one)
  have nH: "p \<notin># H - {#p#}" using p(2) by (simp add: not_in_iff)
  have nl: "p \<notin> set (ipc_port_list w)" using ipc_core_port [OF inv p(1)] p(4) by (simp add: port_wf_def)
  have ne: "c \<noteq> p" if "chans w c = Some z" for c z using core_disjoint [OF inv that] p(1) by auto
  have pd: "pends (ports ?w) = pends (ports w)" using p(1,3) by (simp add: fun_upd_idem views)
  have o: "refs_wf tmp ?H po e z = refs_wf tmp H po e z" "hdl_wf ?H e z = hdl_wf H e z"
    "node_wf ?H wl pds e z = node_wf H wl pds e z" "port_wf ?H pl e y = port_wf H pl e y"
    if "e \<noteq> p" for e z y po wl pds pl
    using that by (simp_all add: drop_holder_other)
  have "addrs_wf tmp ?H ?w"
  proof -
    have "set_mset ?H \<subseteq> dom (chans w) \<union> dom (ports w) - {p}"
      using inv nH by (auto simp: ipc_core_def addrs_wf_def dest: in_diffD)
    then show ?thesis using inv nl unfolding ipc_core_def addrs_wf_def pd by auto
  qed
  moreover have "ports_wf ?H ?w" using inv o(4) unfolding ipc_core_def ports_wf_def by auto
  moreover have "chans_wf tmp ?H ?w"
    using inv ne o(1-3) unfolding chans_wf_def pd by (auto simp: ipc_core_def chans_wf_def)
  ultimately show ?thesis using inv by (simp add: ipc_core_def)
qed

end
