(* ===== verification/Ipc_Safe.thy ===== *)
theory Ipc_Safe
  imports Ipc_Change
begin

text \<open>
  Every operation on ports, channels and handles keeps the invariant, so that no assertion of
  \<^verbatim>\<open>ipc.c\<close> fails, no freed object is accessed and no null pointer is followed, under the
  conditions each lemma states.
\<close>

section \<open>Executing the primitives\<close>

text \<open>Updates of the state are put into the order of the record's fields.\<close>

lemma kst_order [simp]:
  "w\<lparr>ports := P, chans := C\<rparr> = w\<lparr>chans := C, ports := P\<rparr>"
  "w\<lparr>ipc_port_list := PL, chans := C\<rparr> = w\<lparr>chans := C, ipc_port_list := PL\<rparr>"
  "w\<lparr>waiting_for_port_chan_list := WL, chans := C\<rparr> = w\<lparr>chans := C, waiting_for_port_chan_list := WL\<rparr>"
  "w\<lparr>next_addr := N, chans := C\<rparr> = w\<lparr>chans := C, next_addr := N\<rparr>"
  "w\<lparr>allocs := A, chans := C\<rparr> = w\<lparr>chans := C, allocs := A\<rparr>"
  "w\<lparr>signaled := S, chans := C\<rparr> = w\<lparr>chans := C, signaled := S\<rparr>"
  "w\<lparr>ipc_port_list := PL, ports := P\<rparr> = w\<lparr>ports := P, ipc_port_list := PL\<rparr>"
  "w\<lparr>waiting_for_port_chan_list := WL, ports := P\<rparr> = w\<lparr>ports := P, waiting_for_port_chan_list := WL\<rparr>"
  "w\<lparr>next_addr := N, ports := P\<rparr> = w\<lparr>ports := P, next_addr := N\<rparr>"
  "w\<lparr>allocs := A, ports := P\<rparr> = w\<lparr>ports := P, allocs := A\<rparr>"
  "w\<lparr>signaled := S, ports := P\<rparr> = w\<lparr>ports := P, signaled := S\<rparr>"
  "w\<lparr>waiting_for_port_chan_list := WL, ipc_port_list := PL\<rparr> = w\<lparr>ipc_port_list := PL, waiting_for_port_chan_list := WL\<rparr>"
  "w\<lparr>next_addr := N, ipc_port_list := PL\<rparr> = w\<lparr>ipc_port_list := PL, next_addr := N\<rparr>"
  "w\<lparr>allocs := A, ipc_port_list := PL\<rparr> = w\<lparr>ipc_port_list := PL, allocs := A\<rparr>"
  "w\<lparr>signaled := S, ipc_port_list := PL\<rparr> = w\<lparr>ipc_port_list := PL, signaled := S\<rparr>"
  "w\<lparr>next_addr := N, waiting_for_port_chan_list := WL\<rparr> = w\<lparr>waiting_for_port_chan_list := WL, next_addr := N\<rparr>"
  "w\<lparr>allocs := A, waiting_for_port_chan_list := WL\<rparr> = w\<lparr>waiting_for_port_chan_list := WL, allocs := A\<rparr>"
  "w\<lparr>signaled := S, waiting_for_port_chan_list := WL\<rparr> = w\<lparr>waiting_for_port_chan_list := WL, signaled := S\<rparr>"
  "w\<lparr>allocs := A, next_addr := N\<rparr> = w\<lparr>next_addr := N, allocs := A\<rparr>"
  "w\<lparr>signaled := S, next_addr := N\<rparr> = w\<lparr>next_addr := N, signaled := S\<rparr>"
  "w\<lparr>signaled := S, allocs := A\<rparr> = w\<lparr>allocs := A, signaled := S\<rparr>"
  "w\<lparr>hlinked := L, chans := C\<rparr> = w\<lparr>chans := C, hlinked := L\<rparr>"
  "w\<lparr>hlinked := L, ports := P\<rparr> = w\<lparr>ports := P, hlinked := L\<rparr>"
  "w\<lparr>hlinked := L, ipc_port_list := PL\<rparr> = w\<lparr>ipc_port_list := PL, hlinked := L\<rparr>"
  "w\<lparr>hlinked := L, waiting_for_port_chan_list := WL\<rparr> = w\<lparr>waiting_for_port_chan_list := WL, hlinked := L\<rparr>"
  "w\<lparr>hlinked := L, next_addr := N\<rparr> = w\<lparr>next_addr := N, hlinked := L\<rparr>"
  "w\<lparr>hlinked := L, allocs := A\<rparr> = w\<lparr>allocs := A, hlinked := L\<rparr>"
  "w\<lparr>hlinked := L, signaled := S\<rparr> = w\<lparr>signaled := S, hlinked := L\<rparr>"
  by simp_all

lemma upd_chan_Some: "chans w c = Some x \<Longrightarrow> upd_chan c f w = w\<lparr>chans := (chans w)(c \<mapsto> f x)\<rparr>"
  by (simp add: upd_chan_def)

lemma upd_port_Some: "ports w p = Some x \<Longrightarrow> upd_port p f w = w\<lparr>ports := (ports w)(p \<mapsto> f x)\<rparr>"
  by (simp add: upd_port_def)

lemma upd_handle_chan:
  "chans w c = Some x \<Longrightarrow> upd_handle c f w = w\<lparr>chans := (chans w)(c \<mapsto> x\<lparr>c_handle := f (c_handle x)\<rparr>)\<rparr>"
  by (simp add: upd_handle_def upd_chan_def)

lemma upd_handle_port:
  "chans w p = None \<Longrightarrow> ports w p = Some x \<Longrightarrow> upd_handle p f w = w\<lparr>ports := (ports w)(p \<mapsto> x\<lparr>p_handle := f (p_handle x)\<rparr>)\<rparr>"
  by (simp add: upd_handle_def upd_port_def)

lemma handle_at_chan: "chans w c = Some x \<Longrightarrow> handle_at w c = Some (c_handle x)"
  by (simp add: handle_at_def)

lemma handle_at_port: "chans w p = None \<Longrightarrow> ports w p = Some x \<Longrightarrow> handle_at w p = Some (p_handle x)"
  by (simp add: handle_at_def)

lemmas exec_simps = upd_chan_Some upd_port_Some upd_handle_chan upd_handle_port handle_at_chan handle_at_port

lemma wf_signaled [simp]:
  "ipc_core tmp H (w\<lparr>signaled := S\<rparr>) = ipc_core tmp H w" "alive (w\<lparr>signaled := S\<rparr>) = alive w"
  by (simp_all add: ipc_core_def addrs_wf_def chans_wf_def ports_wf_def alive_def)

lemma wf_allocs [simp]:
  "ipc_core tmp H (w\<lparr>allocs := A\<rparr>) = ipc_core tmp H w" "alive (w\<lparr>allocs := A\<rparr>) = alive w"
  by (simp_all add: ipc_core_def addrs_wf_def chans_wf_def ports_wf_def alive_def)

lemma wf_hlinked [simp]:
  "ipc_core tmp H (w\<lparr>hlinked := L\<rparr>) = ipc_core tmp H w" "alive (w\<lparr>hlinked := L\<rparr>) = alive w"
  by (simp_all add: ipc_core_def addrs_wf_def chans_wf_def ports_wf_def alive_def)

lemma notify_cases:
  assumes "handle_at w h = Some x"
  obtains S where "handle_notify h w = w\<lparr>signaled := S\<rparr>"
proof -
  have "\<exists>S. handle_notify h w = w\<lparr>signaled := S\<rparr>"
  proof (cases "wait_event x")
    case None
    then have "handle_notify h w = w\<lparr>signaled := signaled w\<rparr>" using assms by (simp add: handle_notify_def)
    then show ?thesis by blast
  qed (use assms in \<open>auto simp: handle_notify_def\<close>)
  then show thesis using that by blast
qed

text \<open>Dropping a reference: what is left to show is the invariant without it.\<close>

lemma chan_del_ref_eq:
  assumes "chans w c = Some x" "r \<in> set (c_refobj x)"
    "remove1 r (c_refobj x) = [] \<Longrightarrow> c_peer x = None \<and> c_node x = NodeClear"
  shows "chan_del_ref c r w = reap c (w\<lparr>chans := (chans w)(c \<mapsto> x\<lparr>c_refobj := remove1 r (c_refobj x)\<rparr>)\<rparr>)"
  using assms by (simp add: chan_del_ref_def kassert_def upd_chan_Some reap_def chan_destroy_refobj_def)

lemma chan_del_ref_core:
  assumes c: "chans w c = Some x" "r \<in> set (c_refobj x)"
    and inv: "ipc_core tmp H (w\<lparr>chans := (chans w)(c \<mapsto> x\<lparr>c_refobj := remove1 r (c_refobj x)\<rparr>)\<rparr>)" (is "ipc_core tmp H ?w")
    and al: "\<And>e z. chans w e = Some z \<Longrightarrow> e \<noteq> c \<Longrightarrow> c_refobj z \<noteq> []"
  shows "chan_del_ref c r w = reap c ?w" "ipc_inv tmp H (chan_del_ref c r w)"
proof -
  show 1: "chan_del_ref c r w = reap c ?w"
    using c unreferenced [OF inv, of c] by (intro chan_del_ref_eq) auto
  show "ipc_inv tmp H (chan_del_ref c r w)"
    unfolding 1 ipc_inv_def using core_reap [OF inv] al by (auto intro!: alive_reap)
qed

section \<open>Shutting a channel down\<close>

lemma chan_shutdown_one_quick:
  assumes "chans w c = Some x" "c_state x \<noteq> IPC_CHAN_STATE_WAITING_FOR_PORT"
  obtains S where "chan_shutdown_one c w = w\<lparr>chans := (chans w)(c \<mapsto> x\<lparr>c_state := disc (c_state x)\<rparr>), signaled := S\<rparr>"
proof -
  let ?w = "w\<lparr>chans := (chans w)(c \<mapsto> x\<lparr>c_state := IPC_CHAN_STATE_DISCONNECTING\<rparr>)\<rparr>"
  have n: "\<exists>S. handle_notify c ?w = ?w\<lparr>signaled := S\<rparr>"
    using notify_cases [of ?w c] by (auto simp: handle_at_def)
  have t: "w\<lparr>chans := (chans w)(c \<mapsto> x\<lparr>c_state := disc (c_state x)\<rparr>), signaled := signaled w\<rparr> = w"
    if "partner (c_state x) = None" using assms(1) that by (simp add: disc_def fun_upd_idem)
  have "\<exists>S. chan_shutdown_one c w = w\<lparr>chans := (chans w)(c \<mapsto> x\<lparr>c_state := disc (c_state x)\<rparr>), signaled := S\<rparr>"
  proof (cases "c_state x")
    case IPC_CHAN_STATE_INVALID
    then have "chan_shutdown_one c w = w" using assms(1) by (simp add: chan_shutdown_one_def)
    then show ?thesis using t IPC_CHAN_STATE_INVALID by (metis partner.simps(4))
  next
    case IPC_CHAN_STATE_DISCONNECTING
    then have "chan_shutdown_one c w = w" using assms(1) by (simp add: chan_shutdown_one_def)
    then show ?thesis using t IPC_CHAN_STATE_DISCONNECTING by (metis partner.simps(5))
  next
    case IPC_CHAN_STATE_ACCEPTING
    then have "chan_shutdown_one c w = w\<lparr>chans := (chans w)(c \<mapsto> x\<lparr>c_state := disc (c_state x)\<rparr>), signaled := signaled w\<rparr>"
      using assms(1) by (simp add: chan_shutdown_one_def disc_def upd_chan_Some)
    then show ?thesis by blast
  qed (use assms n in \<open>auto simp: chan_shutdown_one_def disc_def upd_chan_Some\<close>)
  then show thesis using that by blast
qed

text \<open>What shutting down leaves of the channel itself and of the ports.\<close>

definition quiet :: "ipc_chan \<Rightarrow> bool" where
  "quiet x \<longleftrightarrow> c_peer x = None \<and> partner (c_state x) = None \<and> c_state x \<noteq> IPC_CHAN_STATE_WAITING_FOR_PORT"

definition shut_effect :: "addr \<Rightarrow> ipc_chan \<Rightarrow> kst \<Rightarrow> kst \<Rightarrow> bool" where
  "shut_effect c x w w' \<longleftrightarrow>
     ports w' = ports w \<and> ipc_port_list w' = ipc_port_list w \<and> next_addr w' = next_addr w \<and>
     (\<exists>x'. chans w' c = Some x' \<and> quiet x' \<and> c_handle x' = c_handle x \<and>
        c_node x' = (if c_node x = NodeWaiting then NodeClear else c_node x) \<and>
        c_refobj x' = (if c_node x = NodeWaiting then remove1 RefNode (c_refobj x) else c_refobj x))"

lemma upd_chan_reap:
  "c \<noteq> d \<Longrightarrow> chans w c = Some x \<Longrightarrow> upd_chan c f (reap d w) = reap d (w\<lparr>chans := (chans w)(c \<mapsto> f x)\<rparr>)"
  by (auto simp: reap_def upd_chan_def fun_upd_twist split: option.split)

lemma reap_other:
  "c \<noteq> d \<Longrightarrow> chans (reap d w) c = chans w c" "ports (reap d w) = ports w"
  "ipc_port_list (reap d w) = ipc_port_list w" "next_addr (reap d w) = next_addr w"
  by (auto simp: reap_def split: option.split)

lemma shutdown_waiting:
  assumes inv: "ipc_inv tmp H w" and c: "chans w c = Some x" "c_node x = NodeWaiting"
  shows "ipc_inv tmp H (chan_shutdown_locked c w)" "shut_effect c x w (chan_shutdown_locked c w)"
proof -
  have core: "ipc_core tmp H w" using inv by (simp add: ipc_inv_def)
  note k = ipc_core_chan [OF core c(1)]
  have st: "c_state x = IPC_CHAN_STATE_WAITING_FOR_PORT" and h: "c \<in># H" using k(3) c(2) by (auto simp: node_wf_def)
  have pn: "c_peer x = None" using waiting_unlinked [OF core c(1)] st by simp
  have r: "RefNode \<in> set (c_refobj x)" "RefHandle \<in> set (c_refobj x)" using k(1) h c(2) by (auto simp: refs_wf_def)
  then have ne: "remove1 RefNode (c_refobj x) \<noteq> []" by (metis in_set_remove1 empty_iff list.set(1) obj_ref.distinct(7))
  let ?w = "w\<lparr>chans := (chans w)(c \<mapsto> x\<lparr>c_node := NodeClear, c_refobj := remove1 RefNode (c_refobj x),
           c_state := IPC_CHAN_STATE_DISCONNECTING, c_path := c_path x\<rparr>),
         waiting_for_port_chan_list := remove1 c (waiting_for_port_chan_list w)\<rparr>"
  have eq: "chan_shutdown_locked c w = ?w"
    using c st pn r ne
    by (simp add: chan_shutdown_locked_def chan_shutdown_one_def kassert_def chan_node_delete_def upd_chan_def
        chan_del_ref_def Let_def)
  show "ipc_inv tmp H (chan_shutdown_locked c w)"
    unfolding eq ipc_inv_def using core_leave_waiting [OF core c, of IPC_CHAN_STATE_DISCONNECTING "c_path x"] inv ne
    by (auto simp: ipc_inv_def alive_def)
  show "shut_effect c x w (chan_shutdown_locked c w)"
    unfolding eq shut_effect_def using c pn by (simp add: quiet_def)
qed

text \<open>A channel with a peer: both ends are disconnected and the channel lets go of its peer.\<close>

definition let_go :: "addr \<Rightarrow> ipc_chan \<Rightarrow> addr \<Rightarrow> ipc_chan \<Rightarrow> kst \<Rightarrow> kst" where
  "let_go c x d y w = w\<lparr>chans := (chans w)(c \<mapsto> x\<lparr>c_state := disc (c_state x), c_peer := None\<rparr>,
     d \<mapsto> y\<lparr>c_state := disc (c_state y), c_refobj := remove1 (RefPeer c) (c_refobj y)\<rparr>)\<rparr>"

lemma peer_facts:
  assumes "ipc_core tmp H w" "chans w c = Some x" "c_peer x = Some d"
  obtains y where "chans w d = Some y" "c \<noteq> d" "c_state x \<noteq> IPC_CHAN_STATE_WAITING_FOR_PORT"
    "c_state y \<noteq> IPC_CHAN_STATE_WAITING_FOR_PORT" "c_node x \<noteq> NodeWaiting" "RefPeer c \<in> set (c_refobj y)"
proof -
  have pc: "peers (chans w) c = Some d" using assms(2,3) by (simp add: views)
  obtain y where d: "chans w d = Some y" using peer_live [OF assms(1) pc] by blast
  have cd: "c \<noteq> d" using assms(1) pc unfolding ipc_core_def links_wf_def by blast
  have sx: "c_state x \<noteq> IPC_CHAN_STATE_WAITING_FOR_PORT" using waiting_unlinked(1) [OF assms(1,2)] assms(3) by auto
  have sy: "c_state y \<noteq> IPC_CHAN_STATE_WAITING_FOR_PORT" using waiting_unlinked(2) [OF assms(1) d, of c] pc by auto
  have nx: "c_node x \<noteq> NodeWaiting" using ipc_core_chan(3) [OF assms(1,2)] sx by (auto simp: node_wf_def)
  have "RefPeer c \<in> set (c_refobj y)" using ipc_core_chan(1) [OF assms(1) d] pc by (simp add: refs_wf_def)
  then show thesis using that d cd sx sy nx by blast
qed

lemma core_let_go:
  assumes core: "ipc_core tmp H w" and c: "chans w c = Some x" "c_peer x = Some d" "chans w d = Some y" "c \<noteq> d"
  shows "ipc_core tmp H (let_go c x d y w)"
proof -
  let ?x = "x\<lparr>c_state := disc (c_state x)\<rparr>" and ?y = "y\<lparr>c_state := disc (c_state y)\<rparr>"
  let ?w2 = "w\<lparr>chans := (chans w)(c \<mapsto> ?x, d \<mapsto> ?y)\<rparr>"
  have core2: "ipc_core tmp H ?w2" by (rule core_disconnect [OF core c(1-3)])
  have at2: "chans ?w2 c = Some ?x" "c_peer ?x = Some d" "chans ?w2 d = Some ?y" using c by auto
  show ?thesis using core_drop_peer [OF core2 at2] c(4) by (simp add: let_go_def fun_upd_twist)
qed

lemma shutdown_peer_eq:
  assumes core: "ipc_core tmp H w" and c: "chans w c = Some x" "c_peer x = Some d" "chans w d = Some y"
  obtains S where "chan_shutdown_locked c w = reap d ((let_go c x d y w)\<lparr>signaled := S\<rparr>)"
proof -
  have f: "c \<noteq> d" "c_state x \<noteq> IPC_CHAN_STATE_WAITING_FOR_PORT" "c_state y \<noteq> IPC_CHAN_STATE_WAITING_FOR_PORT"
    "RefPeer c \<in> set (c_refobj y)" using peer_facts [OF core c(1,2)] c(3) by auto
  let ?x = "x\<lparr>c_state := disc (c_state x)\<rparr>" and ?y = "y\<lparr>c_state := disc (c_state y)\<rparr>"
  obtain S1 where 1: "chan_shutdown_one c w = w\<lparr>chans := (chans w)(c \<mapsto> ?x), signaled := S1\<rparr>"
    using chan_shutdown_one_quick [OF c(1) f(2)] by blast
  obtain S2 where 2: "chan_shutdown_one d (w\<lparr>chans := (chans w)(c \<mapsto> ?x), signaled := S1\<rparr>) =
      w\<lparr>chans := (chans w)(c \<mapsto> ?x, d \<mapsto> ?y), signaled := S2\<rparr>"
    using chan_shutdown_one_quick [of "w\<lparr>chans := (chans w)(c \<mapsto> ?x), signaled := S1\<rparr>" d y] c f by auto
  let ?w2 = "w\<lparr>chans := (chans w)(c \<mapsto> ?x, d \<mapsto> ?y), signaled := S2\<rparr>"
  let ?y3 = "?y\<lparr>c_refobj := remove1 (RefPeer c) (c_refobj ?y)\<rparr>"
  have at2: "chans ?w2 c = Some ?x" "c_peer ?x = Some d" "chans ?w2 d = Some ?y" using f c by auto
  have "chan_del_ref d (RefPeer c) ?w2 = reap d (?w2\<lparr>chans := (chans ?w2)(d \<mapsto> ?y3)\<rparr>)"
    using chan_del_ref_eq [OF at2(3), of "RefPeer c"] f(4)
      unreferenced(1,2) [OF core_let_go [OF core c f(1)], of d ?y3] by (simp add: let_go_def)
  then have "chan_shutdown_locked c w = reap d (?w2\<lparr>chans := (chans ?w2)(d \<mapsto> ?y3, c \<mapsto> ?x\<lparr>c_peer := None\<rparr>)\<rparr>)"
    using 1 2 c f at2 upd_chan_reap [OF f(1), of "?w2\<lparr>chans := (chans ?w2)(d \<mapsto> ?y3)\<rparr>" ?x "\<lambda>x. x\<lparr>c_peer := None\<rparr>"]
    by (simp add: chan_shutdown_locked_def Let_def)
  then show thesis using that [of S2] f(1) by (simp add: let_go_def fun_upd_twist)
qed

lemma shutdown_peer:
  assumes inv: "ipc_inv tmp H w" and c: "chans w c = Some x" "c_peer x = Some d"
  shows "ipc_inv tmp H (chan_shutdown_locked c w)" "shut_effect c x w (chan_shutdown_locked c w)"
proof -
  have core: "ipc_core tmp H w" using inv by (simp add: ipc_inv_def)
  obtain y where f: "chans w d = Some y" "c \<noteq> d" "c_state x \<noteq> IPC_CHAN_STATE_WAITING_FOR_PORT" "c_node x \<noteq> NodeWaiting"
    using peer_facts [OF core c] by metis
  obtain S where eq: "chan_shutdown_locked c w = reap d ((let_go c x d y w)\<lparr>signaled := S\<rparr>)"
    using shutdown_peer_eq [OF core c f(1)] by blast
  have core3: "ipc_core tmp H ((let_go c x d y w)\<lparr>signaled := S\<rparr>)" using core_let_go [OF core c f(1,2)] by simp
  have "alive (reap d ((let_go c x d y w)\<lparr>signaled := S\<rparr>))"
    using inv c f(2) by (intro alive_reap) (auto simp: ipc_inv_def alive_def let_go_def split: if_splits)
  then show "ipc_inv tmp H (chan_shutdown_locked c w)" unfolding eq ipc_inv_def using core_reap [OF core3] by blast
  show "shut_effect c x w (chan_shutdown_locked c w)"
    unfolding eq shut_effect_def using reap_other f by (simp add: quiet_def let_go_def)
qed

lemma chan_shutdown_locked_inv:
  assumes inv: "ipc_inv tmp H w" and c: "chans w c = Some x"
    and s: "c_state x = IPC_CHAN_STATE_WAITING_FOR_PORT \<Longrightarrow> c_node x = NodeWaiting"
  shows "ipc_inv tmp H (chan_shutdown_locked c w) \<and> shut_effect c x w (chan_shutdown_locked c w)"
proof (cases "c_peer x")
  case (Some d)
  then show ?thesis using shutdown_peer [OF inv c] by blast
next
  case None
  show ?thesis
  proof (cases "c_state x = IPC_CHAN_STATE_WAITING_FOR_PORT")
    case True
    then show ?thesis using shutdown_waiting [OF inv c s] by blast
  next
    case False
    have core: "ipc_core tmp H w" using inv by (simp add: ipc_inv_def)
    then have "links_wf (peers (chans w)) (states (chans w))" by (simp add: ipc_core_def)
    then have "partner (c_state x) = None"
      using None c unfolding links_wf_def by (metis not_None_eq peers_Some states_Some)
    moreover from this have "chan_shutdown_locked c w = w"
      using None c False by (auto simp: chan_shutdown_locked_def chan_shutdown_one_def partner_None_iff)
    moreover have "c_node x \<noteq> NodeWaiting" using ipc_core_chan(3) [OF core c] False by (auto simp: node_wf_def)
    ultimately show ?thesis using inv c None False by (simp add: shut_effect_def quiet_def)
  qed
qed

section \<open>Taking a server channel off a pending list\<close>

definition drop_pending :: "addr \<Rightarrow> ipc_port \<Rightarrow> ipc_port" where
  "drop_pending s q = q\<lparr>p_pending_list := remove1 s (p_pending_list q),
     p_handle := (p_handle q)\<lparr>refcnt := refcnt (p_handle q) - 1\<rparr>\<rparr>"

lemma handle_decref_port_many:
  assumes "chans w p = None" "ports w p = Some q" "refcnt (p_handle q) \<noteq> 1"
  shows "handle_decref p w = w\<lparr>ports := (ports w)(p \<mapsto> q\<lparr>p_handle := (p_handle q)\<lparr>refcnt := refcnt (p_handle q) - 1\<rparr>\<rparr>)\<rparr>"
  using assms by (simp add: handle_decref_def exec_simps)

lemma reap_ports: "reap s (w\<lparr>ports := P\<rparr>) = (reap s w)\<lparr>ports := P\<rparr>"
  by (auto simp: reap_def split: option.split)

lemma pending_refcnt:
  assumes "ipc_core tmp H w" "ports w p = Some q" "s \<in> set (p_pending_list q)"
  shows "refcnt (p_handle q) \<ge> 2"
proof -
  have "count H p \<ge> 1" "refcnt (p_handle q) \<ge> int (count H p) + int (length (p_pending_list q))"
    using ipc_core_port [OF assms(1,2)] by (auto simp: port_wf_def Suc_le_eq)
  moreover have "length (p_pending_list q) \<ge> 1" using length_pos_if_in_set [OF assms(3)] by linarith
  ultimately show ?thesis by linarith
qed

lemma pending_chan:
  assumes inv: "ipc_core tmp H w" and q: "ports w p = Some q" "s \<in> set (p_pending_list q)"
  obtains x where "chans w s = Some x" "c_node x = NodePending p" "chans w p = None" "s \<noteq> p" "s \<notin># H"
    "c_flags x AND IPC_CHAN_FLAG_SERVER \<noteq> 0" "RefNode \<in> set (c_refobj x)"
proof -
  have pd: "s \<in> set (pends (ports w) p)" using q by (simp add: views)
  then have "s \<in> dom (chans w)" using inv unfolding ipc_core_def addrs_wf_def by blast
  then obtain x where x: "chans w s = Some x" by blast
  note k = ipc_core_chan [OF inv x]
  have n: "c_node x = NodePending p" using k(3) pd unfolding node_wf_def by blast
  moreover have "chans w p = None" using core_disjoint [OF inv, of p] q(1) by (cases "chans w p") auto
  moreover have "s \<notin># H" "c_flags x AND IPC_CHAN_FLAG_SERVER \<noteq> 0" using k(3) n unfolding node_wf_def by blast+
  moreover have "RefNode \<in> set (c_refobj x)" using k(1) n by (simp add: refs_wf_def)
  ultimately show thesis using that x by force
qed

lemma chan_node_delete_pending:
  assumes "chans w s = Some x" "c_node x = NodePending p" "ports w p = Some q"
  shows "chan_node_delete s w = w\<lparr>chans := (chans w)(s \<mapsto> x\<lparr>c_node := NodeClear\<rparr>),
    ports := (ports w)(p \<mapsto> q\<lparr>p_pending_list := remove1 s (p_pending_list q)\<rparr>)\<rparr>"
  using assms by (simp add: chan_node_delete_def exec_simps)

lemma pending_gone:
  assumes inv: "ipc_inv tmp H w" and q: "ports w p = Some q" "s \<in> set (p_pending_list q)"
    and x: "chans w s = Some x" "c_peer x = None"
    and w': "w' = handle_decref p (chan_del_ref s RefNode (chan_node_delete s w))"
  shows "ipc_inv tmp H w'" "ports w' = (ports w)(p \<mapsto> drop_pending s q)" "ipc_port_list w' = ipc_port_list w"
proof -
  have core: "ipc_core tmp H w" using inv by (simp add: ipc_inv_def)
  have n: "c_node x = NodePending p" "chans w p = None" "s \<noteq> p" "RefNode \<in> set (c_refobj x)"
    using pending_chan [OF core q] x(1) by auto
  let ?x = "x\<lparr>c_node := NodeClear, c_refobj := remove1 RefNode (c_refobj x)\<rparr>"
  let ?w2 = "w\<lparr>chans := (chans w)(s \<mapsto> x\<lparr>c_node := NodeClear\<rparr>),
    ports := (ports w)(p \<mapsto> q\<lparr>p_pending_list := remove1 s (p_pending_list q)\<rparr>)\<rparr>"
  let ?w3 = "w\<lparr>chans := (chans w)(s \<mapsto> ?x), ports := (ports w)(p \<mapsto> q\<lparr>p_pending_list := remove1 s (p_pending_list q)\<rparr>)\<rparr>"
  let ?w4 = "w\<lparr>chans := (chans w)(s \<mapsto> ?x), ports := (ports w)(p \<mapsto> drop_pending s q)\<rparr>"
  have core4: "ipc_core tmp H ?w4"
    using core_leave_pending [OF core x(1) n(1) q(1)] x(2) by (simp add: drop_pending_def)
  have "chan_del_ref s RefNode ?w2 = reap s ?w3"
    using chan_del_ref_eq [of ?w2 s "x\<lparr>c_node := NodeClear\<rparr>" RefNode] n x(2) by simp
  moreover have "handle_decref p (reap s ?w3) = reap s ?w4"
    using handle_decref_port_many [of "reap s ?w3" p "q\<lparr>p_pending_list := remove1 s (p_pending_list q)\<rparr>"]
      pending_refcnt [OF core q] n(2,3) reap_other(1) [of p s ?w3]
    by (simp add: reap_ports reap_other drop_pending_def)
  ultimately have eq: "w' = reap s ?w4"
    unfolding w' using chan_node_delete_pending [OF x(1) n(1) q(1)] by simp
  have "alive (reap s ?w4)" using inv by (intro alive_reap) (auto simp: ipc_inv_def alive_def)
  then show "ipc_inv tmp H w'" unfolding eq ipc_inv_def using core_reap [OF core4] by blast
  show "ports w' = (ports w)(p \<mapsto> drop_pending s q)" "ipc_port_list w' = ipc_port_list w"
    unfolding eq by (simp_all add: reap_other)
qed

section \<open>Shutting a port down\<close>

lemma port_shutdown_pending_inv:
  assumes "ipc_inv {} H w" "ports w p = Some q" "p_pending_list q = ss"
  shows "ipc_inv {} H (port_shutdown_pending p ss w) \<and>
    (\<exists>q'. ports (port_shutdown_pending p ss w) p = Some q' \<and> p_pending_list q' = [] \<and> p_node q' = p_node q)"
  using assms
proof (induction ss arbitrary: w q)
  case Nil
  then show ?case by simp
next
  case (Cons s ss)
  have core: "ipc_core {} H w" using Cons.prems(1) by (simp add: ipc_inv_def)
  have mem: "s \<in> set (p_pending_list q)" using Cons.prems(3) by simp
  obtain x where x: "chans w s = Some x" "c_node x = NodePending p" using pending_chan [OF core Cons.prems(2) mem] by auto
  have nw: "c_state x \<noteq> IPC_CHAN_STATE_WAITING_FOR_PORT"
  using ipc_core_chan(4) [OF core x(1)] x(2) by (auto simp: phase_wf_def)
  let ?w1 = "chan_shutdown_locked s w"
  have 1: "ipc_inv {} H ?w1" "shut_effect s x w ?w1" using chan_shutdown_locked_inv [OF Cons.prems(1) x(1)] nw by auto
  then obtain x' where x': "chans ?w1 s = Some x'" "c_peer x' = None" and p1: "ports ?w1 p = Some q"
    using Cons.prems(2) by (auto simp: shut_effect_def quiet_def)
  note g = pending_gone [OF 1(1) p1 mem x' refl]
  have "p_pending_list (drop_pending s q) = ss" "p_node (drop_pending s q) = p_node q"
    using Cons.prems(3) by (simp_all add: drop_pending_def)
  then show ?case using Cons.IH [OF g(1), of "drop_pending s q"] g(2) by (simp add: Let_def)
qed

lemma port_wf_refcnt:
  "port_wf H pl p q \<Longrightarrow> refcnt (p_handle q) = int (count H p) + (if p_node q then 1 else 0) + int (length (p_pending_list q))"
  "port_wf H pl p q \<Longrightarrow> count H p \<ge> 1" "port_wf H pl p q \<Longrightarrow> p \<in># H"
  by (auto simp: port_wf_def Suc_le_eq)

lemma chans_port_None: "ipc_core tmp H w \<Longrightarrow> ports w p = Some q \<Longrightarrow> chans w p = None"
  using core_disjoint [of tmp H w p] by (cases "chans w p") auto

lemma port_unlist_inv:
  assumes inv: "ipc_inv tmp H w" and p: "ports w p = Some q" "p_node q"
    and w': "w' = handle_decref p ((upd_port p (\<lambda>x. x\<lparr>p_node := False\<rparr>)
        (upd_port p (\<lambda>x. x\<lparr>p_state := IPC_PORT_STATE_CLOSING\<rparr>) w))\<lparr>ipc_port_list := remove1 p (ipc_port_list w)\<rparr>)"
  shows "ipc_inv tmp H w'" "\<exists>q'. ports w' p = Some q' \<and> p_pending_list q' = p_pending_list q \<and> \<not> p_node q'"
proof -
  have core: "ipc_core tmp H w" using inv by (simp add: ipc_inv_def)
  note k = ipc_core_port [OF core p(1)] and cn = chans_port_None [OF core p(1)]
  let ?q = "q\<lparr>p_state := IPC_PORT_STATE_CLOSING, p_node := False,
      p_handle := (p_handle q)\<lparr>refcnt := refcnt (p_handle q) - 1\<rparr>\<rparr>"
  let ?w = "w\<lparr>ports := (ports w)(p \<mapsto> ?q), ipc_port_list := remove1 p (ipc_port_list w)\<rparr>"
  have "refcnt (p_handle q) = int (count H p) + 1 + int (length (p_pending_list q))"
    using port_wf_refcnt(1) [OF k] p(2) by simp
  then have "refcnt (p_handle q) \<noteq> 1" using port_wf_refcnt(2) [OF k] by linarith
  then have eq: "w' = ?w" unfolding w' using p cn by (simp add: handle_decref_port_many exec_simps)
  have d: "distinct (ipc_port_list w)" using core by (simp add: ipc_core_def addrs_wf_def)
  have "port_wf H (remove1 p (ipc_port_list w)) p ?q" using k p d by (auto simp: port_wf_def)
  then have "ipc_core tmp H ?w"
    using d port_wf_refcnt(3) [OF k] by (intro core_port_upd [OF core p(1)]) auto
  then show "ipc_inv tmp H w'" unfolding eq using inv by (simp add: ipc_inv_def alive_def)
  show "\<exists>q'. ports w' p = Some q' \<and> p_pending_list q' = p_pending_list q \<and> \<not> p_node q'" unfolding eq by simp
qed

lemma port_closing_inv:
  assumes inv: "ipc_inv tmp H w" and p: "ports w p = Some q" "\<not> p_node q"
  shows "ipc_inv tmp H (upd_port p (\<lambda>x. x\<lparr>p_state := IPC_PORT_STATE_CLOSING\<rparr>) w)"
proof -
  have core: "ipc_core tmp H w" using inv by (simp add: ipc_inv_def)
  note k = ipc_core_port [OF core p(1)]
  have d: "distinct (ipc_port_list w)" "p \<notin> set (ipc_port_list w)"
    using core k p(2) by (simp_all add: ipc_core_def addrs_wf_def port_wf_def)
  have "port_wf H (ipc_port_list w) p (q\<lparr>p_state := IPC_PORT_STATE_CLOSING\<rparr>)"
    using k p d by (auto simp: port_wf_def)
  then have "ipc_core tmp H (w\<lparr>ports := (ports w)(p \<mapsto> q\<lparr>p_state := IPC_PORT_STATE_CLOSING\<rparr>), ipc_port_list := ipc_port_list w\<rparr>)"
    using d port_wf_refcnt(3) [OF k] by (intro core_port_upd [OF core p(1)]) auto
  then show ?thesis using inv p(1) by (simp add: ipc_inv_def alive_def upd_port_Some)
qed

lemma port_shutdown_inv:
  assumes inv: "ipc_inv {} H w" and p: "ports w p = Some q"
  shows "ipc_inv {} H (port_shutdown p w) \<and>
    (\<exists>q'. ports (port_shutdown p w) p = Some q' \<and> p_pending_list q' = [] \<and> \<not> p_node q')"
proof (cases "p_node q")
  case True
  obtain w' where w': "w' = handle_decref p ((upd_port p (\<lambda>x. x\<lparr>p_node := False\<rparr>)
        (upd_port p (\<lambda>x. x\<lparr>p_state := IPC_PORT_STATE_CLOSING\<rparr>) w))\<lparr>ipc_port_list := remove1 p (ipc_port_list w)\<rparr>)"
    by blast
  note u = port_unlist_inv [OF inv p True w']
  have "port_shutdown p w = port_shutdown_pending p (p_pending_list q) w'"
    unfolding w' using p True by (simp add: port_shutdown_def upd_port_Some)
  moreover obtain q' where "ports w' p = Some q'" "p_pending_list q' = p_pending_list q" "\<not> p_node q'" using u(2) by blast
  ultimately show ?thesis using port_shutdown_pending_inv [OF u(1), of p q' "p_pending_list q"] by simp
next
  case False
  let ?w = "upd_port p (\<lambda>x. x\<lparr>p_state := IPC_PORT_STATE_CLOSING\<rparr>) w"
  have "port_shutdown p w = port_shutdown_pending p (p_pending_list q) ?w"
    using p False by (simp add: port_shutdown_def)
  moreover have "ports ?w p = Some (q\<lparr>p_state := IPC_PORT_STATE_CLOSING\<rparr>)" using p by (simp add: upd_port_Some)
  ultimately show ?thesis using port_shutdown_pending_inv [OF port_closing_inv [OF inv p False], of p] False by fastforce
qed

section \<open>Handle references\<close>

definition quiescent :: "kst \<Rightarrow> addr \<Rightarrow> bool" where
  "quiescent w h \<longleftrightarrow>
     (case chans w h of
        Some x \<Rightarrow> quiet x
      | None \<Rightarrow> (case ports w h of Some q \<Rightarrow> p_pending_list q = [] \<and> \<not> p_node q | None \<Rightarrow> False))"

lemma handle_incref_inv:
  assumes inv: "ipc_inv tmp H w" and h: "h \<in># H"
  shows "ipc_inv tmp (add_mset h H) (handle_incref h w)"
proof -
  have core: "ipc_core tmp H w" using inv by (simp add: ipc_inv_def)
  then have "h \<in> dom (chans w) \<union> dom (ports w)" using h unfolding ipc_core_def addrs_wf_def by blast
  then consider x where "chans w h = Some x" | q where "ports w h = Some q" by blast
  then show ?thesis
  proof cases
    case 1
    note k = ipc_core_chan(2) [OF core 1]
    have "ipc_core tmp (add_mset h H) (w\<lparr>chans := (chans w)(h \<mapsto> x\<lparr>c_handle := (c_handle x)\<lparr>refcnt := refcnt (c_handle x) + 1\<rparr>\<rparr>)\<rparr>)"
      using k h by (intro core_chan_handle [OF core 1 h]) (auto simp: hdl_wf_def)
    then show ?thesis using inv 1 by (auto simp: handle_incref_def exec_simps ipc_inv_def alive_def)
  next
    case 2
    note k = ipc_core_port [OF core 2]
    let ?q = "q\<lparr>p_handle := (p_handle q)\<lparr>refcnt := refcnt (p_handle q) + 1\<rparr>\<rparr>"
    have "port_wf (add_mset h H) (ipc_port_list w) h ?q" using k by (auto simp: port_wf_def)
    then have "ipc_core tmp (add_mset h H) (w\<lparr>ports := (ports w)(h \<mapsto> ?q), ipc_port_list := ipc_port_list w\<rparr>)"
      using core 2 by (intro core_port_upd [OF core 2]) (auto simp: ipc_core_def addrs_wf_def ports_wf_def)
    then show ?thesis using inv 2 chans_port_None [OF core 2]
      by (auto simp: handle_incref_def exec_simps ipc_inv_def alive_def)
  qed
qed

lemma chan_decref_inv:
  assumes inv: "ipc_inv tmp H w" and h: "h \<in># H" "count H h \<ge> 2 \<or> quiescent w h" and x: "chans w h = Some x"
  shows "ipc_inv tmp (H - {#h#}) (handle_decref h w)"
proof -
  have core: "ipc_core tmp H w" using inv by (simp add: ipc_inv_def)
  note k = ipc_core_chan [OF core x]
  have rc: "refcnt (c_handle x) = int (count H h)" "h_ops (c_handle x) = OPS_CHAN" using k(2) h(1) by (auto simp: hdl_wf_def)
  let ?x = "x\<lparr>c_handle := (c_handle x)\<lparr>refcnt := refcnt (c_handle x) - 1\<rparr>\<rparr>"
  let ?w = "w\<lparr>chans := (chans w)(h \<mapsto> ?x)\<rparr>"
  show ?thesis
  proof (cases "count H h = 1")
    case False
    then have c2: "count H h \<ge> 2" using h(1) by (metis count_greater_eq_one_iff Suc_1 not_less_eq_eq le_antisym)
    then have "h \<in># H - {#h#}" by (auto simp: in_diff_count)
    then have "ipc_core tmp (H - {#h#}) ?w"
      using rc c2 by (intro core_chan_handle [OF core x h(1)]) (auto simp: of_nat_diff)
    moreover have "handle_decref h w = ?w" using x rc False by (simp add: handle_decref_def exec_simps)
    ultimately show ?thesis using inv x by (auto simp: ipc_inv_def alive_def)
  next
    case True
    then have q: "c_peer x = None" "c_state x \<noteq> IPC_CHAN_STATE_WAITING_FOR_PORT"
      using h(2) x by (auto simp: quiescent_def quiet_def)
    have r: "RefHandle \<in> set (c_refobj x)" using k(1) h(1) by (simp add: refs_wf_def)
    have "handle_decref h w = chan_del_ref h RefHandle ?w"
      using x rc True by (simp add: handle_decref_def exec_simps handle_destroy_def chan_handle_destroy_def)
    moreover have "ipc_inv tmp (H - {#h#}) (chan_del_ref h RefHandle ?w)"
    proof (rule chan_del_ref_core(2) [of _ _ ?x])
      show "ipc_core tmp (H - {#h#}) (?w\<lparr>chans := (chans ?w)(h \<mapsto> ?x\<lparr>c_refobj := remove1 RefHandle (c_refobj ?x)\<rparr>)\<rparr>)"
        using core_chan_unhandle [OF core x True q, of "(c_handle x)\<lparr>refcnt := refcnt (c_handle x) - 1\<rparr>"] rc True by simp
    qed (use r inv in \<open>auto simp: ipc_inv_def alive_def\<close>)
    ultimately show ?thesis by simp
  qed
qed

lemma port_decref_inv:
  assumes inv: "ipc_inv tmp H w" and h: "h \<in># H" "count H h \<ge> 2 \<or> quiescent w h" and q: "ports w h = Some q"
  shows "ipc_inv tmp (H - {#h#}) (handle_decref h w)"
proof -
  have core: "ipc_core tmp H w" using inv by (simp add: ipc_inv_def)
  note k = ipc_core_port [OF core q] and cn = chans_port_None [OF core q]
  note rc = port_wf_refcnt(1) [OF k]
  let ?q = "q\<lparr>p_handle := (p_handle q)\<lparr>refcnt := refcnt (p_handle q) - 1\<rparr>\<rparr>"
  show ?thesis
  proof (cases "count H h = 1")
    case False
    then have c2: "count H h \<ge> 2" using h(1) by (metis count_greater_eq_one_iff Suc_1 not_less_eq_eq le_antisym)
    then have m: "h \<in># H - {#h#}" by (auto simp: in_diff_count)
    have "port_wf (H - {#h#}) (ipc_port_list w) h ?q"
      using k c2 m by (auto simp: port_wf_def of_nat_diff)
    then have "ipc_core tmp (H - {#h#}) (w\<lparr>ports := (ports w)(h \<mapsto> ?q), ipc_port_list := ipc_port_list w\<rparr>)"
      using core q m by (intro core_port_upd [OF core q]) (auto simp: ipc_core_def addrs_wf_def ports_wf_def)
    moreover have "refcnt (p_handle q) \<noteq> 1" using rc c2 by (auto split: if_splits)
    then have "handle_decref h w = w\<lparr>ports := (ports w)(h \<mapsto> ?q)\<rparr>" using handle_decref_port_many [OF cn q] by simp
    ultimately show ?thesis using inv by (simp add: ipc_inv_def alive_def)
  next
    case True
    then have e: "p_pending_list q = []" "\<not> p_node q" using h(2) q cn by (auto simp: quiescent_def)
    then have "refcnt (p_handle q) = 1" "h_ops (p_handle q) = OPS_PORT" using rc k True by (simp_all add: port_wf_def)
    then have "handle_decref h w = w\<lparr>ports := (ports w)(h := None)\<rparr>"
      using q cn e by (simp add: handle_decref_def handle_destroy_def port_handle_destroy_def exec_simps kassert_def)
    then show ?thesis using core_port_free [OF core q True e] inv by (simp add: ipc_inv_def alive_def)
  qed
qed

lemma holder_cases:
  assumes "ipc_core tmp H w" "h \<in># H"
  obtains x where "chans w h = Some x" "h_ops (c_handle x) = OPS_CHAN"
  | q where "ports w h = Some q" "chans w h = None" "h_ops (p_handle q) = OPS_PORT"
proof -
  have "h \<in> dom (chans w) \<union> dom (ports w)" using assms unfolding ipc_core_def addrs_wf_def by blast
  then consider x where "chans w h = Some x" | q where "ports w h = Some q" by blast
  then show thesis
  proof cases
    case 1
    then show ?thesis using that(1) ipc_core_chan(2) [OF assms(1) 1] assms(2) by (simp add: hdl_wf_def)
  next
    case 2
    then show ?thesis using that(2) ipc_core_port [OF assms(1) 2] chans_port_None [OF assms(1) 2] by (simp add: port_wf_def)
  qed
qed

lemma handle_decref_inv:
  assumes inv: "ipc_inv tmp H w" and h: "h \<in># H" "count H h \<ge> 2 \<or> quiescent w h"
  shows "ipc_inv tmp (H - {#h#}) (handle_decref h w)"
proof -
  have core: "ipc_core tmp H w" using inv by (simp add: ipc_inv_def)
  from core h(1) show ?thesis
    by (cases rule: holder_cases) (use chan_decref_inv [OF inv h] port_decref_inv [OF inv h] in blast)+
qed

lemma handle_close_inv:
  assumes inv: "ipc_inv {} H w" and h: "h \<in># H"
  shows "ipc_inv {} (H - {#h#}) (handle_close h w)"
proof -
  have core: "ipc_core {} H w" using inv by (simp add: ipc_inv_def)
  from core h show ?thesis
  proof (cases rule: holder_cases)
    case (1 x)
    then have "c_state x = IPC_CHAN_STATE_WAITING_FOR_PORT \<Longrightarrow> c_node x = NodeWaiting"
      using ipc_core_chan(4) [OF core 1(1)] by (simp add: phase_wf_def)
    from chan_shutdown_locked_inv [OF inv 1(1) this] have s: "ipc_inv {} H (chan_shutdown_locked h w)"
      "quiescent (chan_shutdown_locked h w) h" by (auto simp: shut_effect_def quiescent_def)
    then show ?thesis using handle_decref_inv [OF s(1) h] 1 by (simp add: handle_close_def exec_simps)
  next
    case (2 q)
    have s: "ipc_inv {} H (port_shutdown h w)" "quiescent (port_shutdown h w) h"
      using port_shutdown_inv [OF inv 2(1)] chans_port_None [of "{}" H "port_shutdown h w" h]
      by (auto simp: quiescent_def ipc_inv_def)
    then show ?thesis using handle_decref_inv [OF s(1) h] 2 by (simp add: handle_close_def exec_simps)
  qed
qed

end
