(* ===== verification/Ipc_Setup.thy ===== *)
theory Ipc_Setup
  imports Ipc_Safe
begin

text \<open>
  Creating and publishing ports, connecting and accepting: every branch keeps the invariant.
\<close>

section \<open>Allocation\<close>

lemma kalloc_cases: obtains b A where "kalloc w = (b, w\<lparr>allocs := A\<rparr>)"
proof -
  have "\<exists>b A. kalloc w = (b, w\<lparr>allocs := A\<rparr>)"
  proof (cases "allocs w")
    case Nil
    then have "kalloc w = (True, w\<lparr>allocs := allocs w\<rparr>)" by (simp add: kalloc_def)
    then show ?thesis by blast
  qed (auto simp: kalloc_def)
  then show thesis using that by blast
qed

lemma chan_alloc_cases:
  obtains A where "chan_alloc flags uuid w = (None, w\<lparr>allocs := A\<rparr>)"
  | A where "chan_alloc flags uuid w = (Some (next_addr w),
      w\<lparr>chans := (chans w)(next_addr w \<mapsto> new_chan flags uuid), next_addr := Suc (next_addr w), allocs := A\<rparr>)"
proof -
  obtain b A where k: "kalloc w = (b, w\<lparr>allocs := A\<rparr>)" by (rule kalloc_cases)
  show thesis
  proof (cases b)
    case False
    then show ?thesis using k that(1) [of A] by (simp add: chan_alloc_def)
  next
    case True
    then show ?thesis using k that(2) [of A] by (simp add: chan_alloc_def new_chan_def)
  qed
qed

lemma alloc_msg_queue_cases:
  assumes "n \<le> IPC_CHAN_MAX_BUFS"
  obtains A where "alloc_msg_queue n sz w = (Inl ERR_NO_MEMORY, w\<lparr>allocs := A\<rparr>)"
  | A mq where "alloc_msg_queue n sz w = (Inr mq, w\<lparr>allocs := A\<rparr>)" "mq_wf mq"
proof -
  obtain a1 A1 where 1: "kalloc w = (a1, w\<lparr>allocs := A1\<rparr>)" by (rule kalloc_cases)
  obtain a2 A2 where 2: "kalloc (w\<lparr>allocs := A1\<rparr>) = (a2, w\<lparr>allocs := A1\<rparr>\<lparr>allocs := A2\<rparr>)" by (rule kalloc_cases)
  show thesis
  proof (cases "ipc_msg_queue_create a1 a2 n sz")
    case (Inl e)
    then have "e = ERR_NO_MEMORY" by (auto simp: ipc_msg_queue_create_def split: if_splits)
    then show ?thesis using 1 2 Inl that(1) [of A1] that(1) [of A2] by (cases a1) (auto simp: alloc_msg_queue_def ipc_msg_queue_create_def)
  next
    case (Inr mq)
    then have "mq_wf mq" using mq_wf_create [OF _ Inr] assms by (simp add: IPC_CHAN_MAX_BUFS_def)
    moreover have a1 using Inr by (auto simp: ipc_msg_queue_create_def split: if_splits)
    ultimately show ?thesis using 1 2 Inr that(2) [of mq A2] by (simp add: alloc_msg_queue_def)
  qed
qed

section \<open>Attaching a client to a port\<close>

text \<open>What attaching leaves as it was, and the two possible outcomes for the client.\<close>

definition attach_effect :: "addr \<Rightarrow> addr \<Rightarrow> ipc_chan \<Rightarrow> kst \<Rightarrow> unit res \<Rightarrow> kst \<Rightarrow> bool" where
  "attach_effect p c x w r w' \<longleftrightarrow>
     waiting_for_port_chan_list w' = waiting_for_port_chan_list w \<and> ipc_port_list w' = ipc_port_list w \<and>
     (\<forall>e. e \<noteq> c \<longrightarrow> chans w e \<noteq> None \<longrightarrow> chans w' e = chans w e) \<and>
     (\<forall>e. e \<noteq> p \<longrightarrow> ports w' e = ports w e) \<and>
     (\<forall>q. ports w p = Some q \<longrightarrow> (\<exists>q'. ports w' p = Some q' \<and> p_path q' = p_path q \<and>
        p_state q' = p_state q \<and> p_flags q' = p_flags q \<and> p_node q' = p_node q)) \<and>
     (case r of
        Inl e \<Rightarrow> \<exists>mq. chans w' c = Some (x\<lparr>c_msg_queue := mq\<rparr>)
      | Inr _ \<Rightarrow> \<exists>s mq. chans w' c = Some (attached_client s mq x))"

lemma attach_link_eq:
  assumes q: "ports w p = Some q" "chans w p = None"
    and c: "chans w c = Some x" "RefPeer s \<notin> set (c_refobj x)"
    and s: "chans w s = Some y" "c_refobj y = [RefTmp]" "s \<noteq> c" "c \<noteq> p" "s \<noteq> p"
    and mq: "c_msg_queue x = Some cmq" "c_msg_queue y = Some smq"
  obtains S where "attach_link p c s w =
     w\<lparr>chans := (chans w)(c \<mapsto> attached_client s cmq x, s \<mapsto> attached_server c p smq y),
       ports := (ports w)(p \<mapsto> q\<lparr>p_pending_list := p_pending_list q @ [s],
           p_handle := (p_handle q)\<lparr>refcnt := refcnt (p_handle q) + 1\<rparr>\<rparr>), signaled := S\<rparr>"
proof -
  let ?q = "q\<lparr>p_pending_list := p_pending_list q @ [s], p_handle := (p_handle q)\<lparr>refcnt := refcnt (p_handle q) + 1\<rparr>\<rparr>"
  let ?y = "y\<lparr>c_state := IPC_CHAN_STATE_ACCEPTING, c_peer := Some c, c_refobj := [RefTmp, RefPeer c, RefNode],
     c_node := NodePending p\<rparr>"
  let ?x = "x\<lparr>c_state := IPC_CHAN_STATE_CONNECTING, c_peer := Some s, c_refobj := c_refobj x @ [RefPeer s]\<rparr>"
  let ?w7 = "w\<lparr>chans := (chans w)(c \<mapsto> ?x, s \<mapsto> ?y), ports := (ports w)(p \<mapsto> ?q)\<rparr>"
  have "attach_link p c s w = chan_del_ref s RefTmp (handle_notify p ?w7)"
    using q c s
    by (simp add: attach_link_def chan_add_ref_def kassert_def handle_incref_def exec_simps fun_upd_twist)
  moreover obtain S where "handle_notify p ?w7 = ?w7\<lparr>signaled := S\<rparr>"
    using notify_cases [of ?w7 p] q s by (auto simp: handle_at_def)
  moreover have "chan_del_ref s RefTmp (?w7\<lparr>signaled := S\<rparr>) =
     ?w7\<lparr>chans := (chans ?w7)(s \<mapsto> ?y\<lparr>c_refobj := [RefPeer c, RefNode]\<rparr>), signaled := S\<rparr>"
    by (simp add: chan_del_ref_def kassert_def upd_chan_Some)
  moreover have "attached_client s cmq x = ?x" "attached_server c p smq y = ?y\<lparr>c_refobj := [RefPeer c, RefNode]\<rparr>"
    using mq by (simp_all add: attached_client_def attached_server_def)
  ultimately show thesis using that [of S] by simp
qed

lemma inv_next_addr:
  assumes "ipc_inv tmp H w"
  shows "ipc_inv tmp H (w\<lparr>next_addr := Suc (next_addr w), allocs := A\<rparr>)"
proof -
  have "addrs_wf tmp H (w\<lparr>next_addr := Suc (next_addr w), allocs := A\<rparr>)"
    using assms unfolding ipc_inv_def ipc_core_def addrs_wf_def by (simp add: less_Suc_eq)
  then show ?thesis using assms by (simp add: ipc_inv_def ipc_core_def alive_def chans_wf_def ports_wf_def)
qed

lemma chan_del_tmp_fresh:
  assumes "chans w s = Some y" "c_refobj y = [RefTmp]" "c_peer y = None" "c_node y = NodeClear"
  shows "chan_del_ref s RefTmp w = w\<lparr>chans := (chans w)(s := None)\<rparr>"
  using assms by (simp add: chan_del_ref_def kassert_def upd_chan_Some chan_destroy_refobj_def)

lemma attach_refused:
  assumes inv: "ipc_inv tmp H w" and c: "chans w c = Some x" "c_peer x = None"
    and w': "w' = w\<lparr>chans := (chans w)(c \<mapsto> x\<lparr>c_msg_queue := None\<rparr>), next_addr := Suc (next_addr w), allocs := A\<rparr>"
  shows "ipc_inv tmp H w' \<and> attach_effect p c x w (Inl e) w'"
proof -
  have "ipc_core tmp H (w\<lparr>chans := (chans w)(c \<mapsto> x\<lparr>c_msg_queue := None\<rparr>)\<rparr>)" (is "ipc_core tmp H ?w")
    using inv c by (intro core_chan_local [of tmp H w c x]) (auto simp: ipc_inv_def)
  then have "ipc_inv tmp H ?w" using inv c by (auto simp: ipc_inv_def alive_def)
  from inv_next_addr [OF this, of A] show ?thesis
    unfolding w' by (auto simp: attach_effect_def)
qed

lemma attach_guard:
  assumes "port_attach_client p c w = (r, w')" "ports w p = Some q" "chans w c = Some x"
  shows "(\<exists>e. (r, w') = (Inl e, w)) \<or>
    p_state q = IPC_PORT_STATE_LISTENING \<and> (\<exists>u. check_access q (Some (c_uuid x)) = Inr u)"
proof (cases "p_state q = IPC_PORT_STATE_LISTENING")
  case True
  show ?thesis
  proof (cases "check_access q (Some (c_uuid x))")
    case (Inl a)
    then have "(r, w') = (Inl a, w)" using assms True by (simp add: port_attach_client_def)
    then show ?thesis by blast
  qed (use True in blast)
qed (use assms in \<open>auto simp: port_attach_client_def\<close>)

lemma attach_success:
  assumes inv: "ipc_inv tmp H w" and p: "ports w p = Some q"
    and c: "chans w c = Some x" "c \<in> tmp" "c_node x = NodeClear"
      "c_state x \<in> {IPC_CHAN_STATE_INVALID, IPC_CHAN_STATE_WAITING_FOR_PORT}"
    and mq: "mq_wf cmq" "mq_wf smq"
    and w': "w' = attach_link p c (next_addr w) (w\<lparr>chans := (chans w)(next_addr w \<mapsto>
        (new_chan IPC_CHAN_FLAG_SERVER (p_uuid q))\<lparr>c_msg_queue := Some smq\<rparr>, c \<mapsto> x\<lparr>c_msg_queue := Some cmq\<rparr>),
        next_addr := Suc (next_addr w), allocs := A\<rparr>)"
  shows "ipc_inv tmp H w' \<and> attach_effect p c x w NO_ERROR w'"
proof -
  let ?s = "next_addr w" and ?y = "new_chan IPC_CHAN_FLAG_SERVER (p_uuid q)"
  let ?q = "q\<lparr>p_pending_list := p_pending_list q @ [?s], p_handle := (p_handle q)\<lparr>refcnt := refcnt (p_handle q) + 1\<rparr>\<rparr>"
  let ?w1 = "w\<lparr>chans := (chans w)(?s \<mapsto> ?y), next_addr := Suc ?s\<rparr>"
  have core: "ipc_core tmp H w" using inv by (simp add: ipc_inv_def)
  note fr = fresh_addr [OF core] and cn = chans_port_None [OF core p]
  have ne: "?s \<noteq> c" "?s \<noteq> p" "c \<noteq> p" using fr(1,2) c(1) p cn by auto
  have core1: "ipc_core (insert ?s tmp) H ?w1"
    using core_alloc [OF core refl, of IPC_CHAN_FLAG_SERVER "p_uuid q"] by simp
  have at1: "chans ?w1 c = Some x" "chans ?w1 ?s = Some ?y" "ports ?w1 p = Some q" using c(1) ne p by simp_all
  have "ipc_core (insert ?s tmp - {?s}) H (?w1\<lparr>chans := (chans ?w1)(c \<mapsto> attached_client ?s cmq x, ?s \<mapsto> attached_server c p smq ?y),
      ports := (ports ?w1)(p \<mapsto> ?q)\<rparr>)"
    using core_attach [OF core1 at1(1) _ c(3,4) at1(2) _ _ _ _ at1(3) mq] c(2) ne by (simp add: new_chan_def)
  then have core2: "ipc_core tmp H (w\<lparr>chans := (chans w)(c \<mapsto> attached_client ?s cmq x, ?s \<mapsto> attached_server c p smq ?y),
      ports := (ports w)(p \<mapsto> ?q), next_addr := Suc ?s\<rparr>)"
    using fr(4) ne by (simp add: fun_upd_twist [of ?s c])
  have np: "RefPeer ?s \<notin> set (c_refobj x)"
    using ipc_core_chan(1) [OF core c(1)] fr(1) by (simp add: refs_wf_def peers_def)
  let ?w2 = "w\<lparr>chans := (chans w)(?s \<mapsto> ?y\<lparr>c_msg_queue := Some smq\<rparr>, c \<mapsto> x\<lparr>c_msg_queue := Some cmq\<rparr>),
      next_addr := Suc ?s, allocs := A\<rparr>"
  obtain S where eq: "w' = ?w2\<lparr>chans := (chans ?w2)(c \<mapsto> attached_client ?s cmq (x\<lparr>c_msg_queue := Some cmq\<rparr>),
      ?s \<mapsto> attached_server c p smq (?y\<lparr>c_msg_queue := Some smq\<rparr>)), ports := (ports ?w2)(p \<mapsto> ?q), signaled := S\<rparr>"
    unfolding w' by (rule attach_link_eq [of ?w2 p q c "x\<lparr>c_msg_queue := Some cmq\<rparr>" ?s
        "?y\<lparr>c_msg_queue := Some smq\<rparr>" cmq smq]) (use p cn np ne in \<open>simp_all add: new_chan_def\<close>)
  have ac: "attached_client ?s cmq (x\<lparr>c_msg_queue := Some cmq\<rparr>) = attached_client ?s cmq x"
    "attached_server c p smq (?y\<lparr>c_msg_queue := Some smq\<rparr>) = attached_server c p smq ?y"
    by (simp_all add: attached_client_def attached_server_def)
  have eq': "w' = w\<lparr>chans := (chans w)(c \<mapsto> attached_client ?s cmq x, ?s \<mapsto> attached_server c p smq ?y),
      ports := (ports w)(p \<mapsto> ?q), next_addr := Suc ?s, allocs := A, signaled := S\<rparr>"
    unfolding eq ac using ne by (simp add: fun_upd_twist [of ?s c])
  have "alive w'" unfolding eq' using inv
    by (auto simp: ipc_inv_def alive_def attached_client_def attached_server_def)
  moreover have "attach_effect p c x w NO_ERROR w'"
    unfolding eq' attach_effect_def using ne fr(1) p by auto
  ultimately show ?thesis unfolding ipc_inv_def eq' using core2 by simp
qed

lemma port_attach_client_inv:
  assumes inv: "ipc_inv tmp H w" and p: "ports w p = Some q"
    and c: "chans w c = Some x" "c \<in> tmp" "c_node x = NodeClear"
      "c_state x \<in> {IPC_CHAN_STATE_INVALID, IPC_CHAN_STATE_WAITING_FOR_PORT}"
    and at: "port_attach_client p c w = (r, w')"
  shows "ipc_inv tmp H w' \<and> attach_effect p c x w r w'"
proof -
  have core: "ipc_core tmp H w" using inv by (simp add: ipc_inv_def)
  note fr = fresh_addr [OF core] and k = ipc_core_port [OF core p] and cn = chans_port_None [OF core p]
  have pn: "c_peer x = None" using waiting_unlinked(1) [OF core c(1)] c(4) by simp
  have ne: "c \<noteq> next_addr w" "p \<noteq> next_addr w" "c \<noteq> p" using fr(1,2) c(1) p cn by auto
  have same: "attach_effect p c x w (Inl e) w" for e
    using c(1) by (auto simp: attach_effect_def intro!: exI [of _ "c_msg_queue x"])
  have bufs: "p_num_recv_bufs q \<le> IPC_CHAN_MAX_BUFS" using k by (simp add: port_wf_def)
  let ?s = "next_addr w" and ?y = "new_chan IPC_CHAN_FLAG_SERVER (p_uuid q)"
  consider (refuse) e where "(r, w') = (Inl e, w)"
    | (go) u where "p_state q = IPC_PORT_STATE_LISTENING" "check_access q (Some (c_uuid x)) = Inr u"
    using attach_guard [OF at p c(1)] by blast
  then show ?thesis
  proof cases
    case refuse
    then show ?thesis using inv same by simp
  next
    case go
    note ex = at [unfolded port_attach_client_def] p c(1) go
    show ?thesis
    proof (cases rule: chan_alloc_cases [of IPC_CHAN_FLAG_SERVER "p_uuid q" w])
      case (1 A)
      then show ?thesis using ex inv c(1)
        by (auto simp: ipc_inv_def attach_effect_def intro!: exI [of _ "c_msg_queue x"])
    next
      case (2 A)
      let ?w1 = "w\<lparr>chans := (chans w)(?s \<mapsto> ?y), next_addr := Suc ?s, allocs := A\<rparr>"
      show ?thesis
      proof (cases rule: alloc_msg_queue_cases [OF bufs, of "p_recv_buf_size q" ?w1])
        case (1 A1)
        have "chan_del_ref ?s RefTmp (?w1\<lparr>allocs := A1\<rparr>) = w\<lparr>next_addr := Suc ?s, allocs := A1\<rparr>"
          using fr(1) by (subst chan_del_tmp_fresh) (auto simp: new_chan_def fun_upd_idem)
        then have "r = Inl ERR_NO_MEMORY" "w' = w\<lparr>next_addr := Suc ?s, allocs := A1\<rparr>" using ex 2 1 by simp_all
        then show ?thesis using inv_next_addr [OF inv, of A1] c(1)
          by (auto simp: attach_effect_def intro!: exI [of _ "c_msg_queue x"])
      next
        case m1: (2 A1 cmq)
        let ?x = "x\<lparr>c_msg_queue := Some cmq\<rparr>"
        let ?w3 = "w\<lparr>chans := (chans w)(?s \<mapsto> ?y, c \<mapsto> ?x), next_addr := Suc ?s, allocs := A1\<rparr>"
        have w3: "upd_chan c (\<lambda>x. x\<lparr>c_msg_queue := Some cmq\<rparr>) (?w1\<lparr>allocs := A1\<rparr>) = ?w3"
          using c(1) ne by (simp add: upd_chan_Some)
        show ?thesis
        proof (cases rule: alloc_msg_queue_cases [OF bufs, of "p_recv_buf_size q" ?w3])
          case (1 A2)
          let ?w4 = "w\<lparr>chans := (chans w)(?s \<mapsto> ?y, c \<mapsto> x\<lparr>c_msg_queue := None\<rparr>), next_addr := Suc ?s, allocs := A2\<rparr>"
          have u: "upd_chan c (\<lambda>x. x\<lparr>c_msg_queue := None\<rparr>) (?w3\<lparr>allocs := A2\<rparr>) = ?w4"
            by (simp add: upd_chan_Some)
          have "chan_del_ref ?s RefTmp ?w4 = w\<lparr>chans := (chans w)(c \<mapsto> x\<lparr>c_msg_queue := None\<rparr>), next_addr := Suc ?s, allocs := A2\<rparr>"
            using fr(1) ne by (subst chan_del_tmp_fresh) (auto simp: new_chan_def fun_upd_twist fun_upd_idem)
          then have "r = Inl ERR_NO_MEMORY"
            "w' = w\<lparr>chans := (chans w)(c \<mapsto> x\<lparr>c_msg_queue := None\<rparr>), next_addr := Suc ?s, allocs := A2\<rparr>"
            using ex 2 m1(1) 1 w3 u by simp_all
          then show ?thesis using attach_refused [OF inv c(1) pn] by blast
        next
          case m2: (2 A2 smq)
          have "r = NO_ERROR" "w' = attach_link p c ?s (w\<lparr>chans := (chans w)(?s \<mapsto> ?y\<lparr>c_msg_queue := Some smq\<rparr>,
              c \<mapsto> x\<lparr>c_msg_queue := Some cmq\<rparr>), next_addr := Suc ?s, allocs := A2\<rparr>)"
            using ex 2 m1(1) m2(1) w3 ne by (simp_all add: upd_chan_Some fun_upd_twist)
          then show ?thesis using attach_success [OF inv p c m1(2) m2(2)] by simp
        qed
      qed
    qed
  qed
qed

section \<open>Connecting\<close>

lemma tmp_drop_inv:
  assumes inv: "ipc_inv tmp H w" and c: "chans w c = Some x" "c \<in> tmp"
    and s: "c_state x = IPC_CHAN_STATE_WAITING_FOR_PORT \<Longrightarrow> c_node x = NodeWaiting"
    and p: "c_peer x \<noteq> None \<Longrightarrow> c \<in># H \<or> c_node x \<noteq> NodeClear"
  shows "ipc_inv (tmp - {c}) H (chan_del_ref c RefTmp w)"
proof -
  have core: "ipc_core tmp H w" using inv by (simp add: ipc_inv_def)
  have r: "RefTmp \<in> set (c_refobj x)" using ipc_core_chan(1) [OF core c(1)] c(2) by (simp add: refs_wf_def)
  show ?thesis
    by (rule chan_del_ref_core(2) [OF c(1) r core_tmp_drop [OF core c(1) s p]])
      (use inv in \<open>auto simp: ipc_inv_def alive_def\<close>)
qed

text \<open>\<^verbatim>\<open>chan_handle_init\<close> followed by the end of the local reference.\<close>

lemma handle_init_drop:
  assumes "chans w c = Some x" "RefHandle \<notin> set (c_refobj x)" "RefTmp \<in> set (c_refobj x)"
  shows "chan_del_ref c RefTmp (chan_handle_init c w) =
    w\<lparr>chans := (chans w)(c \<mapsto> x\<lparr>c_handle := \<lparr>refcnt = 1, h_ops = OPS_CHAN, wait_event = None, h_cookie = 0\<rparr>,
        c_refobj := remove1 RefTmp (c_refobj x @ [RefHandle])\<rparr>), hlinked := hlinked w - {c}\<rparr>"
  using assms
  by (simp add: chan_handle_init_def handle_init_def chan_add_ref_def chan_del_ref_def kassert_def exec_simps remove1_append)

lemma client_handle_inv:
  assumes inv: "ipc_inv tmp H w" and c: "chans w c = Some x" "c \<in> tmp" "c \<notin># H" "c_node x = NodeClear"
      "c_state x \<noteq> IPC_CHAN_STATE_INVALID" "c_state x \<noteq> IPC_CHAN_STATE_WAITING_FOR_PORT"
  shows "ipc_inv (tmp - {c}) (add_mset c H) (chan_del_ref c RefTmp (chan_handle_init c w))"
proof -
  have core: "ipc_core tmp H w" using inv by (simp add: ipc_inv_def)
  have r: "RefHandle \<notin> set (c_refobj x)" "RefTmp \<in> set (c_refobj x)"
    using ipc_core_chan(1) [OF core c(1)] c(2,3) by (auto simp: refs_wf_def)
  show ?thesis
    unfolding handle_init_drop [OF c(1) r] ipc_inv_def
    using core_handle_new [OF core c] inv r by (auto simp: ipc_inv_def alive_def remove1_append)
qed

lemma port_find_Some:
  "port_find ps ls path = Some p \<Longrightarrow> p \<in> set ls \<and> (\<exists>q. ps p = Some q \<and> p_path q = path)"
  by (induction ls) (auto split: option.splits if_splits)

lemma port_find_None:
  "port_find ps ls path = None \<Longrightarrow> p \<in> set ls \<Longrightarrow> ps p = Some q \<Longrightarrow> p_path q \<noteq> path"
  by (induction ls) (auto split: option.splits if_splits)

lemma chan_alloc_inv:
  assumes inv: "ipc_inv {} H w" and a: "chan_alloc flags uuid w = (Some c, w1)"
  shows "ipc_inv {c} H w1" "chans w1 c = Some (new_chan flags uuid)" "c \<notin># H" "chans w c = None" "c = next_addr w"
    "ports w1 = ports w" "ipc_port_list w1 = ipc_port_list w"
    "waiting_for_port_chan_list w1 = waiting_for_port_chan_list w"
proof -
  have core: "ipc_core {} H w" using inv by (simp add: ipc_inv_def)
  obtain A where w1: "c = next_addr w" "w1 = w\<lparr>chans := (chans w)(next_addr w \<mapsto> new_chan flags uuid),
      next_addr := Suc (next_addr w), allocs := A\<rparr>"
    using a by (cases rule: chan_alloc_cases [of flags uuid w]) auto
  have "ipc_core {c} H w1" using core_alloc [OF core, of c flags uuid] w1 by simp
  then show "ipc_inv {c} H w1" using inv w1 by (auto simp: ipc_inv_def alive_def new_chan_def)
  show "chans w1 c = Some (new_chan flags uuid)" "c \<notin># H" "chans w c = None" "c = next_addr w"
    "ports w1 = ports w" "ipc_port_list w1 = ipc_port_list w"
    "waiting_for_port_chan_list w1 = waiting_for_port_chan_list w"
    using fresh_addr [OF core] w1 by simp_all
qed

text \<open>The branch of a client that waits for its port.\<close>

lemma connect_wait_inv:
  assumes inv: "ipc_inv {c} H w" and c: "chans w c = Some (new_chan flags uuid)" "c \<notin># H"
    and w': "w' = chan_del_ref c RefTmp (chan_handle_init c (chan_add_ref c RefNode
      ((upd_chan c (\<lambda>x. x\<lparr>c_node := NodeWaiting\<rparr>) (upd_chan c (\<lambda>x. x\<lparr>c_state := IPC_CHAN_STATE_WAITING_FOR_PORT\<rparr>)
        (upd_chan c (\<lambda>x. x\<lparr>c_path := Some path\<rparr>) w)))\<lparr>waiting_for_port_chan_list := waiting_for_port_chan_list w @ [c]\<rparr>)))"
  shows "ipc_inv {} (add_mset c H) w'"
proof -
  have core: "ipc_core {c} H w" using inv by (simp add: ipc_inv_def)
  let ?h = "\<lparr>refcnt = 1, h_ops = OPS_CHAN, wait_event = None, h_cookie = 0\<rparr>"
  let ?x = "(new_chan flags uuid)\<lparr>c_path := Some path, c_state := IPC_CHAN_STATE_WAITING_FOR_PORT, c_node := NodeWaiting,
      c_handle := ?h, c_refobj := [RefNode, RefHandle]\<rparr>"
  have "w' = w\<lparr>chans := (chans w)(c \<mapsto> ?x), waiting_for_port_chan_list := waiting_for_port_chan_list w @ [c],
      hlinked := hlinked w - {c}\<rparr>"
    unfolding w' using c(1) by (simp add: upd_chan_Some chan_add_ref_def kassert_def handle_init_drop new_chan_def)
  moreover have "ipc_core ({c} - {c}) (add_mset c H)
      (w\<lparr>chans := (chans w)(c \<mapsto> ?x), waiting_for_port_chan_list := waiting_for_port_chan_list w @ [c]\<rparr>)"
    by (rule core_wait [OF core c(1) _ c(2)]) (simp_all add: new_chan_def)
  ultimately show ?thesis using inv by (auto simp: ipc_inv_def alive_def)
qed

lemma inv_allocs: "ipc_inv tmp H w \<Longrightarrow> ipc_inv tmp H (w\<lparr>allocs := A\<rparr>)"
  by (simp add: ipc_inv_def)

lemma connect_find_inv:
  assumes inv: "ipc_inv {c} H w" and c: "chans w c = Some (new_chan 0 uuid)" "c \<notin># H"
    and p: "ports w p = Some q" and at: "port_attach_client p c w = (r, w2)"
  shows "case r of Inl _ \<Rightarrow> ipc_inv {} H (chan_del_ref c RefTmp w2)
    | Inr _ \<Rightarrow> ipc_inv {} (add_mset c H) (chan_del_ref c RefTmp (chan_handle_init c w2))"
proof -
  have a: "ipc_inv {c} H w2" "attach_effect p c (new_chan 0 uuid) w r w2"
    using port_attach_client_inv [OF inv p c(1) _ _ _ at] by (auto simp: new_chan_def)
  show ?thesis
  proof (cases r)
    case (Inl e)
    then obtain mq where "chans w2 c = Some ((new_chan 0 uuid)\<lparr>c_msg_queue := mq\<rparr>)"
      using a(2) by (auto simp: attach_effect_def)
    from tmp_drop_inv [OF a(1) this] show ?thesis using Inl by (simp add: new_chan_def)
  next
    case (Inr u)
    then obtain s mq where "chans w2 c = Some (attached_client s mq (new_chan 0 uuid))"
      using a(2) by (auto simp: attach_effect_def)
    from client_handle_inv [OF a(1) this] show ?thesis using Inr c(2) by (simp add: attached_client_def new_chan_def)
  qed
qed

lemma ipc_port_connect_async_inv:
  assumes inv: "ipc_inv {} H w" and r: "ipc_port_connect_async cid path mp flags w = (r, w')"
  shows "case r of Inl _ \<Rightarrow> ipc_inv {} H w' | Inr c \<Rightarrow> ipc_inv {} (add_mset c H) w' \<and> c = next_addr w"
proof -
  consider (bad) e where "(r, w') = (Inl e, w)" | (go) uuid where "cid = Some uuid" "\<not> (length path = 0 \<or> length path \<ge> mp)"
    using r by (cases cid) (auto simp: ipc_port_connect_async_def split: if_splits)
  then show ?thesis
  proof cases
    case bad
    then show ?thesis using inv by simp
  next
    case go
    note ex = r [unfolded ipc_port_connect_async_def] go
    show ?thesis
    proof (cases "chan_alloc 0 uuid w")
      case (Pair co w1)
      show ?thesis
      proof (cases co)
        case None
        then obtain A where "w1 = w\<lparr>allocs := A\<rparr>" using Pair by (cases rule: chan_alloc_cases [of 0 uuid w]) auto
        then show ?thesis using ex Pair None inv_allocs [OF inv] by auto
      next
        case (Some c)
        note al = chan_alloc_inv [OF inv Pair [unfolded Some]]
        show ?thesis
        proof (cases "port_find_locked w1 path")
          case found: (Some p)
          then obtain q where q: "ports w1 p = Some q" using port_find_Some [of "ports w1" "ipc_port_list w1" path p] by (auto simp: port_find_locked_def)
          obtain r2 w2 where at: "port_attach_client p c w1 = (r2, w2)" by force
          from connect_find_inv [OF al(1-3) q at] show ?thesis
            using ex Pair Some found at al(5) by (auto split: sum.splits)
        next
          case nf: None
          obtain b A where k: "kalloc w1 = (b, w1\<lparr>allocs := A\<rparr>)" by (rule kalloc_cases)
          have drop: "ipc_inv {} H (chan_del_ref c RefTmp w1)" "ipc_inv {} H (chan_del_ref c RefTmp (w1\<lparr>allocs := A\<rparr>))"
            using tmp_drop_inv [OF al(1,2)] tmp_drop_inv [OF inv_allocs [OF al(1)], of A c "new_chan 0 uuid"] al(2)
            by (auto simp: new_chan_def)
          have wait: "ipc_inv {c} H (w1\<lparr>allocs := A\<rparr>)" "chans (w1\<lparr>allocs := A\<rparr>) c = Some (new_chan 0 uuid)"
            using inv_allocs [OF al(1)] al(2) by auto
          show ?thesis
            using ex Pair Some nf k drop connect_wait_inv [OF wait al(3) refl, of path] al(2,5)
            by (auto simp: Let_def upd_chan_Some split: if_splits)
        qed
      qed
    qed
  qed
qed

section \<open>Accepting\<close>

lemma chan_del_ref_signaled:
  "chan_del_ref c r (w\<lparr>signaled := S\<rparr>) = (chan_del_ref c r w)\<lparr>signaled := S\<rparr>"
  by (simp add: chan_del_ref_def upd_chan_def kassert_def fault_def chan_destroy_refobj_def Let_def split: option.split)

text \<open>The state in which the server channel is off the list and held by a local reference.\<close>

lemma accept_taken:
  assumes inv: "ipc_inv {} H w" and q: "ports w p = Some q" "p_pending_list q = s # ss"
  obtains x w4 where "chans w s = Some x"
    "handle_decref p (chan_del_ref s RefNode (chan_add_ref s RefTmp (chan_node_delete s w))) = w4"
    "ipc_inv {s} H w4" "chans w4 s = Some (x\<lparr>c_node := NodeClear, c_refobj := remove1 RefNode (c_refobj x @ [RefTmp])\<rparr>)"
    "c_flags x AND IPC_CHAN_FLAG_SERVER \<noteq> 0" "s \<notin># H" "c_state x \<noteq> IPC_CHAN_STATE_WAITING_FOR_PORT"
    "c_state x \<noteq> IPC_CHAN_STATE_INVALID"
    "chans (chan_node_delete s w) s = Some (x\<lparr>c_node := NodeClear\<rparr>)"
proof -
  have core: "ipc_core {} H w" using inv by (simp add: ipc_inv_def)
  have mem: "s \<in> set (p_pending_list q)" using q(2) by simp
  obtain x where x: "chans w s = Some x" "c_node x = NodePending p" "chans w p = None" "s \<noteq> p" "s \<notin># H"
    "c_flags x AND IPC_CHAN_FLAG_SERVER \<noteq> 0" "RefNode \<in> set (c_refobj x)"
    using pending_chan [OF core q(1) mem] by blast
  have nt: "RefTmp \<notin> set (c_refobj x)" using ipc_core_chan(1) [OF core x(1)] by (simp add: refs_wf_def)
  let ?x1 = "x\<lparr>c_refobj := c_refobj x @ [RefTmp]\<rparr>"
  let ?x = "x\<lparr>c_node := NodeClear, c_refobj := remove1 RefNode (c_refobj x @ [RefTmp])\<rparr>"
  let ?w1 = "w\<lparr>chans := (chans w)(s \<mapsto> ?x1)\<rparr>"
  let ?w4 = "w\<lparr>chans := (chans w)(s \<mapsto> ?x), ports := (ports w)(p \<mapsto> drop_pending s q)\<rparr>"
  have core1: "ipc_core {s} H ?w1" using core_tmp_add [OF core x(1)] by simp
  have core4: "ipc_core {s} H ?w4"
    using core_leave_pending [OF core1, of s ?x1 p q] x(2) q(1) by (simp add: drop_pending_def)
  have ne: "remove1 RefNode (c_refobj x @ [RefTmp]) \<noteq> []" using x(7) by (simp add: remove1_append)
  have nd: "chan_node_delete s w = w\<lparr>chans := (chans w)(s \<mapsto> x\<lparr>c_node := NodeClear\<rparr>),
    ports := (ports w)(p \<mapsto> q\<lparr>p_pending_list := remove1 s (p_pending_list q)\<rparr>)\<rparr>"
    by (rule chan_node_delete_pending [OF x(1,2) q(1)])
  have "refcnt (p_handle q) \<noteq> 1" using pending_refcnt [OF core q(1) mem] by simp
  then have "handle_decref p (chan_del_ref s RefNode (chan_add_ref s RefTmp (chan_node_delete s w))) = ?w4"
    unfolding nd using x nt ne q(1)
    by (simp add: chan_add_ref_def chan_del_ref_def kassert_def upd_chan_Some handle_decref_port_many drop_pending_def)
  moreover have "ipc_inv {s} H ?w4" using core4 inv ne by (auto simp: ipc_inv_def alive_def)
  moreover have "c_state x \<noteq> IPC_CHAN_STATE_WAITING_FOR_PORT" "c_state x \<noteq> IPC_CHAN_STATE_INVALID"
    using ipc_core_chan(4) [OF core x(1)] x(2,7) by (auto simp: phase_wf_def)
  ultimately show thesis using that [of x ?w4] x nd by simp
qed

lemma accept_drop_inv:
  assumes inv: "ipc_inv {s} H w" and s: "chans w s = Some x" "c_state x \<noteq> IPC_CHAN_STATE_WAITING_FOR_PORT"
  shows "ipc_inv {} H (chan_del_ref s RefTmp (chan_shutdown_locked s w))"
proof -
  have e: "ipc_inv {s} H (chan_shutdown_locked s w)" "shut_effect s x w (chan_shutdown_locked s w)"
    using chan_shutdown_locked_inv [OF inv s(1)] s(2) by auto
  then obtain x' where x': "chans (chan_shutdown_locked s w) s = Some x'" "quiet x'" by (auto simp: shut_effect_def)
  from tmp_drop_inv [OF e(1) x'(1)] x'(2) show ?thesis by (simp add: quiet_def)
qed

lemma accept_connect_inv:
  assumes inv: "ipc_inv {s} H w"
    and s: "chans w s = Some y" "c_peer y = Some c" "c_node y = NodeClear" "s \<notin># H"
    and c: "chans w c = Some x" "c_state y = IPC_CHAN_STATE_ACCEPTING"
    and w6: "w6 = upd_chan c (\<lambda>x. x\<lparr>c_state := IPC_CHAN_STATE_CONNECTED, c_aux_state := c_aux_state x OR IPC_CHAN_AUX_STATE_CONNECTED\<rparr>)
        (upd_chan s (\<lambda>x. x\<lparr>c_state := IPC_CHAN_STATE_CONNECTED\<rparr>) w)"
  shows "ipc_inv {} (add_mset s H) (chan_del_ref s RefTmp (handle_notify c (chan_handle_init s w6)))"
proof -
  have core: "ipc_core {s} H w" using inv by (simp add: ipc_inv_def)
  have l: "links_wf (peers (chans w)) (states (chans w))" using core by (simp add: ipc_core_def)
  have "peers (chans w) s = Some c" "states (chans w) s = Some IPC_CHAN_STATE_ACCEPTING" using s c(2) by (simp_all add: views)
  then have "\<exists>d. peers (chans w) s = Some d \<and> peers (chans w) d = Some s" "c \<noteq> s"
    using l unfolding links_wf_def by (metis partner.simps(1), metis)
  then have p: "c_peer x = Some s" "c \<noteq> s" using \<open>peers (chans w) s = Some c\<close> c(1) by (auto simp: views)
  let ?y = "y\<lparr>c_state := IPC_CHAN_STATE_CONNECTED\<rparr>"
  let ?x = "x\<lparr>c_state := IPC_CHAN_STATE_CONNECTED, c_aux_state := c_aux_state x OR IPC_CHAN_AUX_STATE_CONNECTED\<rparr>"
  have eq: "w6 = w\<lparr>chans := (chans w)(s \<mapsto> ?y, c \<mapsto> ?x)\<rparr>" unfolding w6 using s(1) c(1) p(2) by (simp add: upd_chan_Some)
  have i6: "ipc_inv {s} H w6" unfolding eq ipc_inv_def
    using core_connected [OF core s(1-3) c(1) p(1)] inv s(1) c(1) by (auto simp: ipc_inv_def alive_def)
  have s6: "chans w6 s = Some ?y" "chans w6 c = Some ?x" unfolding eq using p(2) by simp_all
  have "handle_at (chan_handle_init s w6) c \<noteq> None"
    using s6 p(2) by (simp add: chan_handle_init_def handle_init_def chan_add_ref_def kassert_def fault_def exec_simps handle_at_def)
  then obtain S where "handle_notify c (chan_handle_init s w6) = (chan_handle_init s w6)\<lparr>signaled := S\<rparr>"
    using notify_cases [of "chan_handle_init s w6" c] by blast
  moreover have "ipc_inv {} (add_mset s H) (chan_del_ref s RefTmp (chan_handle_init s w6))"
    using client_handle_inv [OF i6 s6(1)] s(3,4) by simp
  ultimately show ?thesis by (simp add: chan_del_ref_signaled ipc_inv_def)
qed

lemma ipc_port_accept_cases:
  assumes core: "ipc_core {} H w" and h: "\<And>p. ph = Some p \<Longrightarrow> p \<in># H" and r: "ipc_port_accept ph w = (r, w')"
  shows "(\<exists>e. (r, w') = (Inl e, w)) \<or>
    (\<exists>p q s ss. ports w p = Some q \<and> p_pending_list q = s # ss \<and> accept_server p s w = (r, w'))"
proof (cases ph)
  case None
  then show ?thesis using r by (auto simp: ipc_port_accept_def)
next
  case (Some p)
  from core h [OF Some] show ?thesis
  proof (cases rule: holder_cases)
    case (1 x)
    then show ?thesis using r Some by (auto simp: ipc_port_accept_def ipc_is_port_def handle_at_def)
  next
    case (2 q)
    show ?thesis
    proof (cases "p_state q = IPC_PORT_STATE_LISTENING \<and> p_pending_list q \<noteq> []")
      case True
      then obtain s ss where "p_pending_list q = s # ss" by (meson neq_Nil_conv)
      moreover from this have "accept_server p s w = (r, w')"
        using r Some 2 True by (simp add: ipc_port_accept_def ipc_is_port_def handle_at_def)
      ultimately show ?thesis using 2(1) by blast
    qed (use r Some 2 in \<open>auto simp: ipc_port_accept_def ipc_is_port_def handle_at_def split: if_splits\<close>)
  qed
qed

lemma ipc_port_accept_inv:
  assumes inv: "ipc_inv {} H w" and h: "\<And>p. ph = Some p \<Longrightarrow> p \<in># H" and r: "ipc_port_accept ph w = (r, w')"
  shows "case r of Inl _ \<Rightarrow> ipc_inv {} H w' | Inr (s, _) \<Rightarrow> ipc_inv {} (add_mset s H) w' \<and> s \<notin># H"
proof -
  have core: "ipc_core {} H w" using inv by (simp add: ipc_inv_def)
  consider (no) e where "(r, w') = (Inl e, w)"
    | (go) p q s ss where "ports w p = Some q" "p_pending_list q = s # ss" "accept_server p s w = (r, w')"
    using ipc_port_accept_cases [OF core h r] by blast
  then show ?thesis
  proof cases
    case no
    then show ?thesis using inv by simp
  next
    case go
    obtain x w4 where t: "chans w s = Some x"
      "handle_decref p (chan_del_ref s RefNode (chan_add_ref s RefTmp (chan_node_delete s w))) = w4"
      "ipc_inv {s} H w4" "chans w4 s = Some (x\<lparr>c_node := NodeClear, c_refobj := remove1 RefNode (c_refobj x @ [RefTmp])\<rparr>)"
      "c_flags x AND IPC_CHAN_FLAG_SERVER \<noteq> 0" "s \<notin># H" "c_state x \<noteq> IPC_CHAN_STATE_WAITING_FOR_PORT"
      "c_state x \<noteq> IPC_CHAN_STATE_INVALID"
      "chans (chan_node_delete s w) s = Some (x\<lparr>c_node := NodeClear\<rparr>)"
      by (rule accept_taken [OF inv go(1,2)])
    have core4: "ipc_core {s} H w4" using t(3) by (simp add: ipc_inv_def)
    have k: "kassert (case chans (chan_node_delete s w) s of Some x \<Rightarrow> c_flags x AND IPC_CHAN_FLAG_SERVER \<noteq> 0 | None \<Rightarrow> False)
        (chan_node_delete s w) = chan_node_delete s w"
      using t(5,9) by (simp add: kassert_def)
    have "accept_server p s w = (case c_peer x of
         None \<Rightarrow> (Inl ERR_CHANNEL_CLOSED, chan_del_ref s RefTmp (chan_shutdown_locked s w4))
       | Some client \<Rightarrow> (case chans w4 client of
           None \<Rightarrow> (Inl ERR_CHANNEL_CLOSED, fault w4)
         | Some cl \<Rightarrow>
             if c_state x \<noteq> IPC_CHAN_STATE_ACCEPTING \<or> c_state cl \<noteq> IPC_CHAN_STATE_CONNECTING
             then (Inl ERR_CHANNEL_CLOSED, chan_del_ref s RefTmp (chan_shutdown_locked s w4))
             else (Inr (s, c_uuid cl), chan_del_ref s RefTmp (handle_notify client (chan_handle_init s
               (upd_chan client (\<lambda>x. x\<lparr>c_state := IPC_CHAN_STATE_CONNECTED, c_aux_state := c_aux_state x OR IPC_CHAN_AUX_STATE_CONNECTED\<rparr>)
                 (upd_chan s (\<lambda>x. x\<lparr>c_state := IPC_CHAN_STATE_CONNECTED\<rparr>) w4)))))))"
      unfolding accept_server_def Let_def k t(2) t(4) by (simp split: option.split)
    moreover have "ipc_inv {} H (chan_del_ref s RefTmp (chan_shutdown_locked s w4))"
      using accept_drop_inv [OF t(3,4)] t(7) by simp
    moreover have "chans w4 d \<noteq> None" if "c_peer x = Some d" for d
      using peer_live [OF core4, of s d] that t(4) by (simp add: views)
    moreover have "ipc_inv {} (add_mset s H) (chan_del_ref s RefTmp (handle_notify d (chan_handle_init s
               (upd_chan d (\<lambda>x. x\<lparr>c_state := IPC_CHAN_STATE_CONNECTED, c_aux_state := c_aux_state x OR IPC_CHAN_AUX_STATE_CONNECTED\<rparr>)
                 (upd_chan s (\<lambda>x. x\<lparr>c_state := IPC_CHAN_STATE_CONNECTED\<rparr>) w4)))))"
      if "c_peer x = Some d" "chans w4 d = Some cl" "c_state x = IPC_CHAN_STATE_ACCEPTING" for d cl
      using accept_connect_inv [OF t(3,4) _ _ t(6) that(2) _ refl] that by simp
    ultimately show ?thesis using go(3) t(6)
      by (auto split: option.splits if_splits)
  qed
qed

section \<open>Creating a port\<close>

lemma ipc_port_create_inv:
  assumes inv: "ipc_inv {} H w" and r: "ipc_port_create sid path n sz flags w = (r, w')"
  shows "case r of
      Inl _ \<Rightarrow> ipc_inv {} H w'
    | Inr p \<Rightarrow> ipc_inv {} (add_mset p H) w' \<and> p = next_addr w \<and>
        (\<exists>q. ports w' p = Some q \<and> p_path q = path \<and> \<not> p_node q \<and> p_flags q = flags)"
proof -
  have core: "ipc_core {} H w" using inv by (simp add: ipc_inv_def)
  obtain b A where k: "kalloc w = (b, w\<lparr>allocs := A\<rparr>)" by (rule kalloc_cases)
  note e = r [unfolded ipc_port_create_def]
  show ?thesis
  proof (cases r)
    case (Inl er)
    then show ?thesis using e k inv inv_allocs [OF inv]
      by (auto split: option.splits if_splits simp: Let_def)
  next
    case (Inr p)
    then obtain uuid where g: "sid = Some uuid" "0 < n" "n \<le> IPC_CHAN_MAX_BUFS" "0 < sz" "sz \<le> IPC_CHAN_MAX_BUF_SIZE"
      "0 < length path" "length path < IPC_PORT_PATH_MAX" "p = next_addr w" b
      using e k by (auto split: option.splits if_splits simp: Let_def)
    let ?h = "\<lparr>refcnt = 1, h_ops = OPS_PORT, wait_event = None, h_cookie = 0\<rparr>"
    let ?q = "\<lparr>p_path = path, p_uuid = uuid, p_state = IPC_PORT_STATE_INVALID, p_flags = flags, p_num_recv_bufs = n,
        p_recv_buf_size = sz, p_handle = ?h, p_pending_list = [], p_node = False\<rparr>"
    note fr = fresh_addr [OF core]
    have w': "w' = w\<lparr>ports := (ports w)(p \<mapsto> ?q), next_addr := Suc p, allocs := A,
        hlinked := hlinked w - {p}\<rparr>"
      using e k g fr(1) by (simp add: Let_def handle_init_def upd_handle_port)
    have "ipc_core {} (add_mset p H) (w\<lparr>next_addr := Suc p, ports := (ports w)(p \<mapsto> ?q)\<rparr>)"
      using g fr(7) by (intro core_port_new [OF core g(8)])
        (auto simp: port_wf_def count_greater_zero_iff [symmetric] simp del: count_greater_zero_iff)
    then show ?thesis using Inr inv g w' by (simp add: ipc_inv_def alive_def)
  qed
qed

section \<open>Publishing a port\<close>

lemma allocs_frame [simp]:
  "allocs (fault w) = allocs w" "allocs (kassert b w) = allocs w" "allocs (upd_chan c f w) = allocs w"
  "allocs (upd_port p g w) = allocs w" "allocs (upd_handle h k w) = allocs w" "allocs (handle_notify h w) = allocs w"
  "allocs (handle_incref h w) = allocs w"
  by (simp_all add: fault_def kassert_def upd_chan_def upd_port_def upd_handle_def handle_notify_def handle_incref_def
      split: option.split)

lemma allocs_frame_ref [simp]:
  "allocs (chan_add_ref c r w) = allocs w" "allocs (chan_del_ref c r w) = allocs w"
  "allocs (chan_node_delete c w) = allocs w" "allocs (attach_link p c s w) = allocs w"
  by (simp_all add: chan_add_ref_def chan_del_ref_def chan_destroy_refobj_def chan_node_delete_def attach_link_def Let_def
      split: option.split chan_node.split)

definition new_queue :: "nat \<Rightarrow> nat \<Rightarrow> ipc_msg_queue" where
  "new_queue n sz = (case ipc_msg_queue_create True True n sz of Inr mq \<Rightarrow> mq)"

lemma attach_plenty_eq:
  assumes "allocs w = []" "ports w p = Some q" "chans w c = Some x" "p_state q = IPC_PORT_STATE_LISTENING"
    "check_access q (Some (c_uuid x)) = NO_ERROR" "c \<noteq> next_addr w"
  shows "port_attach_client p c w = (NO_ERROR, attach_link p c (next_addr w)
     (w\<lparr>chans := (chans w)(next_addr w \<mapsto> (new_chan IPC_CHAN_FLAG_SERVER (p_uuid q))
          \<lparr>c_msg_queue := Some (new_queue (p_num_recv_bufs q) (p_recv_buf_size q))\<rparr>,
        c \<mapsto> x\<lparr>c_msg_queue := Some (new_queue (p_num_recv_bufs q) (p_recv_buf_size q))\<rparr>), next_addr := Suc (next_addr w)\<rparr>))"
  using assms
  by (simp add: port_attach_client_def chan_alloc_def alloc_msg_queue_def kalloc_def ipc_msg_queue_create_def new_queue_def
      upd_chan_Some new_chan_def fun_upd_twist)

lemma attach_succeeds:
  assumes "allocs w = []" "ports w p = Some q" "chans w c = Some x" "p_state q = IPC_PORT_STATE_LISTENING"
    "check_access q (Some (c_uuid x)) = NO_ERROR" "c \<noteq> next_addr w"
  obtains w' where "port_attach_client p c w = (NO_ERROR, w')" "allocs w' = []"
  using attach_plenty_eq [OF assms] assms(1) that by simp

text \<open>
  Publishing is safe when every client that waits for this name can be attached: it is allowed
  to connect and memory does not run out.
\<close>

definition publish_safe :: "addr \<Rightarrow> kst \<Rightarrow> bool" where
  "publish_safe p w \<longleftrightarrow> (\<forall>q c x. ports w p = Some q \<longrightarrow> c \<in> set (waiting_for_port_chan_list w) \<longrightarrow>
     chans w c = Some x \<longrightarrow> c_path x = Some (p_path q) \<longrightarrow>
     allocs w = [] \<and> check_access q (Some (c_uuid x)) = NO_ERROR)"

lemma check_access_flags: "p_flags q' = p_flags q \<Longrightarrow> check_access q' u = check_access q u"
  by (simp add: check_access_def split: option.split)

text \<open>A waiting client is taken off the list and held by a local reference.\<close>

lemma publish_taken:
  assumes inv: "ipc_inv {} H w" and c: "chans w c = Some x" "c_node x = NodeWaiting"
    and w4: "w4 = chan_del_ref c RefNode (chan_node_delete c (chan_add_ref c RefTmp (upd_chan c (\<lambda>x. x\<lparr>c_path := None\<rparr>) w)))"
  shows "ipc_inv {c} H w4"
    "w4 = w\<lparr>chans := (chans w)(c \<mapsto> x\<lparr>c_node := NodeClear, c_refobj := remove1 RefNode (c_refobj x @ [RefTmp]), c_path := None\<rparr>),
       waiting_for_port_chan_list := remove1 c (waiting_for_port_chan_list w)\<rparr>"
proof -
  have core: "ipc_core {} H w" using inv by (simp add: ipc_inv_def)
  note k = ipc_core_chan [OF core c(1)]
  have st: "c_state x = IPC_CHAN_STATE_WAITING_FOR_PORT" using k(3) c(2) by (simp add: node_wf_def)
  have r: "RefNode \<in> set (c_refobj x)" "RefTmp \<notin> set (c_refobj x)" using k(1) c(2) by (auto simp: refs_wf_def)
  then have ne: "remove1 RefNode (c_refobj x @ [RefTmp]) \<noteq> []" by (simp add: remove1_append)
  let ?x1 = "x\<lparr>c_refobj := c_refobj x @ [RefTmp]\<rparr>"
  let ?x = "x\<lparr>c_node := NodeClear, c_refobj := remove1 RefNode (c_refobj x @ [RefTmp]), c_path := None\<rparr>"
  let ?w4 = "w\<lparr>chans := (chans w)(c \<mapsto> ?x), waiting_for_port_chan_list := remove1 c (waiting_for_port_chan_list w)\<rparr>"
  have o: "x\<lparr>c_path := None, c_node := NodeClear, c_refobj := R\<rparr> = x\<lparr>c_node := NodeClear, c_refobj := R, c_path := None\<rparr>" for R
    by simp
  show eq: "w4 = ?w4"
    unfolding w4 using c r ne
    by (simp add: o upd_chan_Some chan_add_ref_def kassert_def chan_node_delete_def chan_del_ref_def Let_def)
  have core1: "ipc_core {c} H (w\<lparr>chans := (chans w)(c \<mapsto> ?x1)\<rparr>)" using core_tmp_add [OF core c(1)] by simp
  have "x\<lparr>c_node := NodeClear, c_refobj := R, c_state := IPC_CHAN_STATE_WAITING_FOR_PORT, c_path := None\<rparr> =
      x\<lparr>c_node := NodeClear, c_refobj := R, c_path := None\<rparr>" for R using st by simp
  then have "ipc_core {c} H ?w4"
    using core_leave_waiting [OF core1, of c ?x1 IPC_CHAN_STATE_WAITING_FOR_PORT None] c(2) by simp
  then show "ipc_inv {c} H w4" unfolding eq using inv ne by (auto simp: ipc_inv_def alive_def)
qed

lemma chan_del_ref_frame:
  "chans w c = Some x \<Longrightarrow> e \<noteq> c \<Longrightarrow> chans (chan_del_ref c r w) e = chans w e"
  "ports (chan_del_ref c r w) = ports w" "ipc_port_list (chan_del_ref c r w) = ipc_port_list w"
  "waiting_for_port_chan_list (chan_del_ref c r w) = waiting_for_port_chan_list w"
  by (auto simp: chan_del_ref_def kassert_def fault_def upd_chan_def chan_destroy_refobj_def Let_def split: option.split)

lemma publish_client_inv:
  assumes inv: "ipc_inv {} H w" and c: "chans w c = Some x" "c_node x = NodeWaiting" "c_path x = Some (p_path q)"
    and p: "ports w p = Some q" "p_state q = IPC_PORT_STATE_LISTENING" "p_node q"
    and ok: "allocs w = []" "check_access q (Some (c_uuid x)) = NO_ERROR"
  obtains w7 q' where "port_publish_clients p (p_path q) (c # cs) w = port_publish_clients p (p_path q) cs w7"
    "ipc_inv {} H w7" "ports w7 p = Some q'" "p_path q' = p_path q" "p_state q' = p_state q" "p_flags q' = p_flags q" "p_node q'"
    "\<And>e. e \<noteq> c \<Longrightarrow> chans w e \<noteq> None \<Longrightarrow> chans w7 e = chans w e"
    "waiting_for_port_chan_list w7 = remove1 c (waiting_for_port_chan_list w)" "allocs w7 = []"
proof -
  have core: "ipc_core {} H w" using inv by (simp add: ipc_inv_def)
  note k = ipc_core_chan [OF core c(1)]
  have st: "c_state x = IPC_CHAN_STATE_WAITING_FOR_PORT" and h: "c \<in># H" using k(3) c(2) by (auto simp: node_wf_def)
  obtain w4 where w4: "w4 = chan_del_ref c RefNode (chan_node_delete c (chan_add_ref c RefTmp (upd_chan c (\<lambda>x. x\<lparr>c_path := None\<rparr>) w)))"
    by blast
  note t = publish_taken [OF inv c(1,2) w4]
  let ?x = "x\<lparr>c_node := NodeClear, c_refobj := remove1 RefNode (c_refobj x @ [RefTmp]), c_path := None\<rparr>"
  have x4: "chans w4 c = Some ?x" "ports w4 p = Some q" "allocs w4 = []" using t(2) p(1) ok(1) by simp_all
  have nx: "c \<noteq> next_addr w4" using fresh_addr(1) [OF core] c(1) t(2) by auto
  obtain w5 where at: "port_attach_client p c w4 = (NO_ERROR, w5)" "allocs w5 = []"
    using attach_succeeds [OF x4(3,2,1) p(2)] ok(2) nx by auto
  have a: "ipc_inv {c} H w5" "attach_effect p c ?x w4 NO_ERROR w5"
    using port_attach_client_inv [OF t(1) x4(2,1) _ _ _ at(1)] st by auto
  obtain s mq where x5: "chans w5 c = Some (attached_client s mq ?x)" using a(2) by (auto simp: attach_effect_def)
  have "c_state (attached_client s mq ?x) \<noteq> IPC_CHAN_STATE_WAITING_FOR_PORT" by (simp add: attached_client_def)
  then have i7: "ipc_inv {} H (chan_del_ref c RefTmp w5)" using tmp_drop_inv [OF a(1) x5] h by simp
  have step: "port_publish_clients p (p_path q) (c # cs) w = port_publish_clients p (p_path q) cs (chan_del_ref c RefTmp w5)"
    using c(1,3) at(1) by (simp add: Let_def w4 [symmetric])
  obtain q' where q': "ports w5 p = Some q'" "p_path q' = p_path q" "p_state q' = p_state q" "p_flags q' = p_flags q" "p_node q' = p_node q"
    using a(2) x4(2) by (auto simp: attach_effect_def)
  have wl: "waiting_for_port_chan_list w5 = remove1 c (waiting_for_port_chan_list w)"
    using a(2) t(2) by (simp add: attach_effect_def)
  have oth: "chans (chan_del_ref c RefTmp w5) e = chans w e" if "e \<noteq> c" "chans w e \<noteq> None" for e
    using that a(2) t(2) x5 by (simp add: chan_del_ref_frame attach_effect_def)
  show thesis
    using that [OF step i7 _ q'(2-4)] q' oth wl at(2) p(3) by (simp add: chan_del_ref_frame)
qed

lemma publish_clients_inv:
  assumes "ipc_inv {} H w" "ports w p = Some q" "p_state q = IPC_PORT_STATE_LISTENING" "p_node q"
    "set cs \<subseteq> set (waiting_for_port_chan_list w)" "distinct cs"
    "\<And>c x. c \<in> set cs \<Longrightarrow> chans w c = Some x \<Longrightarrow> c_path x = Some (p_path q) \<Longrightarrow>
       allocs w = [] \<and> check_access q (Some (c_uuid x)) = NO_ERROR"
  shows "ipc_inv {} H (port_publish_clients p (p_path q) cs w)"
  using assms
proof (induction cs arbitrary: w q)
  case Nil
  then show ?case by simp
next
  case (Cons c cs)
  have core: "ipc_core {} H w" using Cons.prems(1) by (simp add: ipc_inv_def)
  have cw: "c \<in> set (waiting_for_port_chan_list w)" using Cons.prems(5) by simp
  then have "c \<in> dom (chans w)" using core unfolding ipc_core_def addrs_wf_def by blast
  then obtain x where x: "chans w c = Some x" by blast
  have n: "c_node x = NodeWaiting" using ipc_core_chan(3) [OF core x] cw unfolding node_wf_def by blast
  then obtain cp where cp: "c_path x = Some cp" using ipc_core_chan(3) [OF core x] unfolding node_wf_def by blast
  show ?case
  proof (cases "cp = p_path q")
    case False
    have "port_publish_clients p (p_path q) (c # cs) w = port_publish_clients p (p_path q) cs w"
      using x cp False by simp
    moreover have "ipc_inv {} H (port_publish_clients p (p_path q) cs w)"
      by (rule Cons.IH [OF Cons.prems(1-4)]) (use Cons.prems(5,6) in simp_all, meson Cons.prems(7) list.set_intros(2))
    ultimately show ?thesis by simp
  next
    case True
    have ok: "allocs w = []" "check_access q (Some (c_uuid x)) = NO_ERROR"
      using Cons.prems(7) [of c x] x cp True by simp_all
    obtain w7 q' where g: "port_publish_clients p (p_path q) (c # cs) w = port_publish_clients p (p_path q) cs w7"
      "ipc_inv {} H w7" "ports w7 p = Some q'" "p_path q' = p_path q" "p_state q' = p_state q" "p_flags q' = p_flags q" "p_node q'"
      "\<And>e. e \<noteq> c \<Longrightarrow> chans w e \<noteq> None \<Longrightarrow> chans w7 e = chans w e"
      "waiting_for_port_chan_list w7 = remove1 c (waiting_for_port_chan_list w)" "allocs w7 = []"
      using publish_client_inv [OF Cons.prems(1) x n _ Cons.prems(2-4) ok] cp True by metis
    have sub: "set cs \<subseteq> set (waiting_for_port_chan_list w7)"
      using g(9) Cons.prems(5,6) core by (auto simp: ipc_core_def addrs_wf_def)
    have "allocs w7 = [] \<and> check_access q' (Some (c_uuid y)) = NO_ERROR"
      if "d \<in> set cs" "chans w7 d = Some y" "c_path y = Some (p_path q')" for d y
    proof -
      have "d \<noteq> c" using that(1) Cons.prems(6) by auto
      moreover have "chans w d \<noteq> None"
        using that(1) Cons.prems(5) core unfolding ipc_core_def addrs_wf_def by auto
      ultimately have "chans w d = Some y" using g(8) that(2) by simp
      then show ?thesis using Cons.prems(7) [of d y] that g(4,6,10) check_access_flags [OF g(6)] by simp
    qed
    then have "ipc_inv {} H (port_publish_clients p (p_path q') cs w7)"
      using Cons.IH [OF g(2,3)] g(5,7) Cons.prems(3,6) sub by simp
    then show ?thesis using g(1,4) by simp
  qed
qed

text \<open>The port is listed and listening before the waiting clients are looked at.\<close>

lemma publish_listed:
  assumes inv: "ipc_inv {} H w" and p: "ports w p = Some q" "\<not> p_node q" and None: "port_find_locked w (p_path q) = None"
    and q': "q' = q\<lparr>p_state := IPC_PORT_STATE_LISTENING, p_node := True,
      p_handle := (p_handle q)\<lparr>refcnt := refcnt (p_handle q) + 1\<rparr>\<rparr>"
    and w': "w' = w\<lparr>ports := (ports w)(p \<mapsto> q'), ipc_port_list := ipc_port_list w @ [p]\<rparr>"
  shows "ipc_inv {} H w'"
    "ipc_port_publish p w = (NO_ERROR, port_publish_clients p (p_path q) (waiting_for_port_chan_list w) w')"
proof -
  have core: "ipc_core {} H w" using inv by (simp add: ipc_inv_def)
  note k = ipc_core_port [OF core p(1)] and cn = chans_port_None [OF core p(1)]
  have nl: "p \<notin> set (ipc_port_list w)" "distinct (ipc_port_list w)"
    using k p(2) core by (auto simp: port_wf_def ipc_core_def addrs_wf_def)
  have "port_wf H (ipc_port_list w @ [p]) p q'" using k p(2) by (auto simp: port_wf_def q')
  moreover have "e = p" if "e \<in> set (ipc_port_list w)" "ports w e = Some y" "p_path y = p_path q" for e y
    using port_find_None [of "ports w" "ipc_port_list w" "p_path q" e y] None that by (simp add: port_find_locked_def)
  ultimately have "ipc_core {} H w'"
    unfolding w' using nl port_wf_refcnt(3) [OF k] by (intro core_port_upd [OF core p(1)]) (auto simp: q')
  then show "ipc_inv {} H w'" using inv by (simp add: ipc_inv_def alive_def w')
  show "ipc_port_publish p w = (NO_ERROR, port_publish_clients p (p_path q) (waiting_for_port_chan_list w) w')"
    using p None cn
    by (simp add: ipc_port_publish_def kassert_def port_find_locked_def upd_port_Some handle_incref_def upd_handle_port w' q')
qed

lemma ipc_port_publish_inv:
  assumes inv: "ipc_inv {} H w" and p: "ports w p = Some q" "\<not> p_node q" and ok: "publish_safe p w"
  shows "ipc_inv {} H (snd (ipc_port_publish p w))"
proof (cases "port_find_locked w (p_path q)")
  case (Some r)
  then show ?thesis using inv p by (simp add: ipc_port_publish_def kassert_def)
next
  case None
  have core: "ipc_core {} H w" using inv by (simp add: ipc_inv_def)
  let ?q = "q\<lparr>p_state := IPC_PORT_STATE_LISTENING, p_node := True,
      p_handle := (p_handle q)\<lparr>refcnt := refcnt (p_handle q) + 1\<rparr>\<rparr>"
  let ?w = "w\<lparr>ports := (ports w)(p \<mapsto> ?q), ipc_port_list := ipc_port_list w @ [p]\<rparr>"
  note l = publish_listed [OF inv p None refl refl]
  have "ipc_inv {} H (port_publish_clients p (p_path ?q) (waiting_for_port_chan_list w) ?w)"
  proof (rule publish_clients_inv [OF l(1)])
    show "distinct (waiting_for_port_chan_list w)" using core by (simp add: ipc_core_def addrs_wf_def)
    show "allocs ?w = [] \<and> check_access ?q (Some (c_uuid x)) = NO_ERROR"
      if "c \<in> set (waiting_for_port_chan_list w)" "chans ?w c = Some x" "c_path x = Some (p_path ?q)" for c x
      using ok that p(1) check_access_flags [of ?q q] by (auto simp: publish_safe_def)
  qed simp_all
  then show ?thesis using l(2) by simp
qed

end
