(* ===== verification/Ipc_Reach.thy ===== *)
theory Ipc_Reach
  imports Ipc_Setup
begin

text \<open>
  Messages on channels keep the invariant; the operations of IPC as a step relation, the
  states it reaches, and what holds of them.
\<close>

section \<open>Messages keep the invariant\<close>

lemma is_channel_chan:
  assumes "ipc_core tmp H w" "ipc_is_channel w c"
  obtains x where "chans w c = Some x" "h_ops (c_handle x) = OPS_CHAN"
proof (cases "chans w c")
  case None
  then obtain q where "ports w c = Some q" "h_ops (p_handle q) = OPS_CHAN"
    using assms(2) by (auto simp: ipc_is_channel_def handle_at_def split: option.splits)
  then show ?thesis using ipc_core_port [OF assms(1)] by (auto simp: port_wf_def)
qed (use assms(2) that in \<open>auto simp: ipc_is_channel_def handle_at_def\<close>)

lemma inv_chan_local:
  assumes "ipc_inv tmp H w" "chans w c = Some x"
    "c_refobj x' = c_refobj x" "c_peer x' = c_peer x" "c_state x' = c_state x" "c_flags x' = c_flags x"
    "c_handle x' = c_handle x" "c_node x' = c_node x" "c_path x' = c_path x"
    "c_peer x \<noteq> None \<longrightarrow> c_msg_queue x' \<noteq> None" "\<forall>mq. c_msg_queue x' = Some mq \<longrightarrow> mq_wf mq"
  shows "ipc_inv tmp H (w\<lparr>chans := (chans w)(c \<mapsto> x')\<rparr>)"
proof -
  have "c_refobj x' \<noteq> []" using assms(1-3) by (simp add: ipc_inv_def alive_def)
  then show ?thesis
    using core_chan_local [of tmp H w c x x'] assms by (auto simp: ipc_inv_def alive_def)
qed

lemma chan_queue_wf:
  assumes "ipc_core tmp H w" "chans w c = Some x"
  shows "c_msg_queue x = Some mq \<Longrightarrow> mq_wf mq" "c_peer x \<noteq> None \<Longrightarrow> \<exists>mq. c_msg_queue x = Some mq"
  using ipc_core_chan(4) [OF assms] by (auto simp: phase_wf_def)

lemma inv_notify:
  assumes "ipc_inv tmp H w" "handle_at w h = Some x"
  shows "ipc_inv tmp H (handle_notify h w)"
proof -
  obtain S where "handle_notify h w = w\<lparr>signaled := S\<rparr>" using notify_cases [OF assms(2)] by blast
  then show ?thesis using assms(1) by (simp add: ipc_inv_def)
qed

lemma connected_peer:
  assumes "ipc_core tmp H w" "chans w c = Some x" "c_state x = IPC_CHAN_STATE_CONNECTED"
  obtains d y mq where "c_peer x = Some d" "chans w d = Some y" "c_peer y = Some c"
    "c_state y = IPC_CHAN_STATE_CONNECTED" "c_msg_queue y = Some mq" "mq_wf mq" "d \<noteq> c"
proof -
  have l: "links_wf (peers (chans w)) (states (chans w))" using assms(1) by (simp add: ipc_core_def)
  have "states (chans w) c = Some IPC_CHAN_STATE_CONNECTED" using assms(2,3) by (simp add: views)
  then obtain d where d: "peers (chans w) c = Some d" "peers (chans w) d = Some c"
      "states (chans w) d = Some IPC_CHAN_STATE_CONNECTED"
    using l unfolding links_wf_def by (metis partner.simps(3))
  have ne: "d \<noteq> c" using l d(1) unfolding links_wf_def by blast
  obtain y where y: "chans w d = Some y" "c_peer y = Some c" using d(2) peers_SomeD by blast
  then have "c_state y = IPC_CHAN_STATE_CONNECTED" using d(3) by (simp add: views)
  moreover obtain mq where "c_msg_queue y = Some mq" "mq_wf mq" using chan_queue_wf [OF assms(1) y(1)] y(2) by auto
  moreover have "c_peer x = Some d" using d(1) assms(2) by (simp add: views)
  ultimately show thesis using that y ne by blast
qed

lemma send_msg_locked_inv:
  assumes inv: "ipc_inv tmp H w"
  shows "ipc_inv tmp H (snd (send_msg_locked km um ch msg w))"
proof (cases "check_channel_connected_locked w ch")
  case (Inl e)
  then show ?thesis using inv by (simp add: send_msg_locked_def)
next
  case (Inr u)
  have core: "ipc_core tmp H w" using inv by (simp add: ipc_inv_def)
  from Inr obtain c x where c: "ch = Some c" "chans w c = Some x" "c_state x = IPC_CHAN_STATE_CONNECTED"
    by (auto simp: check_channel_connected_locked_def check_channel_locked_def
        split: option.splits if_splits sum.splits bind_splits)
  obtain d y mq where d: "c_peer x = Some d" "chans w d = Some y" "c_peer y = Some c"
    "c_msg_queue y = Some mq" "mq_wf mq" "d \<noteq> c"
    using connected_peer [OF core c(2,3)] by metis
  show ?thesis
  proof (cases "free_list mq = []")
    case True
    have "ipc_inv tmp H (w\<lparr>chans := (chans w)(c \<mapsto> x\<lparr>c_aux_state := c_aux_state x OR IPC_CHAN_AUX_STATE_SEND_BLOCKED\<rparr>)\<rparr>)"
      using chan_queue_wf [OF core c(2)] d(1) by (intro inv_chan_local [OF inv c(2)]) auto
    then show ?thesis using Inr c d True by (simp add: send_msg_locked_def msg_write_locked_def upd_chan_Some)
  next
    case False
    obtain mq' r where w: "msg_write_mq km um mq msg = (mq', r)" by force
    let ?w = "w\<lparr>chans := (chans w)(d \<mapsto> y\<lparr>c_msg_queue := Some mq'\<rparr>)\<rparr>"
    have "mq_wf mq'" using mq_wf_write [OF d(5), of km um msg] w by simp
    then have i: "ipc_inv tmp H ?w" by (intro inv_chan_local [OF inv d(2)]) auto
    moreover have "ipc_inv tmp H (handle_notify d ?w)" by (rule inv_notify [OF i]) (simp add: handle_at_def)
    ultimately show ?thesis using Inr c d False w
      by (auto simp: send_msg_locked_def msg_write_locked_def upd_chan_Some split: sum.split)
  qed
qed

text \<open>A channel on which there is a queue to read from.\<close>

definition has_queue :: "kst \<Rightarrow> addr \<Rightarrow> bool" where
  "has_queue w c = (case chans w c of Some x \<Rightarrow> c_msg_queue x \<noteq> None | None \<Rightarrow> False)"

lemma ipc_get_msg_inv:
  assumes inv: "ipc_inv tmp H w" and q: "\<And>c. ch = Some c \<Longrightarrow> ipc_is_channel w c \<Longrightarrow> has_queue w c"
  shows "ipc_inv tmp H (snd (ipc_get_msg ch w))"
proof (cases "check_channel_locked w ch")
  case (Inl e)
  then show ?thesis using inv by (simp add: ipc_get_msg_def)
next
  case (Inr u)
  have core: "ipc_core tmp H w" using inv by (simp add: ipc_inv_def)
  from Inr obtain c where c: "ch = Some c" "ipc_is_channel w c"
    by (auto simp: check_channel_locked_def split: option.splits if_splits)
  obtain x mq where x: "chans w c = Some x" "c_msg_queue x = Some mq"
    using q [OF c] by (auto simp: has_queue_def split: option.splits)
  have wf: "mq_wf mq" using chan_queue_wf(1) [OF core x] .
  show ?thesis
  proof (cases "filled_list mq")
    case Nil
    then show ?thesis using Inr c x inv by (simp add: ipc_get_msg_def msg_peek_next_filled_locked_def)
  next
    case (Cons i fs)
    then obtain mq' where g: "msg_get_filled_locked mq = Some mq'" by (simp add: msg_get_filled_locked_def Let_def)
    have "ipc_inv tmp H (w\<lparr>chans := (chans w)(c \<mapsto> x\<lparr>c_msg_queue := Some mq'\<rparr>)\<rparr>)"
      using mq_wf_get_filled [OF wf g] by (intro inv_chan_local [OF inv x(1)]) auto
    then show ?thesis using Inr c x g Cons by (simp add: ipc_get_msg_def msg_peek_next_filled_locked_def upd_chan_Some)
  qed
qed

lemma ipc_put_msg_inv:
  assumes inv: "ipc_inv tmp H w" and q: "\<And>c. ch = Some c \<Longrightarrow> ipc_is_channel w c \<Longrightarrow> has_queue w c"
  shows "ipc_inv tmp H (snd (ipc_put_msg ch mid w))"
proof (cases "check_channel_locked w ch")
  case (Inl e)
  then show ?thesis using inv by (simp add: ipc_put_msg_def)
next
  case (Inr u)
  have core: "ipc_core tmp H w" using inv by (simp add: ipc_inv_def)
  from Inr obtain c where c: "ch = Some c" "ipc_is_channel w c"
    by (auto simp: check_channel_locked_def split: option.splits if_splits)
  obtain x mq where x: "chans w c = Some x" "c_msg_queue x = Some mq"
    using q [OF c] by (auto simp: has_queue_def split: option.splits)
  have wf: "mq_wf mq" using chan_queue_wf(1) [OF core x] .
  show ?thesis
  proof (cases "msg_put_read_mq mq mid")
    case (Inl e)
    then show ?thesis using Inr c x inv by (simp add: ipc_put_msg_def msg_put_read_locked_def)
  next
    case put: (Inr mq')
    let ?w = "w\<lparr>chans := (chans w)(c \<mapsto> x\<lparr>c_msg_queue := Some mq'\<rparr>)\<rparr>"
    have i: "ipc_inv tmp H ?w" using mq_wf_put_read [OF wf put] by (intro inv_chan_local [OF inv x(1)]) auto
    show ?thesis
    proof (cases "c_peer x")
      case None
      then show ?thesis using Inr c x put i by (simp add: ipc_put_msg_def msg_put_read_locked_def upd_chan_Some)
    next
      case (Some d)
      then have pc: "peers (chans w) c = Some d" using x(1) by (simp add: views)
      obtain y where y: "chans w d = Some y" using peer_live [OF core pc] by blast
      have cd: "d \<noteq> c" using core pc unfolding ipc_core_def links_wf_def by blast
      have yw: "chans ?w d = Some y" using y cd by simp
      have ci: "ipc_core tmp H ?w" using i by (simp add: ipc_inv_def)
      have ia: "ipc_inv tmp H (?w\<lparr>chans := (chans ?w)(d \<mapsto> y\<lparr>c_aux_state := a\<rparr>)\<rparr>)" for a
        using chan_queue_wf [OF ci yw] by (intro inv_chan_local [OF i yw]) auto
      have "ipc_inv tmp H (handle_notify d (?w\<lparr>chans := (chans ?w)(d \<mapsto> y\<lparr>c_aux_state := a\<rparr>)\<rparr>))" for a
        by (rule inv_notify [OF ia]) (simp add: handle_at_def)
      then show ?thesis using Inr c x put i Some y cd
        by (simp add: ipc_put_msg_def msg_put_read_locked_def upd_chan_Some Let_def)
    qed
  qed
qed

lemma read_msg_locked_state:
  assumes "ipc_inv tmp H w" "\<And>c. ch = Some c \<Longrightarrow> ipc_is_channel w c \<Longrightarrow> has_queue w c"
  shows "snd (snd (snd (read_msg_locked km um ch mid off msg w))) = w"
  using assms(2)
  by (auto simp: read_msg_locked_def check_channel_locked_def has_queue_def split_beta split: option.splits)

lemma chan_finalize_event_inv:
  assumes inv: "ipc_inv tmp H w"
  shows "ipc_inv tmp H (handle_finalize_event h ev w)"
proof (cases "ipc_is_channel w h")
  case True
  have core: "ipc_core tmp H w" using inv by (simp add: ipc_inv_def)
  obtain x where x: "chans w h = Some x" using is_channel_chan [OF core True] by blast
  have "ipc_inv tmp H (w\<lparr>chans := (chans w)(h \<mapsto> x\<lparr>c_aux_state := a\<rparr>)\<rparr>)" for a
    using chan_queue_wf [OF core x] by (intro inv_chan_local [OF inv x]) auto
  then show ?thesis using x True inv
    by (simp add: handle_finalize_event_def chan_finalize_event_def upd_chan_Some Let_def)
qed (use inv in \<open>simp add: handle_finalize_event_def\<close>)

text \<open>Cookies and wait events: changes of a handle that keep its count and its operations.\<close>

lemma upd_handle_inv:
  assumes inv: "ipc_inv tmp H w" and h: "h \<in># H" and f: "\<And>x. refcnt (f x) = refcnt x" "\<And>x. h_ops (f x) = h_ops x"
  shows "ipc_inv tmp H (upd_handle h f w)"
proof -
  have core: "ipc_core tmp H w" using inv by (simp add: ipc_inv_def)
  from core h show ?thesis
  proof (cases rule: holder_cases)
    case (1 x)
    have "refcnt (c_handle x) = int (count H h)" using ipc_core_chan(2) [OF core 1(1)] by (simp add: hdl_wf_def)
    then have "ipc_core tmp H (w\<lparr>chans := (chans w)(h \<mapsto> x\<lparr>c_handle := f (c_handle x)\<rparr>)\<rparr>)"
      using f 1 h by (intro core_chan_handle [OF core 1(1)]) auto
    then show ?thesis using inv 1(1) by (auto simp: upd_handle_chan ipc_inv_def alive_def)
  next
    case (2 q)
    have "port_wf H (ipc_port_list w) h (q\<lparr>p_handle := f (p_handle q)\<rparr>)"
      using ipc_core_port [OF core 2(1)] f by (auto simp: port_wf_def)
    then have "ipc_core tmp H (w\<lparr>ports := (ports w)(h \<mapsto> q\<lparr>p_handle := f (p_handle q)\<rparr>), ipc_port_list := ipc_port_list w\<rparr>)"
      using core 2(1) h by (intro core_port_upd [OF core 2(1)]) (auto simp: ipc_core_def addrs_wf_def ports_wf_def)
    then show ?thesis using inv 2 by (simp add: upd_handle_port ipc_inv_def alive_def)
  qed
qed

section \<open>Reachable states\<close>

text \<open>
  A state is a store together with the handle references its clients hold. Every operation of
  the interface of \<^verbatim>\<open>ipc.c\<close>, \<^verbatim>\<open>ipc_msg.c\<close> and \<^verbatim>\<open>handle.c\<close> is a step, in any order and with
  any arguments, subject to the discipline of references: an operation is applied to a handle
  that is held, the last reference to an object is given up by \<^verbatim>\<open>handle_close\<close> or when the
  object is at rest. Memory may run out at any moment (\<open>memory\<close>). Two guards leave out
  what the code does not survive, \<open>publish_safe\<close> and \<open>has_queue\<close>.
\<close>

inductive kstep :: "kst \<times> addr multiset \<Rightarrow> kst \<times> addr multiset \<Rightarrow> bool" where
  memory: "kstep (w, H) (w\<lparr>allocs := A\<rparr>, H)"
| events: "kstep (w, H) (w\<lparr>signaled := S\<rparr>, H)"
| create: "ipc_port_create sid path n sz flags w = (Inr p, w') \<Longrightarrow> kstep (w, H) (w', add_mset p H)"
| create_fails: "ipc_port_create sid path n sz flags w = (Inl e, w') \<Longrightarrow> kstep (w, H) (w', H)"
| publish: "p \<in># H \<Longrightarrow> ports w p = Some q \<Longrightarrow> \<not> p_node q \<Longrightarrow> publish_safe p w \<Longrightarrow>
    ipc_port_publish p w = (r, w') \<Longrightarrow> kstep (w, H) (w', H)"
| connect: "ipc_port_connect_async cid path mp flags w = (Inr c, w') \<Longrightarrow> kstep (w, H) (w', add_mset c H)"
| connect_fails: "ipc_port_connect_async cid path mp flags w = (Inl e, w') \<Longrightarrow> kstep (w, H) (w', H)"
| accepts: "p \<in># H \<Longrightarrow> ipc_port_accept (Some p) w = (Inr (s, u), w') \<Longrightarrow> kstep (w, H) (w', add_mset s H)"
| accept_fails: "p \<in># H \<Longrightarrow> ipc_port_accept (Some p) w = (Inl e, w') \<Longrightarrow> kstep (w, H) (w', H)"
| incref: "h \<in># H \<Longrightarrow> kstep (w, H) (handle_incref h w, add_mset h H)"
| decref: "h \<in># H \<Longrightarrow> count H h \<ge> 2 \<or> quiescent w h \<Longrightarrow> kstep (w, H) (handle_decref h w, H - {#h#})"
| close: "h \<in># H \<Longrightarrow> kstep (w, H) (handle_close h w, H - {#h#})"
| cookie: "h \<in># H \<Longrightarrow> kstep (w, H) (handle_set_cookie h ck w, H)"
| wait: "h \<in># H \<Longrightarrow> kstep (w, H) (upd_handle h (\<lambda>x. x\<lparr>wait_event := e\<rparr>) w, H)"
| hlink: "kstep (w, H) (w\<lparr>hlinked := L\<rparr>, H)"
| finalize: "h \<in># H \<Longrightarrow> kstep (w, H) (handle_finalize_event h ev w, H)"
| send: "send_msg_locked km um (Some c) msg w = (r, w') \<Longrightarrow> kstep (w, H) (w', H)"
| get: "has_queue w c \<Longrightarrow> ipc_get_msg (Some c) w = (r, w') \<Longrightarrow> kstep (w, H) (w', H)"
| put: "has_queue w c \<Longrightarrow> ipc_put_msg (Some c) mid w = (r, w') \<Longrightarrow> kstep (w, H) (w', H)"
| read: "has_queue w c \<Longrightarrow> read_msg_locked km um (Some c) mid off msg w = (km', um', r, w') \<Longrightarrow> kstep (w, H) (w', H)"

inductive kreach :: "kst \<Rightarrow> addr multiset \<Rightarrow> bool" where
  start: "kreach init_kst {#}"
| step: "kreach w H \<Longrightarrow> kstep (w, H) (w', H') \<Longrightarrow> kreach w' H'"

inductive_cases kstepE: "kstep (w, H) (w', H')"

lemma kstep_inv:
  assumes "kstep s t" "ipc_inv {} (snd s) (fst s)"
  shows "ipc_inv {} (snd t) (fst t)"
  using assms
proof (induction rule: kstep.induct)
  case (memory w H A)
  then show ?case by (simp add: ipc_inv_def)
next
  case (events w H S)
  then show ?case by (simp add: ipc_inv_def)
next
  case (create sid path n sz flags w p w' H)
  then show ?case using ipc_port_create_inv [of H w sid path n sz flags "Inr p" w'] by auto
next
  case (create_fails sid path n sz flags w e w' H)
  then show ?case using ipc_port_create_inv [of H w sid path n sz flags "Inl e" w'] by simp
next
  case (publish p H w q r w')
  then show ?case using ipc_port_publish_inv [of H w p q] by simp
next
  case (connect cid path mp flags w c w' H)
  then show ?case using ipc_port_connect_async_inv [of H w cid path mp flags "Inr c" w'] by auto
next
  case (connect_fails cid path mp flags w e w' H)
  then show ?case using ipc_port_connect_async_inv [of H w cid path mp flags "Inl e" w'] by simp
next
  case (accepts p H w s u w')
  then show ?case using ipc_port_accept_inv [of H w "Some p" "Inr (s, u)" w'] by simp
next
  case (accept_fails p H w e w')
  then show ?case using ipc_port_accept_inv [of H w "Some p" "Inl e" w'] by simp
next
  case (incref h H w)
  then show ?case using handle_incref_inv by simp
next
  case (decref h H w)
  then show ?case using handle_decref_inv by simp
next
  case (close h H w)
  then show ?case using handle_close_inv by simp
next
  case (cookie h H w ck)
  then show ?case using upd_handle_inv [of "{}" H w h] by (simp add: handle_set_cookie_def)
next
  case (wait h H w e)
  then show ?case using upd_handle_inv [of "{}" H w h] by simp
next
  case (hlink w H L)
  then show ?case by (simp add: ipc_inv_def)
next
  case (finalize h H w ev)
  then show ?case using chan_finalize_event_inv by simp
next
  case (send km um c msg w r w' H)
  then show ?case using send_msg_locked_inv [of "{}" H w km um "Some c" msg] by simp
next
  case (get w c r w' H)
  then show ?case using ipc_get_msg_inv [of "{}" H w "Some c"] by simp
next
  case (put w c mid r w' H)
  then show ?case using ipc_put_msg_inv [of "{}" H w "Some c" mid] by simp
next
  case (read w c km um mid off msg km' um' r w' H)
  then show ?case using read_msg_locked_state [of "{}" H w "Some c" km um mid off msg] by simp
qed

lemma kreach_inv: "kreach w H \<Longrightarrow> ipc_inv {} H w"
proof (induction rule: kreach.induct)
  case start
  then show ?case by (rule ipc_inv_init)
next
  case (step w H w' H')
  then show ?case using kstep_inv [of "(w, H)" "(w', H')"] by simp
qed

lemmas kreach_core = kreach_inv [unfolded ipc_inv_def, THEN conjunct1]

end
