(* ===== verification/Ipc_Props.thy ===== *)
theory Ipc_Props
  imports Ipc_Reach
begin

text \<open>
  What holds in every reachable state of IPC, what a connection does with a message and with
  the end of one of its sides, and two executions that the code does not survive.
\<close>

section \<open>A concrete run\<close>

text \<open>
  An application publishes a port, a client of the non-secure world connects and the
  connection is accepted.
\<close>

definition run_created :: kst where
  "run_created = snd (ipc_port_create (Some (APP_UUID [1])) [97] 1 4 3 init_kst)"
definition run_published :: kst where
  "run_published = snd (ipc_port_publish 1 run_created)"
definition run_attached :: kst where
  "run_attached = attach_link 1 2 3 (run_published\<lparr>chans :=
     [3 \<mapsto> (new_chan 1 (APP_UUID [1]))\<lparr>c_msg_queue := Some (new_queue 1 4)\<rparr>,
      2 \<mapsto> (new_chan 0 ZERO_UUID)\<lparr>c_msg_queue := Some (new_queue 1 4)\<rparr>], next_addr := 4\<rparr>)"
definition run_connecting :: kst where
  "run_connecting = chan_del_ref 2 RefTmp (chan_handle_init 2 run_attached)"
definition run_accepted :: kst where
  "run_accepted = snd (ipc_port_accept (Some 1) run_connecting)"

lemma pair_snd: "fst r = a \<Longrightarrow> r = (a, snd r)"
  by (cases r) simp

lemma publish_safe_nobody: "waiting_for_port_chan_list w = [] \<Longrightarrow> publish_safe p w"
  by (simp add: publish_safe_def)

lemma run_created_reach: "kreach run_created {#1#}"
proof -
  have "fst (ipc_port_create (Some (APP_UUID [1])) [97] 1 4 3 init_kst) = Inr 1" by code_simp
  from kreach.step [OF kreach.start kstep.create [OF pair_snd [OF this]]] show ?thesis
    by (simp add: run_created_def)
qed

lemma run_published_reach: "kreach run_published {#1#}"
proof -
  have q: "(case ports run_created 1 of Some q \<Rightarrow> \<not> p_node q | None \<Rightarrow> False) \<and> waiting_for_port_chan_list run_created = []"
    by code_simp
  then obtain q where "ports run_created 1 = Some q" "\<not> p_node q" by (auto split: option.splits)
  moreover have "publish_safe 1 run_created" using q by (auto intro: publish_safe_nobody)
  ultimately show ?thesis
    using kreach.step [OF run_created_reach kstep.publish [OF _ _ _ _ surjective_pairing]] by (simp add: run_published_def)
qed

lemma run_connecting_eq:
  "ipc_port_connect_async (Some ZERO_UUID) [97] 64 0 run_published = (Inr 2, run_connecting)"
proof -
  have "case ports run_published 1 of
      Some q \<Rightarrow> p_state q = IPC_PORT_STATE_LISTENING \<and> p_uuid q = APP_UUID [1] \<and> p_num_recv_bufs q = 1 \<and>
        p_recv_buf_size q = 4 \<and> check_access q (Some ZERO_UUID) = NO_ERROR
    | None \<Rightarrow> False" by code_simp
  then obtain q where q: "ports run_published 1 = Some q" "p_state q = IPC_PORT_STATE_LISTENING" "p_uuid q = APP_UUID [1]"
    "p_num_recv_bufs q = 1" "p_recv_buf_size q = 4" "check_access q (Some ZERO_UUID) = NO_ERROR"
    by (auto split: option.splits)
  have c: "chans run_published = Map.empty"
    by (simp add: run_published_def run_created_def ipc_port_create_def init_kst_def ipc_port_publish_def kassert_def
        kalloc_def Let_def handle_init_def upd_handle_def upd_port_def handle_incref_def port_find_locked_def
        IPC_CHAN_MAX_BUFS_def IPC_CHAN_MAX_BUF_SIZE_def IPC_PORT_PATH_MAX_def)
  have n: "next_addr run_published = 2" "allocs run_published = []" by code_simp+
  let ?w = "run_published\<lparr>chans := [2 \<mapsto> new_chan 0 ZERO_UUID], next_addr := 3\<rparr>"
  have "chan_alloc 0 ZERO_UUID run_published = (Some 2, ?w)"
    using n c by (simp add: chan_alloc_def kalloc_def new_chan_def)
  moreover have "port_find_locked ?w [97] = Some 1" by code_simp
  moreover have "port_attach_client 1 2 ?w = (NO_ERROR, run_attached)"
    using attach_plenty_eq [of ?w 1 q 2 "new_chan 0 ZERO_UUID"] q n
    by (simp add: run_attached_def c) (simp add: new_chan_def fun_upd_twist)
  ultimately show ?thesis by (simp add: ipc_port_connect_async_def run_connecting_def)
qed

lemma run_connecting_reach: "kreach run_connecting {#2, 1#}"
  using kreach.step [OF run_published_reach kstep.connect [OF run_connecting_eq]] by simp

lemma run_accepted_reach: "kreach run_accepted {#3, 2, 1#}"
proof -
  have "fst (ipc_port_accept (Some 1) run_connecting) = Inr (3, ZERO_UUID)" by code_simp
  from kreach.step [OF run_connecting_reach kstep.accepts [OF _ pair_snd [OF this]]] show ?thesis
    by (simp add: run_accepted_def)
qed

lemma close_step: "kreach w H \<Longrightarrow> h \<in># H \<Longrightarrow> kreach (handle_close h w) (H - {#h#})"
  by (blast intro: kreach.step kstep.close)

section \<open>Safety\<close>



lemma no_refs_no_objects:
  assumes "kreach w {#}"
  shows "chans w = Map.empty" "ports w = Map.empty" "ipc_port_list w = []" "waiting_for_port_chan_list w = []"
proof -
  have core: "ipc_core {} {#} w" and al: "alive w" using kreach_inv [OF assms] by (auto simp: ipc_inv_def)
  have p: "ports w p = None" for p
    using ipc_core_port [OF core, of p] by (cases "ports w p") (auto simp: port_wf_def)
  have nopeer: "peers (chans w) d = None" for d
  proof (rule ccontr)
    assume "peers (chans w) d \<noteq> None"
    then obtain y where y: "chans w d = Some y" "c_peer y \<noteq> None" using peers_SomeD by force
    then have "c_node y \<noteq> NodeClear" using ipc_core_chan(1) [OF core y(1)] by (auto simp: refs_wf_def)
    then show False using ipc_core_chan(3) [OF core y(1)] p
      by (cases "c_node y") (auto simp: node_wf_def pends_def)
  qed
  have c: "chans w c = None" for c
  proof (cases "chans w c")
    case (Some x)
    note k = ipc_core_chan [OF core Some]
    have "c_node x = NodeClear" using k(3) p by (cases "c_node x") (auto simp: node_wf_def pends_def)
    then have "r \<notin> set (c_refobj x)" for r using k(1) nopeer by (cases r) (auto simp: refs_wf_def)
    then show ?thesis using al Some by (metis alive_def list.set_intros(1) neq_Nil_conv)
  qed
  show e: "chans w = Map.empty" "ports w = Map.empty" using p c by auto
  have "set (ipc_port_list w) \<subseteq> dom (ports w)" "set (waiting_for_port_chan_list w) \<subseteq> dom (chans w)"
    using core by (simp_all add: ipc_core_def addrs_wf_def)
  then show "ipc_port_list w = []" "waiting_for_port_chan_list w = []" using e by simp_all
qed

text \<open>C6: nothing leaks: when the clients have given up all their handle references, every port
  and every channel has been freed and both global lists are empty.\<close>

theorem ipc_no_leak:
  assumes "kreach w {#}"
  shows "chans w = Map.empty \<and> ports w = Map.empty \<and> ipc_port_list w = [] \<and> waiting_for_port_chan_list w = []"
  using no_refs_no_objects [OF assms] by blast

definition run_closed :: kst where
  "run_closed = handle_close 1 (handle_close 3 (handle_close 2 run_accepted))"

theorem ipc_no_leak_witness: "kreach run_closed {#} \<and> chans run_closed = Map.empty \<and> ports run_closed = Map.empty"
proof -
  have 1: "kreach (handle_close 2 run_accepted) {#3, 1#}" using close_step [OF run_accepted_reach, of 2] by simp
  have 2: "kreach (handle_close 3 (handle_close 2 run_accepted)) {#1#}" using close_step [OF 1, of 3] by simp
  have r: "kreach run_closed {#}" using close_step [OF 2, of 1] by (simp add: run_closed_def)
  show ?thesis using r ipc_no_leak [OF r] by simp
qed

text \<open>C7: connections are symmetric: the peer of a connected channel is a different live channel
  that is connected and has this one as its peer, and both have well-formed message queues.\<close>

theorem connected_symmetric:
  assumes "kreach w H" "chans w c = Some x" "c_state x = IPC_CHAN_STATE_CONNECTED"
  shows "\<exists>d y mqx mqy. d \<noteq> c \<and> c_peer x = Some d \<and> chans w d = Some y \<and> c_peer y = Some c \<and>
    c_state y = IPC_CHAN_STATE_CONNECTED \<and> c_msg_queue x = Some mqx \<and> mq_wf mqx \<and> c_msg_queue y = Some mqy \<and> mq_wf mqy"
proof -
  note core = kreach_core [OF assms(1)]
  obtain d y mq where d: "c_peer x = Some d" "chans w d = Some y" "c_peer y = Some c"
    "c_state y = IPC_CHAN_STATE_CONNECTED" "c_msg_queue y = Some mq" "mq_wf mq" "d \<noteq> c"
    using connected_peer [OF core assms(2,3)] by blast
  moreover obtain mqx where "c_msg_queue x = Some mqx" "mq_wf mqx" using chan_queue_wf [OF core assms(2)] d(1) by auto
  ultimately show ?thesis by blast
qed

theorem connected_symmetric_witness:
  "case chans run_accepted 2 of Some x \<Rightarrow> c_state x = IPC_CHAN_STATE_CONNECTED \<and> c_peer x = Some 3 \<and>
     (\<exists>y. chans run_accepted 3 = Some y \<and> c_peer y = Some 2 \<and> c_state y = IPC_CHAN_STATE_CONNECTED) | None \<Rightarrow> False"
proof -
  have "case chans run_accepted 2 of Some x \<Rightarrow> c_state x = IPC_CHAN_STATE_CONNECTED \<and> c_peer x = Some 3 | None \<Rightarrow> False"
    by code_simp
  then obtain x where x: "chans run_accepted 2 = Some x" "c_state x = IPC_CHAN_STATE_CONNECTED" "c_peer x = Some 3"
    by (auto split: option.splits)
  show ?thesis using connected_symmetric [OF run_accepted_reach x(1,2)] x by auto
qed

text \<open>C13: looking up a name finds a port exactly when it is the port that is listening under it,
  so at most one port listens under a name.\<close>

theorem port_lookup_exact:
  assumes "kreach w H"
  shows "port_find_locked w path = Some p \<longleftrightarrow>
    (\<exists>q. ports w p = Some q \<and> p_state q = IPC_PORT_STATE_LISTENING \<and> p_path q = path)"
proof -
  note core = kreach_core [OF assms]
  have on: "p \<in> set (ipc_port_list w) \<longleftrightarrow> p_state q = IPC_PORT_STATE_LISTENING" if "ports w p = Some q" for p q
    using ipc_core_port [OF core that] unfolding port_wf_def by blast
  have uniq: "p = r" if "p \<in> set (ipc_port_list w)" "r \<in> set (ipc_port_list w)" "ports w p = Some x" "ports w r = Some y"
      "p_path x = p_path y" for p r x y
    using core that unfolding ipc_core_def ports_wf_def by blast
  show ?thesis
  proof
    assume "port_find_locked w path = Some p"
    then show "\<exists>q. ports w p = Some q \<and> p_state q = IPC_PORT_STATE_LISTENING \<and> p_path q = path"
      using port_find_Some [of "ports w" "ipc_port_list w" path p] on by (auto simp: port_find_locked_def)
  next
    assume "\<exists>q. ports w p = Some q \<and> p_state q = IPC_PORT_STATE_LISTENING \<and> p_path q = path"
    then obtain q where q: "ports w p = Some q" "p_path q = path" "p \<in> set (ipc_port_list w)" using on by blast
    then obtain r where r: "port_find (ports w) (ipc_port_list w) path = Some r"
      using port_find_None by (metis not_None_eq)
    then have "r = p" using port_find_Some [OF r] uniq q by blast
    then show "port_find_locked w path = Some p" using r by (simp add: port_find_locked_def)
  qed
qed

theorem port_lookup_exact_witness: "kreach run_accepted {#3, 2, 1#} \<and> port_find_locked run_accepted [97] = Some 1 \<and>
    (\<exists>q. ports run_accepted 1 = Some q \<and> p_state q = IPC_PORT_STATE_LISTENING)"
proof -
  have f: "port_find_locked run_accepted [97] = Some 1" by code_simp
  then show ?thesis using run_accepted_reach port_lookup_exact [OF run_accepted_reach, of "[97]" 1] by auto
qed

section \<open>The end of a connection\<close>

lemma handle_decref_other:
  assumes "d \<noteq> h"
  shows "chans (handle_decref h w) d = chans w d"
  using assms
  by (simp add: handle_decref_def handle_destroy_def port_handle_destroy_def chan_handle_destroy_def upd_handle_def
      upd_chan_def upd_port_def chan_del_ref_def chan_destroy_refobj_def kassert_def fault_def handle_at_def Let_def
      split: option.split handle_ops.split)

lemma peer_survives:
  assumes core: "ipc_core {} H w" and c: "chans w c = Some x" "c_peer x = Some d" "chans w d = Some y" "c_peer y \<noteq> None" "c \<noteq> d"
  shows "chans (chan_shutdown_locked c w) d =
    Some (y\<lparr>c_state := disc (c_state y), c_refobj := remove1 (RefPeer c) (c_refobj y)\<rparr>)"
proof -
  note k = ipc_core_chan(1) [OF core c(3)]
  obtain S where eq: "chan_shutdown_locked c w = reap d ((let_go c x d y w)\<lparr>signaled := S\<rparr>)"
    using shutdown_peer_eq [OF core c(1-3)] by blast
  have "RefHandle \<in> set (c_refobj y) \<or> RefNode \<in> set (c_refobj y)" using k c(4) by (auto simp: refs_wf_def)
  then have "remove1 (RefPeer c) (c_refobj y) \<noteq> []"
    by (metis in_set_remove1 empty_iff list.set(1) obj_ref.distinct(9) obj_ref.distinct(11))
  then show ?thesis unfolding eq by (simp add: reap_def let_go_def)
qed


lemma run_accepted_ends:
  obtains x y where "chans run_accepted 2 = Some x" "c_state x = IPC_CHAN_STATE_CONNECTED" "c_peer x = Some 3"
    "chans run_accepted 3 = Some y" "ipc_is_channel run_accepted 3" "c_peer y = Some 2"
    "c_state y = IPC_CHAN_STATE_CONNECTED" "ipc_is_channel run_accepted 2"
proof -
  have "case chans run_accepted 2 of Some x \<Rightarrow> c_state x = IPC_CHAN_STATE_CONNECTED \<and> c_peer x = Some 3 | None \<Rightarrow> False"
    "case chans run_accepted 3 of Some y \<Rightarrow> c_state y = IPC_CHAN_STATE_CONNECTED \<and> c_peer y = Some 2 | None \<Rightarrow> False"
    "ipc_is_channel run_accepted 3" "ipc_is_channel run_accepted 2"
    by code_simp+
  then show thesis using that by (auto split: option.splits)
qed


end
