(* ===== verification/Ipc_Flow.thy ===== *)
theory Ipc_Flow
  imports Ipc_Props
begin

text \<open>
  What a message goes through between the two ends of a connection: sending, taking, flow
  control between a fast sender and a slow receiver.
\<close>

section \<open>Sending and taking\<close>

definition queue_of :: "kst \<Rightarrow> addr \<Rightarrow> ipc_msg_queue option" where
  "queue_of w c = Option.bind (chans w c) c_msg_queue"

lemma handle_notify_frame [simp]: "chans (handle_notify h w) = chans w"
  by (simp add: handle_notify_def fault_def split: option.split)

lemma send_cases:
  assumes c: "chans w c = Some x" "c_state x = IPC_CHAN_STATE_CONNECTED" "c_peer x = Some d" "chans w d = Some y"
      "c_msg_queue y = Some mq" "ipc_is_channel w c"
  shows "send_msg_locked km um (Some c) msg w =
    (if free_list mq = []
     then (Inl ERR_NOT_ENOUGH_BUFFER,
       w\<lparr>chans := (chans w)(c \<mapsto> x\<lparr>c_aux_state := c_aux_state x OR IPC_CHAN_AUX_STATE_SEND_BLOCKED\<rparr>)\<rparr>)
     else case msg_write_mq km um mq msg of (mq', r) \<Rightarrow>
       (r, case r of Inl _ \<Rightarrow> w\<lparr>chans := (chans w)(d \<mapsto> y\<lparr>c_msg_queue := Some mq'\<rparr>)\<rparr>
           | Inr _ \<Rightarrow> handle_notify d (w\<lparr>chans := (chans w)(d \<mapsto> y\<lparr>c_msg_queue := Some mq'\<rparr>)\<rparr>)))"
proof -
  have "check_channel_connected_locked w (Some c) = NO_ERROR"
    using c by (simp add: check_channel_connected_locked_def check_channel_locked_def)
  moreover have "Option.bind (((chans w)(d \<mapsto> y\<lparr>c_msg_queue := q\<rparr>)) c) c_peer = Some d" for q
    using c by (cases "c = d") auto
  ultimately show ?thesis using c
    by (simp add: send_msg_locked_def msg_write_locked_def upd_chan_Some split_beta split: sum.split)
qed

lemma send_appends:
  assumes "kreach w H" "chans w c = Some x" "c_peer x = Some d" "queue_of w d = Some mq"
    "send_msg_locked km um (Some c) msg w = (Inr n, w')"
  shows "\<exists>mq'. queue_of w' d = Some mq' \<and> pending mq' = pending mq @ [fst (msg_gather km um (item_sz mq) msg)] \<and>
    n = length (fst (msg_gather km um (item_sz mq) msg)) \<and> readable mq' = readable mq \<and>
    (\<forall>e. e \<noteq> d \<longrightarrow> queue_of w' e = queue_of w e)"
proof -
  note core = kreach_core [OF assms(1)]
  obtain y where y: "chans w d = Some y" "c_msg_queue y = Some mq" using assms(4) by (auto simp: queue_of_def split: bind_splits)
  have wf: "mq_wf mq" using chan_queue_wf(1) [OF core y] .
  have "check_channel_connected_locked w (Some c) = NO_ERROR"
    using assms(5) by (auto simp: send_msg_locked_def split: sum.splits)
  then have st: "c_state x = IPC_CHAN_STATE_CONNECTED" "ipc_is_channel w c"
    using assms(2) by (auto simp: check_channel_connected_locked_def check_channel_locked_def split: if_splits)
  note sc = send_cases [OF assms(2) st(1) assms(3) y st(2), of km um msg]
  obtain i fs where f: "free_list mq = i # fs" using sc assms(5) by (cases "free_list mq") auto
  obtain mq' r where wr: "msg_write_mq km um mq msg = (mq', r)" by force
  then have r: "r = Inr n" "w' = handle_notify d (w\<lparr>chans := (chans w)(d \<mapsto> y\<lparr>c_msg_queue := Some mq'\<rparr>)\<rparr>)"
    using sc f assms(5) by (auto split: sum.splits)
  obtain k where g: "snd (msg_gather km um (item_sz mq) msg) = Inr k"
  proof (cases "snd (msg_gather km um (item_sz mq) msg)")
    case (Inl e)
    then show ?thesis using msg_write_bad(1) [OF wf _ Inl wr] f r(1) by simp
  qed (use that in blast)
  note ok = msg_write_ok [OF wf f g wr]
  have "n = length (fst (msg_gather km um (item_sz mq) msg))" using msg_gather_count [OF g] ok(1) r(1) by simp
  then show ?thesis using ok(2,3) r(2) by (auto simp: queue_of_def)
qed

text \<open>C8: a message sent on a connection arrives whole: when the send succeeds, exactly the bytes
  gathered from the sender's segments are appended to the messages pending at the peer, their
  number is returned, the messages the peer is reading are untouched, and no other channel's
  queue changes.\<close>

theorem send_delivers:
  assumes "kreach w H" "chans w c = Some x" "c_peer x = Some d" "queue_of w d = Some mq"
    "send_msg_locked km um (Some c) msg w = (Inr n, w')"
  shows "\<exists>mq'. queue_of w' d = Some mq' \<and> pending mq' = pending mq @ [fst (msg_gather km um (item_sz mq) msg)] \<and>
    n = length (fst (msg_gather km um (item_sz mq) msg)) \<and> readable mq' = readable mq \<and>
    (\<forall>e. e \<noteq> d \<longrightarrow> queue_of w' e = queue_of w e)"
  by (rule send_appends [OF assms])

text \<open>The client of the concrete run sends two bytes to the server.\<close>

definition run_msg :: msg_desc where
  "run_msg = IPC_MSG_BUFFER_KERNEL \<lparr>k_num_iov = 1, k_iov = Some [\<lparr>iov_base = 16, iov_len = 2\<rparr>], k_num_handles = 0\<rparr>"

definition run_sent :: kst where
  "run_sent = snd (send_msg_locked (\<lambda>a. ucast a) demo_umem (Some 2) run_msg run_accepted)"

lemma run_accepted_queue:
  obtains mq where "queue_of run_accepted 3 = Some mq" "pending mq = []" "item_sz mq = 4" "free_list mq = [0]" "mq_wf mq"
proof -
  have "case queue_of run_accepted 3 of Some mq \<Rightarrow> pending mq = [] \<and> item_sz mq = 4 \<and> free_list mq = [0] \<and> mq_wf mq | None \<Rightarrow> False"
    by code_simp
  then show thesis using that by (auto split: option.splits)
qed

lemma run_gather: "msg_gather (\<lambda>a. ucast a) demo_umem 4 run_msg = ([16, 17], Inr 2)"
  by code_simp

lemma run_sent_eq: "send_msg_locked (\<lambda>a. ucast a) demo_umem (Some 2) run_msg run_accepted = (Inr 2, run_sent)"
proof -
  obtain x y where e: "chans run_accepted 2 = Some x" "c_state x = IPC_CHAN_STATE_CONNECTED" "c_peer x = Some 3"
    "chans run_accepted 3 = Some y" "ipc_is_channel run_accepted 2" using run_accepted_ends by metis
  obtain mq where q: "queue_of run_accepted 3 = Some mq" "item_sz mq = 4" "free_list mq = [0]" "mq_wf mq"
    using run_accepted_queue by metis
  have y: "c_msg_queue y = Some mq" using q(1) e(4) by (simp add: queue_of_def)
  obtain mq' r where w: "msg_write_mq (\<lambda>a. ucast a) demo_umem mq run_msg = (mq', r)" by force
  have "r = Inr 2" using msg_write_ok(1) [OF q(4,3) _ w] q(2) run_gather by simp
  then have "fst (send_msg_locked (\<lambda>a. ucast a) demo_umem (Some 2) run_msg run_accepted) = Inr 2"
    using send_cases [OF e(1-4) y e(5), of "\<lambda>a. ucast a" demo_umem run_msg] q(3) w by simp
  then show ?thesis by (simp add: run_sent_def pair_snd)
qed

theorem send_delivers_witness:
  "\<exists>mq'. queue_of run_sent 3 = Some mq' \<and> pending mq' = [[16, 17]]"
proof -
  obtain x y where e: "chans run_accepted 2 = Some x" "c_peer x = Some 3" using run_accepted_ends by metis
  obtain mq where q: "queue_of run_accepted 3 = Some mq" "pending mq = []" "item_sz mq = 4" using run_accepted_queue by metis
  show ?thesis using send_delivers [OF run_accepted_reach e q(1) run_sent_eq] q(2,3) run_gather by auto
qed

lemma run_sent_reach: "kreach run_sent {#3, 2, 1#}"
  using kreach.step [OF run_accepted_reach kstep.send [OF run_sent_eq]] by simp

lemma run_sent_queue: "\<exists>mq. queue_of run_sent 3 = Some mq \<and> pending mq = [[16, 17]] \<and> ipc_is_channel run_sent 3"
proof -
  obtain x y where e: "chans run_accepted 2 = Some x" "c_state x = IPC_CHAN_STATE_CONNECTED" "c_peer x = Some 3"
    "chans run_accepted 3 = Some y" "ipc_is_channel run_accepted 3" "ipc_is_channel run_accepted 2" using run_accepted_ends by metis
  obtain mq where q: "queue_of run_accepted 3 = Some mq" "pending mq = []" "item_sz mq = 4" "free_list mq = [0]" "mq_wf mq"
    using run_accepted_queue by metis
  have y: "c_msg_queue y = Some mq" using q(1) e(4) by (simp add: queue_of_def)
  obtain mq' r where w: "msg_write_mq (\<lambda>a. ucast a) demo_umem mq run_msg = (mq', r)" by force
  have ok: "r = Inr 2" "pending mq' = [[16, 17]]" using msg_write_ok(1,2) [OF q(5,4) _ w] q(2,3) run_gather by simp_all
  have "run_sent = handle_notify 3 (run_accepted\<lparr>chans := (chans run_accepted)(3 \<mapsto> y\<lparr>c_msg_queue := Some mq'\<rparr>)\<rparr>)"
    unfolding run_sent_def using send_cases [OF e(1-4) y e(6), of "\<lambda>a. ucast a" demo_umem run_msg] q(4) w ok(1) by simp
  from arg_cong [OF this, of chans] have "chans run_sent 3 = Some (y\<lparr>c_msg_queue := Some mq'\<rparr>)"
    unfolding handle_notify_frame by simp
  then show ?thesis using ok(2) e(4,5) by (simp add: queue_of_def ipc_is_channel_def handle_at_def)
qed

text \<open>C9: taking a message gives the receiver the length of the oldest pending message and an
  identifier under which exactly its bytes can be read; it is no longer pending, and the ones
  behind it stay in order.\<close>

theorem get_takes_oldest:
  assumes "kreach w H" "ipc_is_channel w d" "queue_of w d = Some mq" "pending mq = b # ps"
  shows "\<exists>info w' mq'. ipc_get_msg (Some d) w = (Inr info, w') \<and> queue_of w' d = Some mq' \<and> pending mq' = ps \<and>
    info_len info = word_of_nat (length b) \<and> readable mq' (unat (info_id info)) = Some b"
proof -
  note core = kreach_core [OF assms(1)]
  obtain y where y: "chans w d = Some y" "c_msg_queue y = Some mq" using assms(3) by (auto simp: queue_of_def split: bind_splits)
  have wf: "mq_wf mq" using chan_queue_wf(1) [OF core y] .
  obtain i fs where f: "filled_list mq = i # fs" using assms(4) by (cases "filled_list mq") (auto simp: pending_def)
  have i: "i < num_items mq" using mq_wf_lists(2) [OF wf] f by auto
  obtain mq' where g: "msg_get_filled_locked mq = Some mq'" using f by (simp add: msg_get_filled_locked_def Let_def)
  note e = msg_get_filled_effect [OF wf f g]
  have b: "b = payload mq i" "ps = pending mq'" using e(1) assms(4) by simp_all
  let ?info = "\<lparr>info_len = word_of_nat (mi_len (mq_items mq ! i)), info_id = ucast (mi_id (mq_items mq ! i))\<rparr>"
  have "ipc_get_msg (Some d) w = (Inr ?info, w\<lparr>chans := (chans w)(d \<mapsto> y\<lparr>c_msg_queue := Some mq'\<rparr>)\<rparr>)"
    using assms(2) y f g by (simp add: ipc_get_msg_def check_channel_locked_def msg_peek_next_filled_locked_def upd_chan_Some)
  moreover have "unat (info_id ?info) = i"
    using mq_wf_item(1) [OF wf i] i wf by (simp add: mq_wf_def unat_of_nat)
  moreover have "info_len ?info = word_of_nat (length b)" using length_payload [OF wf i] b(1) by simp
  ultimately show ?thesis using e(2) b by (auto simp: queue_of_def)
qed

theorem get_takes_oldest_witness:
  "\<exists>info w' mq'. ipc_get_msg (Some 3) run_sent = (Inr info, w') \<and> queue_of w' 3 = Some mq' \<and> info_len info = 2 \<and>
    readable mq' (unat (info_id info)) = Some [16, 17]"
proof -
  obtain mq where q: "queue_of run_sent 3 = Some mq" "pending mq = [[16, 17]]" "ipc_is_channel run_sent 3"
    using run_sent_queue by blast
  show ?thesis using get_takes_oldest [OF run_sent_reach q(3,1,2)] by auto
qed

section \<open>Flow control\<close>

lemma word_or_and_bit: "(a OR b) AND b \<noteq> 0" if "b \<noteq> 0" for a b :: u32
  using that by (simp add: bit.conj_disj_distrib2)

lemma chan_poll_unblocked:
  assumes "c_state x \<noteq> IPC_CHAN_STATE_INVALID" "c_aux_state x AND IPC_CHAN_AUX_STATE_SEND_UNBLOCKED \<noteq> 0"
  shows "chan_poll x AND IPC_HANDLE_POLL_SEND_UNBLOCKED \<noteq> 0"
  using assms by (simp add: chan_poll_def bit.conj_disj_distrib2)

lemma put_cases:
  assumes d: "chans w d = Some y" "ipc_is_channel w d" "c_msg_queue y = Some mq" "c_peer y = Some c" "chans w c = Some x" "c \<noteq> d"
    and p: "msg_put_read_mq mq mid = Inr mq'" "c_aux_state x AND IPC_CHAN_AUX_STATE_SEND_BLOCKED \<noteq> 0"
  shows "ipc_put_msg (Some d) mid w = (NO_ERROR, handle_notify c (w\<lparr>chans := (chans w)(d \<mapsto> y\<lparr>c_msg_queue := Some mq'\<rparr>,
    c \<mapsto> x\<lparr>c_aux_state := (c_aux_state x AND NOT IPC_CHAN_AUX_STATE_SEND_BLOCKED) OR IPC_CHAN_AUX_STATE_SEND_UNBLOCKED\<rparr>)\<rparr>))"
  using assms by (simp add: ipc_put_msg_def check_channel_locked_def msg_put_read_locked_def upd_chan_Some Let_def)

text \<open>C10: a sender that found the peer's queue full is woken: the failed send changes no queue, and as
  soon as the receiver retires a message the sender polls as unblocked, the event it waits on
  is signaled, and there is room for its message.\<close>

theorem blocked_sender_woken:
  assumes "kreach w H" "chans w c = Some x" "c_state x = IPC_CHAN_STATE_CONNECTED" "c_peer x = Some d" "ipc_is_channel w c"
    "ipc_is_channel w d" "queue_of w d = Some mq" "free_list mq = []" "unat mid \<in> set (read_list mq)"
    "send_msg_locked km um (Some c) msg w = (r, w1)" "ipc_put_msg (Some d) mid w1 = (r', w2)"
  shows "r = Inl ERR_NOT_ENOUGH_BUFFER \<and> queue_of w1 = queue_of w \<and> r' = NO_ERROR \<and>
    handle_poll w2 c AND IPC_HANDLE_POLL_SEND_UNBLOCKED \<noteq> 0 \<and>
    (\<forall>e. wait_event (c_handle x) = Some e \<longrightarrow> e \<in> signaled w2) \<and>
    (\<exists>mq2. queue_of w2 d = Some mq2 \<and> free_list mq2 \<noteq> [])"
proof -
  note core = kreach_core [OF assms(1)]
  obtain d' y where d: "c_peer x = Some d'" "chans w d' = Some y" "c_peer y = Some c" "d' \<noteq> c"
    using connected_peer [OF core assms(2,3)] by metis
  then have y: "chans w d = Some y" "c_peer y = Some c" "d \<noteq> c" using assms(4) by auto
  have ymq: "c_msg_queue y = Some mq" using assms(7) y(1) by (simp add: queue_of_def)
  have wf: "mq_wf mq" using chan_queue_wf(1) [OF core y(1) ymq] .
  let ?x1 = "x\<lparr>c_aux_state := c_aux_state x OR IPC_CHAN_AUX_STATE_SEND_BLOCKED\<rparr>"
  let ?w1 = "w\<lparr>chans := (chans w)(c \<mapsto> ?x1)\<rparr>"
  have w1: "r = Inl ERR_NOT_ENOUGH_BUFFER" "w1 = ?w1"
    using send_cases [OF assms(2-4) y(1) ymq assms(5), of km um msg] assms(8,10) by simp_all
  obtain mq2 where put: "msg_put_read_mq mq mid = Inr mq2" using msg_put_read_Inr_iff [OF wf] assms(9) by blast
  define a where "a = (c_aux_state ?x1 AND NOT IPC_CHAN_AUX_STATE_SEND_BLOCKED) OR IPC_CHAN_AUX_STATE_SEND_UNBLOCKED"
  let ?w2 = "?w1\<lparr>chans := (chans ?w1)(d \<mapsto> y\<lparr>c_msg_queue := Some mq2\<rparr>, c \<mapsto> ?x1\<lparr>c_aux_state := a\<rparr>)\<rparr>"
  have "c_aux_state ?x1 AND IPC_CHAN_AUX_STATE_SEND_BLOCKED \<noteq> 0" using word_or_and_bit [of 1] by simp
  then have w2: "r' = NO_ERROR" "w2 = handle_notify c ?w2"
    using put_cases [of ?w1 d y mq c ?x1 mid mq2] assms(6,11) w1(2) y ymq put
    by (simp_all add: ipc_is_channel_def handle_at_def a_def)
  have at: "chans w2 c = Some (?x1\<lparr>c_aux_state := a\<rparr>)" "chans w2 d = Some (y\<lparr>c_msg_queue := Some mq2\<rparr>)"
    using y(3) by (simp_all add: w2(2))
  have "h_ops (c_handle x) = OPS_CHAN" using assms(2,5) by (simp add: ipc_is_channel_def handle_at_def)
  moreover have "a AND IPC_CHAN_AUX_STATE_SEND_UNBLOCKED \<noteq> 0" unfolding a_def by (rule word_or_and_bit) simp
  ultimately have "handle_poll w2 c AND IPC_HANDLE_POLL_SEND_UNBLOCKED \<noteq> 0"
    using at(1) assms(3) chan_poll_unblocked [of "?x1\<lparr>c_aux_state := a\<rparr>"] by (simp add: handle_poll_def)
  moreover have "e \<in> signaled w2" if "wait_event (c_handle x) = Some e" for e
    using that by (simp add: w2(2) handle_notify_def handle_at_def)
  moreover have "queue_of w1 = queue_of w" using w1(2) assms(2) by (auto simp: queue_of_def)
  moreover have "free_list mq2 \<noteq> []" using msg_put_read_effect(3) [OF wf put] by simp
  ultimately show ?thesis using w1(1) w2(1) at(2) by (simp add: queue_of_def)
qed

text \<open>The server of the concrete run takes the message and holds it, so its one buffer is in use.\<close>

definition run_taken :: kst where
  "run_taken = snd (ipc_get_msg (Some 3) run_sent)"

lemma run_taken_facts:
  "case queue_of run_taken 3 of Some mq \<Rightarrow> free_list mq = [] \<and> read_list mq = [0] | None \<Rightarrow> False"
  "case chans run_taken 2 of Some x \<Rightarrow> c_state x = IPC_CHAN_STATE_CONNECTED \<and> c_peer x = Some 3 | None \<Rightarrow> False"
  "ipc_is_channel run_taken 2" "ipc_is_channel run_taken 3"
  by code_simp+

theorem blocked_sender_woken_witness:
  "let (r, w1) = send_msg_locked (\<lambda>a. ucast a) demo_umem (Some 2) run_msg run_taken;
       (r', w2) = ipc_put_msg (Some 3) 0 w1
   in r = Inl ERR_NOT_ENOUGH_BUFFER \<and> r' = NO_ERROR \<and> handle_poll w2 2 AND IPC_HANDLE_POLL_SEND_UNBLOCKED \<noteq> 0 \<and>
      (\<exists>mq2. queue_of w2 3 = Some mq2 \<and> free_list mq2 \<noteq> [])"
proof -
  obtain mq where "queue_of run_sent 3 = Some mq" using run_sent_queue by blast
  then have "has_queue run_sent 3" by (auto simp: has_queue_def queue_of_def split: bind_splits)
  then have reach: "kreach run_taken {#3, 2, 1#}"
    unfolding run_taken_def by (rule kreach.step [OF run_sent_reach kstep.get [OF _ surjective_pairing]])
  obtain mq where q: "queue_of run_taken 3 = Some mq" "free_list mq = []" "read_list mq = [0]"
    using run_taken_facts(1) by (auto split: option.splits)
  obtain x where x: "chans run_taken 2 = Some x" "c_state x = IPC_CHAN_STATE_CONNECTED" "c_peer x = Some 3"
    using run_taken_facts(2) by (auto split: option.splits)
  have m: "unat (0::u32) \<in> set (read_list mq)" using q(3) by simp
  obtain r w1 where s: "send_msg_locked (\<lambda>a. ucast a) demo_umem (Some 2) run_msg run_taken = (r, w1)" by force
  obtain r' w2 where t: "ipc_put_msg (Some 3) 0 w1 = (r', w2)" by force
  note b = blocked_sender_woken [OF reach x run_taken_facts(3,4) q(1,2) m s t]
  show ?thesis unfolding Let_def s prod.case t using b by blast
qed

section \<open>Access control\<close>

text \<open>C18: a party that a port's flags do not admit gets no connection and leaves no trace: connecting to
  the published port is refused with \<^verbatim>\<open>ERR_ACCESS_DENIED\<close>, and apart from the address used up by
  the freed channel object the state is as before.\<close>

theorem connect_denied:
  assumes "kreach w H" "allocs w = []" "path \<noteq> []" "length path < mp" "port_find_locked w path = Some p"
    "ports w p = Some q" "check_access q (Some u) = Inl e"
  shows "ipc_port_connect_async (Some u) path mp flags w = (Inl ERR_ACCESS_DENIED, w\<lparr>next_addr := Suc (next_addr w)\<rparr>)"
proof -
  note core = kreach_core [OF assms(1)]
  have free: "chans w (next_addr w) = None" using core by (auto simp: ipc_core_def addrs_wf_def)
  have "p \<in> set (ipc_port_list w)"
    using port_find_Some [of "ports w" "ipc_port_list w" path p] assms(5) by (auto simp: port_find_locked_def)
  then have st: "p_state q = IPC_PORT_STATE_LISTENING" using ipc_core_port [OF core assms(6)] unfolding port_wf_def by blast
  have e: "e = ERR_ACCESS_DENIED" using assms(7) by (auto simp: check_access_def split: if_splits option.splits)
  let ?w = "w\<lparr>chans := (chans w)(next_addr w \<mapsto> new_chan 0 u), next_addr := Suc (next_addr w)\<rparr>"
  have "chan_alloc 0 u w = (Some (next_addr w), ?w)" using assms(2) by (simp add: chan_alloc_def kalloc_def new_chan_def)
  moreover have "port_find_locked ?w path = Some p" using assms(5) by (simp add: port_find_locked_def)
  moreover have "port_attach_client p (next_addr w) ?w = (Inl ERR_ACCESS_DENIED, ?w)"
    using assms(6,7) st e by (simp add: port_attach_client_def new_chan_def)
  moreover have "chan_del_ref (next_addr w) RefTmp ?w = w\<lparr>next_addr := Suc (next_addr w)\<rparr>"
    using free by (simp add: chan_del_ref_def new_chan_def kassert_def upd_chan_def chan_destroy_refobj_def Let_def fun_upd_idem)
  ultimately show ?thesis using assms(3,4) by (simp add: ipc_port_connect_async_def)
qed

definition run_ta_port :: kst where
  "run_ta_port = snd (ipc_port_create (Some (APP_UUID [1])) [97] 1 4 IPC_PORT_ALLOW_TA_CONNECT init_kst)"
definition run_ta_published :: kst where
  "run_ta_published = snd (ipc_port_publish 1 run_ta_port)"

theorem connect_denied_witness: "fst (ipc_port_connect_async (Some ZERO_UUID) [97] 64 0 run_ta_published) = Inl ERR_ACCESS_DENIED"
proof -
  have "fst (ipc_port_create (Some (APP_UUID [1])) [97] 1 4 IPC_PORT_ALLOW_TA_CONNECT init_kst) = Inr 1" by code_simp
  from kreach.step [OF kreach.start kstep.create [OF pair_snd [OF this]]]
  have r: "kreach run_ta_port {#1#}" by (simp add: run_ta_port_def)
  have q: "(case ports run_ta_port 1 of Some q \<Rightarrow> \<not> p_node q | None \<Rightarrow> False) \<and> waiting_for_port_chan_list run_ta_port = []"
    by code_simp
  then obtain q where "ports run_ta_port 1 = Some q" "\<not> p_node q" by (auto split: option.splits)
  moreover have "publish_safe 1 run_ta_port" using q by (auto intro: publish_safe_nobody)
  ultimately have reach: "kreach run_ta_published {#1#}"
    using kreach.step [OF r kstep.publish [OF _ _ _ _ surjective_pairing]] by (simp add: run_ta_published_def)
  have "case ports run_ta_published 1 of Some q \<Rightarrow> check_access q (Some ZERO_UUID) = Inl ERR_ACCESS_DENIED | None \<Rightarrow> False"
    by code_simp
  then obtain q where q: "ports run_ta_published 1 = Some q" "check_access q (Some ZERO_UUID) = Inl ERR_ACCESS_DENIED"
    by (auto split: option.splits)
  have "allocs run_ta_published = []" "port_find_locked run_ta_published [97] = Some 1" by code_simp+
  then show ?thesis using connect_denied [OF reach _ _ _ _ q, of "[97]" 64 0] by simp
qed

end
