(* ===== verification/Ipc_Frame.thy ===== *)
theory Ipc_Frame
  imports Ipc_Safe
begin

text \<open>
  What the operations of \<^verbatim>\<open>ipc.c\<close>, \<^verbatim>\<open>ipc_msg.c\<close> and \<^verbatim>\<open>handle.c\<close> leave alone. A property of the kernel
  state that the mild stores to an object, the lists and the counters cannot end is kept by every
  operation; the locale says so once. Three such properties are used: a fault stays, the links of
  the handle lists belong to the handle lists, and the channels of a client keep their cookie and
  their message queue and stay closed.
\<close>

named_theorems kept

text \<open>The stores that change neither the cookie of a channel nor take its queue away.\<close>

definition mild :: "(ipc_chan \<Rightarrow> ipc_chan) \<Rightarrow> bool" where
  "mild f \<longleftrightarrow> (\<forall>x. h_cookie (c_handle (f x)) = h_cookie (c_handle x) \<and> (c_msg_queue x \<noteq> None \<longrightarrow> c_msg_queue (f x) \<noteq> None))"

text \<open>The stores that do not bring a closed channel back.\<close>

definition hush :: "(ipc_chan \<Rightarrow> ipc_chan) \<Rightarrow> bool" where
  "hush f \<longleftrightarrow> (\<forall>x. quiet x \<longrightarrow> quiet (f x))"

locale kst_frame =
  fixes Q :: "kst \<Rightarrow> bool"
    and D E :: "addr set"
  assumes Q_fault: "Q w \<Longrightarrow> Q (fault w)"
    and Q_chan: "Q w \<Longrightarrow> c \<notin> D \<or> mild f \<Longrightarrow> c \<notin> E \<or> hush f \<Longrightarrow> chans w c = Some x \<Longrightarrow> Q (w\<lparr>chans := (chans w)(c \<mapsto> f x)\<rparr>)"
    and Q_free: "Q w \<Longrightarrow> Q (w\<lparr>chans := (chans w)(c := None)\<rparr>)"
    and Q_port: "Q w \<Longrightarrow> ports w p = Some y \<Longrightarrow> Q (w\<lparr>ports := (ports w)(p \<mapsto> y')\<rparr>)"
    and Q_port_free: "Q w \<Longrightarrow> Q (w\<lparr>ports := (ports w)(p := None)\<rparr>)"
    and Q_port_list: "Q w \<Longrightarrow> Q (w\<lparr>ipc_port_list := PL\<rparr>)"
    and Q_waiting: "Q w \<Longrightarrow> Q (w\<lparr>waiting_for_port_chan_list := WL\<rparr>)"
    and Q_alloc: "Q w \<Longrightarrow> n = next_addr w \<Longrightarrow> Q (w\<lparr>chans := (chans w)(n \<mapsto> x), next_addr := Suc n\<rparr>)"
    and Q_allocs: "Q w \<Longrightarrow> Q (w\<lparr>allocs := A\<rparr>)"
    and Q_signaled: "Q w \<Longrightarrow> Q (w\<lparr>signaled := S\<rparr>)"
    and Q_fresh: "Q w \<Longrightarrow> next_addr w \<notin> D \<union> E"
begin

lemmas [kept] = mild_def hush_def quiet_def Q_fault Q_chan Q_free Q_port Q_port_free Q_port_list Q_waiting Q_alloc Q_allocs Q_signaled

lemma Q_store [kept]:
  "Q w \<Longrightarrow> Q (kassert b w)" "Q w \<Longrightarrow> c \<notin> D \<or> mild f \<Longrightarrow> c \<notin> E \<or> hush f \<Longrightarrow> Q (upd_chan c f w)" "Q w \<Longrightarrow> Q (upd_port p g w)"
  "Q w \<Longrightarrow> Q (snd (kalloc w))"
  by (auto simp: kassert_def upd_chan_def upd_port_def kalloc_def intro: kept split: option.split list.split)

lemma Q_upd_handle [kept]: "Q w \<Longrightarrow> h \<notin> D \<or> (\<forall>x. h_cookie (f x) = h_cookie x) \<Longrightarrow> Q (upd_handle h f w)"
  by (auto simp: upd_handle_def kept split: option.split)

lemma Q_handle [kept]:
  "Q w \<Longrightarrow> Q (handle_incref h w)" "Q w \<Longrightarrow> Q (handle_notify h w)" "Q w \<Longrightarrow> h \<notin> D \<Longrightarrow> Q (handle_set_cookie h ck w)"
  by (auto simp: handle_incref_def handle_notify_def handle_set_cookie_def kept split: option.split)

lemma Q_ref [kept]:
  "Q w \<Longrightarrow> Q (chan_node_delete c w)" "Q w \<Longrightarrow> Q (chan_destroy_refobj c w)" "Q w \<Longrightarrow> Q (chan_add_ref c r w)"
  by (auto simp: chan_node_delete_def chan_destroy_refobj_def chan_add_ref_def Let_def kept split: option.split chan_node.split)

lemma Q_del_ref [kept]: "Q w \<Longrightarrow> Q (chan_del_ref c r w)"
  by (auto simp: chan_del_ref_def Let_def kept split: option.split)

lemma Q_destroy [kept]: "Q w \<Longrightarrow> Q (handle_destroy h w)"
  by (auto simp: handle_destroy_def port_handle_destroy_def chan_handle_destroy_def Let_def kept split: option.split handle_ops.split)

lemma Q_decref [kept]: "Q w \<Longrightarrow> Q (handle_decref h w)"
  by (auto simp: handle_decref_def Let_def kept split: option.split)

lemma Q_shutdown_one [kept]: "Q w \<Longrightarrow> Q (chan_shutdown_one c w)"
  by (auto simp: chan_shutdown_one_def Let_def kept split: option.split chan_state.split)

lemma Q_shutdown [kept]: "Q w \<Longrightarrow> Q (chan_shutdown_locked c w)"
  by (auto simp: chan_shutdown_locked_def Let_def kept split: option.split)

lemma Q_shutdown_pending [kept]: "Q w \<Longrightarrow> Q (port_shutdown_pending p ss w)"
  by (induction ss arbitrary: w) (auto simp: Let_def kept)

lemma Q_port_shutdown [kept]: "Q w \<Longrightarrow> Q (port_shutdown p w)"
  by (auto simp: port_shutdown_def Let_def kept split: option.split)

lemma Q_close [kept]: "Q w \<Longrightarrow> Q (handle_close h w)"
  by (auto simp: handle_close_def kept split: option.split handle_ops.split)

lemma Q_chan_alloc [kept]: "Q w \<Longrightarrow> Q (snd (chan_alloc f u w))"
  using Q_store(4) [of w] by (auto simp: chan_alloc_def Q_alloc split: prod.split)

lemma Q_alloc_msg_queue [kept]: "Q w \<Longrightarrow> Q (snd (alloc_msg_queue n sz w))"
  using Q_store(4) [of w] Q_store(4) [of "snd (kalloc w)"] by (auto simp: alloc_msg_queue_def split: prod.split)

lemma Q_attach_link [kept]: "Q w \<Longrightarrow> c \<notin> E \<Longrightarrow> s \<notin> E \<Longrightarrow> Q (attach_link p c s w)"
  by (simp add: attach_link_def Let_def kept)

lemma Q_queue_tail:
  assumes "Q w" "c \<notin> D \<or> mild f" "\<And>q. mild (g q)" "c \<notin> E" "s \<notin> E"
  shows "Q (snd (case alloc_msg_queue n sz w of
      (Inl _, w4) \<Rightarrow> (e, chan_del_ref s RefTmp (upd_chan c f w4))
    | (Inr q, w4) \<Rightarrow> (r, attach_link p c s (upd_chan s (g q) w4))))"
proof -
  obtain q w4 where q: "alloc_msg_queue n sz w = (q, w4)" by force
  then have "Q w4" using Q_alloc_msg_queue [OF assms(1), of n sz] by simp
  then show ?thesis using q assms(2-5) by (auto simp del: mild_def intro!: Q_del_ref Q_attach_link Q_store split: sum.split)
qed

lemma Q_attach [kept]:
  assumes "Q w" "c \<notin> D \<union> E"
  shows "Q (snd (port_attach_client p c w))"
proof (cases "\<exists>q x. ports w p = Some q \<and> chans w c = Some x \<and> p_state q = IPC_PORT_STATE_LISTENING \<and>
    check_access q (Some (c_uuid x)) = NO_ERROR")
  case True
  then obtain q x where q: "ports w p = Some q" "chans w c = Some x" "p_state q = IPC_PORT_STATE_LISTENING"
    "check_access q (Some (c_uuid x)) = NO_ERROR" by blast
  obtain s w1 where a: "chan_alloc IPC_CHAN_FLAG_SERVER (p_uuid q) w = (s, w1)" by force
  then have f1: "Q w1" using Q_chan_alloc [OF assms(1), of IPC_CHAN_FLAG_SERVER "p_uuid q"] by simp
  obtain m w2 where m: "alloc_msg_queue (p_num_recv_bufs q) (p_recv_buf_size q) w1 = (m, w2)" by force
  then have f2: "Q w2" using Q_alloc_msg_queue [OF f1, of "p_num_recv_bufs q" "p_recv_buf_size q"] by simp
  show ?thesis
  proof (cases s)
    case (Some sv)
    note e = q a m Some
    have "sv = next_addr w" using a Some by (auto simp: chan_alloc_def kalloc_def Let_def split: prod.splits list.splits if_splits)
    then have sv: "sv \<notin> E" using Q_fresh [OF assms(1)] by simp
    show ?thesis
    proof (cases m)
      case (Inr cmq)
      have "Q (upd_chan c (\<lambda>x. x\<lparr>c_msg_queue := Some cmq\<rparr>) w2)"
        using f2 assms(2) by (simp add: kept)
      from Q_queue_tail [OF this, of c "\<lambda>x. x\<lparr>c_msg_queue := None\<rparr>" "\<lambda>smq x. x\<lparr>c_msg_queue := Some smq\<rparr>" sv]
      show ?thesis using e Inr assms(2) sv by (simp add: port_attach_client_def Let_def mild_def)
    qed (use e f2 in \<open>simp add: port_attach_client_def kept\<close>)
  qed (use q a f1 in \<open>simp add: port_attach_client_def\<close>)
qed (use assms in \<open>auto simp: port_attach_client_def kept split: option.split sum.split\<close>)

lemma Q_publish_clients [kept]: "Q w \<Longrightarrow> D = {} \<Longrightarrow> E = {} \<Longrightarrow> Q (port_publish_clients p path cs w)"
proof (induction cs arbitrary: w)
  case (Cons c cs)
  show ?case using Cons(2-4)
    by (auto simp: Let_def split_beta kept split: option.split sum.split intro!: Cons(1))
qed simp

lemma Q_publish [kept]: "Q w \<Longrightarrow> D = {} \<Longrightarrow> E = {} \<Longrightarrow> Q (snd (ipc_port_publish p w))"
  by (auto simp: ipc_port_publish_def Let_def kept split: option.split)

lemma Q_finalize [kept]: "Q w \<Longrightarrow> Q (handle_finalize_event h e w)"
  by (simp add: handle_finalize_event_def chan_finalize_event_def Let_def kept)

lemma Q_msg_write [kept]: "Q w \<Longrightarrow> Q (snd (msg_write_locked km um c msg w))"
  by (auto simp: msg_write_locked_def kept split: option.split prod.split)

lemma Q_send [kept]: "Q w \<Longrightarrow> Q (snd (send_msg_locked km um ch msg w))"
  using Q_msg_write [of w km um "the ch" msg]
  by (auto simp: send_msg_locked_def Let_def Q_fault Q_handle split: option.split sum.split prod.split)

lemma Q_get [kept]: "Q w \<Longrightarrow> Q (snd (ipc_get_msg ch w))"
  by (simp add: ipc_get_msg_def kept split: option.split sum.split)

lemma Q_put [kept]: "Q w \<Longrightarrow> Q (snd (ipc_put_msg ch mid w))"
  by (simp add: ipc_put_msg_def msg_put_read_locked_def Let_def kept split: option.split sum.split)

lemma Q_read [kept]: "Q w \<Longrightarrow> Q (snd (snd (snd (read_msg_locked km um ch mid off msg w))))"
  by (simp add: read_msg_locked_def kept split: option.split sum.split prod.split)

end

section \<open>A fault stays\<close>

interpretation stays_faulted: kst_frame faulted "{}" "{}"
  by unfold_locales (simp_all add: fault_def)

lemma faulted_now [simp]: "faulted (fault w)" "faulted (kassert b w) = (\<not> b \<or> faulted w)"
  by (simp_all add: fault_def kassert_def)

section \<open>The links of handle lists\<close>

interpretation links: kst_frame "\<lambda>w. hlinked w = L" "{}" "{}" for L
  by unfold_locales (simp_all add: fault_def)

lemmas hlinked_frame [simp] =
  links.Q_store [OF refl] links.Q_upd_handle [OF refl] links.Q_handle [OF refl] links.Q_ref [OF refl] links.Q_del_ref [OF refl] links.Q_decref [OF refl]
  links.Q_shutdown [OF refl] links.Q_close [OF refl] links.Q_chan_alloc [OF refl] links.Q_attach [OF refl]
  links.Q_publish [OF refl] links.Q_finalize [OF refl] links.Q_send [OF refl] links.Q_get [OF refl] links.Q_put [OF refl]
  links.Q_read [OF refl]

lemma hlinked_init [simp]: "hlinked (handle_init h ops w) = hlinked w - {h}" "hlinked (chan_handle_init h w) = hlinked w - {h}"
  by (simp_all add: handle_init_def chan_handle_init_def)

lemma hlinked_create:
  "hlinked (snd (ipc_port_create sid path n sz flags w)) =
     (case fst (ipc_port_create sid path n sz flags w) of Inl _ \<Rightarrow> hlinked w | Inr p \<Rightarrow> hlinked w - {p})"
proof -
  obtain ok w1 where k: "kalloc w = (ok, w1)" by force
  then have "hlinked w1 = hlinked w" using hlinked_frame(4) [of w] by simp
  then show ?thesis using k by (simp add: ipc_port_create_def Let_def split: option.split)
qed

lemma hlinked_connect:
  "hlinked (snd (ipc_port_connect_async cid path mp flags w)) =
     (case fst (ipc_port_connect_async cid path mp flags w) of Inl _ \<Rightarrow> hlinked w | Inr c \<Rightarrow> hlinked w - {c})"
proof (cases "\<exists>u. cid = Some u \<and> length path \<noteq> 0 \<and> length path < mp")
  case False
  then show ?thesis by (cases cid) (auto simp: ipc_port_connect_async_def not_less)
next
  case True
  then obtain u where u: "cid = Some u" "length path \<noteq> 0" "\<not> mp \<le> length path" by auto
  obtain c w1 where a: "chan_alloc 0 u w = (c, w1)" by force
  have h1: "hlinked w1 = hlinked w" using links.Q_chan_alloc [OF refl, of 0 u w] a by simp
  show ?thesis
  proof (cases c)
    case None
    then show ?thesis using u a h1 by (simp add: ipc_port_connect_async_def)
  next
    case (Some cl)
    note e = u a Some
    show ?thesis
    proof (cases "port_find_locked w1 path")
      case None
      obtain ok w2 where k: "kalloc w1 = (ok, w2)" by force
      then have "hlinked w2 = hlinked w1" using hlinked_frame(4) [of w1] by simp
      then show ?thesis using e None k h1 by (simp add: ipc_port_connect_async_def Let_def)
    next
      case (Some p)
      obtain r2 w2 where t: "port_attach_client p cl w1 = (r2, w2)" by force
      then have "hlinked w2 = hlinked w1" using links.Q_attach [OF refl, of cl p w1] by simp
      then show ?thesis using e Some t h1 by (cases r2) (simp_all add: ipc_port_connect_async_def)
    qed
  qed
qed

lemma hlinked_accept_server:
  "hlinked (snd (accept_server p s w)) = (case fst (accept_server p s w) of Inl _ \<Rightarrow> hlinked w | Inr (s', _) \<Rightarrow> hlinked w - {s'})"
  by (simp add: accept_server_def Let_def links.Q_fault [OF refl] split: option.split)

lemma hlinked_accept:
  "hlinked (snd (ipc_port_accept ph w)) = (case fst (ipc_port_accept ph w) of Inl _ \<Rightarrow> hlinked w | Inr (s, _) \<Rightarrow> hlinked w - {s})"
  by (simp add: ipc_port_accept_def hlinked_accept_server links.Q_fault [OF refl] split: option.split list.split)

section \<open>The channels of a client\<close>

text \<open>
  Allocated channels with a known cookie. While the channel lives it has a queue to read from, and
  the flag says that the client has closed it.
\<close>

type_synonym known_chans = "addr \<rightharpoonup> nat \<times> bool"

definition chan_keep :: "known_chans \<Rightarrow> kst \<Rightarrow> bool" where
  "chan_keep K w \<longleftrightarrow> (\<forall>c ck b. K c = Some (ck, b) \<longrightarrow> c < next_addr w \<and> ports w c = None \<and>
     (\<forall>x. chans w c = Some x \<longrightarrow> h_cookie (c_handle x) = ck \<and> c_msg_queue x \<noteq> None \<and> (b \<longrightarrow> quiet x)))"

abbreviation closed_chans :: "known_chans \<Rightarrow> addr set" where
  "closed_chans K \<equiv> {c. \<exists>ck. K c = Some (ck, True)}"

lemma chan_keepI:
  assumes "\<And>c ck b. K c = Some (ck, b) \<Longrightarrow> c < next_addr w \<and> ports w c = None"
    "\<And>c ck b x. K c = Some (ck, b) \<Longrightarrow> chans w c = Some x \<Longrightarrow> h_cookie (c_handle x) = ck \<and> c_msg_queue x \<noteq> None \<and> (b \<longrightarrow> quiet x)"
  shows "chan_keep K w"
  using assms by (auto simp: chan_keep_def)

lemma chan_keepD:
  assumes "chan_keep K w" "K c = Some (ck, b)"
  shows "c < next_addr w" "ports w c = None" "chans w c = Some x \<Longrightarrow> h_cookie (c_handle x) = ck"
    "chans w c = Some x \<Longrightarrow> \<exists>mq. c_msg_queue x = Some mq" "chans w c = Some x \<Longrightarrow> b \<Longrightarrow> quiet x"
  using assms by (auto simp: chan_keep_def)

interpretation client: kst_frame "chan_keep K" "dom K" "closed_chans K" for K
proof unfold_locales
  fix w c f x assume "chan_keep K w" "c \<notin> dom K \<or> mild f" "c \<notin> closed_chans K \<or> hush f" "chans w c = Some x"
  then show "chan_keep K (w\<lparr>chans := (chans w)(c \<mapsto> f x)\<rparr>)"
    by (intro chan_keepI) (auto simp: mild_def hush_def dest: chan_keepD split: if_splits)
next
  fix w n x assume "chan_keep K w" "n = next_addr w"
  then show "chan_keep K (w\<lparr>chans := (chans w)(n \<mapsto> x), next_addr := Suc n\<rparr>)"
    by (intro chan_keepI) (auto dest: chan_keepD split: if_splits)
next
  fix w p y y' assume "chan_keep K w" "ports w p = Some y"
  then show "chan_keep K (w\<lparr>ports := (ports w)(p \<mapsto> y')\<rparr>)"
    using chan_keepD(2) [of K w] by (intro chan_keepI) (auto dest: chan_keepD)
qed (auto simp: fault_def intro!: chan_keepI dest: chan_keepD split: if_splits)

lemma chan_keep_mono: "chan_keep K w \<Longrightarrow> K' \<subseteq>\<^sub>m K \<Longrightarrow> chan_keep K' w"
  unfolding chan_keep_def map_le_def by (metis domI)

text \<open>A new cookie is known.\<close>

lemma chan_keep_cookie:
  assumes "chan_keep K w" "K c = Some (v, b)"
  shows "chan_keep (K(c \<mapsto> (ck, b))) (handle_set_cookie c ck w)"
proof (cases "chans w c")
  case None
  then show ?thesis using assms(1) chan_keepD(1,2) [OF assms]
    by (auto simp: handle_set_cookie_def upd_handle_def upd_port_def fault_def intro!: chan_keepI dest: chan_keepD split: if_splits)
next
  case (Some x)
  obtain mq where "c_msg_queue x = Some mq" using chan_keepD(4) [OF assms Some] by blast
  moreover have "b \<longrightarrow> quiet x" using chan_keepD(5) [OF assms Some] by blast
  ultimately show ?thesis using Some assms(1) chan_keepD(1,2) [OF assms]
    by (auto simp: handle_set_cookie_def upd_handle_def upd_chan_def quiet_def intro!: chan_keepI dest: chan_keepD split: if_splits)
qed

lemma chan_keep_hlinked [simp]: "chan_keep K (w\<lparr>hlinked := L\<rparr>) = chan_keep K w"
  by (simp add: chan_keep_def)

text \<open>A fresh address can be added once its channel has a queue.\<close>

lemma chan_keep_add:
  assumes "chan_keep K w" "ports w c = None" "c < next_addr w"
    "\<And>x. chans w c = Some x \<Longrightarrow> h_cookie (c_handle x) = ck \<and> c_msg_queue x \<noteq> None"
  shows "chan_keep (K(c \<mapsto> (ck, False))) w"
  using assms by (auto simp: chan_keep_def)

lemma chan_keep_init:
  assumes "chan_keep K w" "K c = Some (0, False)"
  shows "chan_keep K (chan_handle_init c w)"
proof -
  have "chan_keep K (upd_handle c (\<lambda>_. \<lparr>refcnt = 1, h_ops = OPS_CHAN, wait_event = None, h_cookie = 0\<rparr>) w)"
  proof (cases "chans w c")
    case None
    then show ?thesis using assms chan_keepD(2) [OF assms] by (simp add: upd_handle_def upd_port_def client.Q_fault)
  next
    case (Some x)
    then show ?thesis using assms chan_keepD(4) [OF assms(1)]
      by (auto simp: upd_handle_def upd_chan_def intro!: chan_keepI dest: chan_keepD split: if_splits)
  qed
  then show ?thesis by (simp add: chan_handle_init_def handle_init_def client.Q_ref)
qed

text \<open>A client that is attached to its port has a queue from then on.\<close>

lemma attach_keep:
  assumes k: "chan_keep K w" "ports w c = None" "c < next_addr w" and x: "chans w c = Some x" "h_cookie (c_handle x) = 0"
    and r: "port_attach_client p c w = (Inr u, w')"
  shows "chan_keep (K(c \<mapsto> (0, False))) w'"
proof -
  obtain q where q: "ports w p = Some q" "p_state q = IPC_PORT_STATE_LISTENING" "check_access q (Some (c_uuid x)) = NO_ERROR"
    using r x by (auto simp: port_attach_client_def split: option.splits if_splits sum.splits)
  obtain sv w1 where a: "chan_alloc IPC_CHAN_FLAG_SERVER (p_uuid q) w = (Some sv, w1)"
    using r x q by (auto simp: port_attach_client_def split: prod.splits option.splits)
  obtain m w2 where m: "alloc_msg_queue (p_num_recv_bufs q) (p_recv_buf_size q) w1 = (Inr m, w2)"
    using r x q a by (auto simp: port_attach_client_def split: prod.splits sum.splits)
  let ?w = "upd_chan c (\<lambda>x. x\<lparr>c_msg_queue := Some m\<rparr>) w2"
  obtain m' w4 where m': "alloc_msg_queue (p_num_recv_bufs q) (p_recv_buf_size q) ?w = (Inr m', w4)"
    using r x q a m by (auto simp: port_attach_client_def Let_def split: prod.splits sum.splits)
  have w': "w' = attach_link p c sv (upd_chan sv (\<lambda>x. x\<lparr>c_msg_queue := Some m'\<rparr>) w4)"
    using r x q a m m' by (simp add: port_attach_client_def Let_def)
  have e1: "chans w2 = chans w1" "ports w2 = ports w1" "next_addr w2 = next_addr w1"
    using m by (auto simp: alloc_msg_queue_def kalloc_def Let_def split: prod.splits list.splits if_splits)
  have e2: "chans w1 c = Some x" "ports w1 = ports w" "next_addr w1 = Suc (next_addr w)"
    using a k x by (auto simp: chan_alloc_def kalloc_def Let_def split: prod.splits list.splits if_splits)
  have "chan_keep K w1" using client.Q_chan_alloc [OF k(1), of IPC_CHAN_FLAG_SERVER "p_uuid q"] a by simp
  then have "chan_keep K w2" using client.Q_alloc_msg_queue [of K w1] m by (metis snd_conv)
  then have "chan_keep K ?w" by (rule client.Q_store) (simp_all add: mild_def hush_def quiet_def)
  then have "chan_keep (K(c \<mapsto> (0, False))) ?w"
    using e1 e2 k x by (intro chan_keep_add) (auto simp: upd_chan_def)
  then have "chan_keep (K(c \<mapsto> (0, False))) w4" using client.Q_alloc_msg_queue [of "K(c \<mapsto> (0, False))" ?w] m' by (metis snd_conv)
  moreover have "sv = next_addr w" using a by (auto simp: chan_alloc_def kalloc_def Let_def split: prod.splits list.splits if_splits)
  then have "sv \<notin> closed_chans (K(c \<mapsto> (0, False)))" using client.Q_fresh [OF k(1)] k(3) by auto
  ultimately show ?thesis unfolding w' by (intro client.Q_attach_link client.Q_store) (simp_all add: mild_def hush_def quiet_def)
qed

lemma connect_keep:
  assumes k: "chan_keep K w" and f: "ports w (next_addr w) = None"
    and r: "ipc_port_connect_async cid path mp 0 w = (r, w')"
  shows "case r of Inl _ \<Rightarrow> chan_keep K w' | Inr c \<Rightarrow> c = next_addr w \<and> chan_keep (K(c \<mapsto> (0, False))) w'"
proof (cases "\<exists>u. cid = Some u \<and> length path \<noteq> 0 \<and> length path < mp")
  case False
  then show ?thesis using r k by (cases cid) (auto simp: ipc_port_connect_async_def not_less)
next
  case True
  then obtain u where u: "cid = Some u" "path \<noteq> []" "\<not> mp \<le> length path" by auto
  obtain c w1 where a: "chan_alloc 0 u w = (c, w1)" by force
  have k1: "chan_keep K w1" using client.Q_chan_alloc [OF k, of 0 u] a by simp
  show ?thesis
  proof (cases c)
    case None
    then show ?thesis using r u a k1 by (auto simp: ipc_port_connect_async_def)
  next
    case (Some cl)
    note e = u a Some
    have n: "cl = next_addr w" "cl < next_addr w1" "ports w1 cl = None" "\<exists>x. chans w1 cl = Some x \<and> h_cookie (c_handle x) = 0"
      using a Some f by (auto simp: chan_alloc_def kalloc_def zero_handle_def Let_def split: prod.splits list.splits if_splits)
    have d: "cl \<notin> dom K \<union> closed_chans K" using client.Q_fresh [OF k] n(1) by simp
    show ?thesis
    proof (cases "port_find_locked w1 path")
      case None
      then show ?thesis using r e k1 by (auto simp: ipc_port_connect_async_def client.Q_del_ref)
    next
      case (Some p)
      obtain r2 w2 where t: "port_attach_client p cl w1 = (r2, w2)" by force
      show ?thesis
      proof (cases r2)
        case (Inl e')
        have "chan_keep K w2" using client.Q_attach [OF k1 d, of p] t by simp
        then show ?thesis using r e Some t Inl by (auto simp: ipc_port_connect_async_def client.Q_del_ref)
      next
        case (Inr u')
        have "chan_keep (K(cl \<mapsto> (0, False))) w2" using n attach_keep [OF k1 n(3,2)] t Inr by blast
        then have "chan_keep (K(cl \<mapsto> (0, False))) (chan_handle_init cl w2)" by (rule chan_keep_init) simp
        then show ?thesis using r e Some t Inr n by (auto simp: ipc_port_connect_async_def client.Q_del_ref)
      qed
    qed
  qed
qed

end
