(* ===== verification/Ipc_Faults.thy ===== *)
theory Ipc_Faults
  imports Ipc_Flow Ipc_Frame
begin

text \<open>
  Two executions of \<^verbatim>\<open>ipc.c\<close> and \<^verbatim>\<open>ipc_msg.c\<close> that the kernel does not survive, both set off
  by an ordinary client: a port is published that refuses a client waiting for it, and a
  client takes a message from a channel that still waits for its port. The steps of
  \<open>kreach\<close> exclude exactly these.
\<close>

section \<open>Publishing a port that refuses a waiting client\<close>

lemma attach_not_allowed:
  assumes "ports w p = Some q" "chans w c = Some x" "check_access q (Some (c_uuid x)) = Inl e"
  shows "\<exists>e'. port_attach_client p c w = (Inl e', w)"
  using assms by (simp add: port_attach_client_def)

lemma publish_skips:
  assumes "\<And>e. e \<in> set es \<Longrightarrow> \<exists>x pa. chans w e = Some x \<and> c_path x = Some pa \<and> pa \<noteq> path"
  shows "port_publish_clients p path (es @ cs) w = port_publish_clients p path cs w"
  using assms
proof (induction es)
  case (Cons e es)
  from Cons(2) [of e] obtain x pa where "chans w e = Some x" "c_path x = Some pa" "pa \<noteq> path" by auto
  then show ?case using Cons by simp
qed simp

lemma refused_client_faults:
  assumes inv: "ipc_inv {} H w" and c: "chans w c = Some x" "c_node x = NodeWaiting" "c_path x = Some path"
    and q: "ports w p = Some q" "check_access q (Some (c_uuid x)) = Inl e"
  shows "faulted (port_publish_clients p path (c # cs) w)"
proof -
  define w4 where "w4 = chan_del_ref c RefNode (chan_node_delete c (chan_add_ref c RefTmp (upd_chan c (\<lambda>x. x\<lparr>c_path := None\<rparr>) w)))"
  note t = publish_taken [OF inv c(1,2) w4_def]
  let ?x = "x\<lparr>c_node := NodeClear, c_refobj := remove1 RefNode (c_refobj x @ [RefTmp]), c_path := None\<rparr>"
  have st: "c_state x = IPC_CHAN_STATE_WAITING_FOR_PORT"
    using ipc_core_chan(3) [OF _ c(1)] inv c(2) by (auto simp: ipc_inv_def node_wf_def)
  have x4: "chans w4 c = Some ?x" "ports w4 p = Some q" using t(2) q(1) by simp_all
  then obtain e' where "port_attach_client p c w4 = (Inl e', w4)" using attach_not_allowed q(2) by fastforce
  moreover have "faulted (chan_shutdown_one c w4)"
    using x4(1) st by (simp add: chan_shutdown_one_def kassert_def Let_def kept)
  then have "faulted (chan_shutdown_locked c w4)" by (auto simp: chan_shutdown_locked_def Let_def kept split: option.split)
  ultimately show ?thesis using c(1,3) by (simp add: Let_def w4_def [symmetric] kept)
qed

text \<open>C19: publishing a port panics the kernel when the first client that waits for its name is not
  allowed to connect to it: after the refusal the client, already off the waiting list but
  still in the waiting state, is shut down, and \<^verbatim>\<open>ASSERT(list_in_list(&chan->node))\<close> fails.\<close>

theorem publish_refused_panics:
  assumes "kreach w H" "ports w p = Some q" "\<not> p_node q" "port_find_locked w (p_path q) = None"
    "waiting_for_port_chan_list w = es @ c # cs" "chans w c = Some x" "c_path x = Some (p_path q)"
    "check_access q (Some (c_uuid x)) = Inl ERR_ACCESS_DENIED"
    "\<forall>e\<in>set es. \<exists>y pa. chans w e = Some y \<and> c_path y = Some pa \<and> pa \<noteq> p_path q"
  shows "faulted (snd (ipc_port_publish p w))"
proof -
  have inv: "ipc_inv {} H w" using kreach_inv [OF assms(1)] .
  have core: "ipc_core {} H w" using inv by (simp add: ipc_inv_def)
  let ?q = "q\<lparr>p_state := IPC_PORT_STATE_LISTENING, p_node := True,
      p_handle := (p_handle q)\<lparr>refcnt := refcnt (p_handle q) + 1\<rparr>\<rparr>"
  let ?w = "w\<lparr>ports := (ports w)(p \<mapsto> ?q), ipc_port_list := ipc_port_list w @ [p]\<rparr>"
  note l = publish_listed [OF inv assms(2,3,4) refl refl]
  have "c \<in> set (waiting_for_port_chan_list w)" using assms(5) by simp
  then have "c_node x = NodeWaiting" using ipc_core_chan(3) [OF core assms(6)] by (auto simp: node_wf_def)
  then have "faulted (port_publish_clients p (p_path q) (c # cs) ?w)"
    using refused_client_faults [OF l(1), of c x "p_path q" p ?q ERR_ACCESS_DENIED cs] assms(6-8) check_access_flags [of ?q q]
    by simp
  moreover have "port_publish_clients p (p_path q) (es @ c # cs) ?w = port_publish_clients p (p_path q) (c # cs) ?w"
    using assms(9) by (intro publish_skips) auto
  ultimately show ?thesis using l(2) assms(5) by simp
qed

text \<open>
  A client of the non-secure world waits for the name of a port that is then created for
  applications only.
\<close>

definition run_waiting :: kst where
  "run_waiting = snd (ipc_port_connect_async (Some ZERO_UUID) [97] 64 1 init_kst)"
definition run_ta_only :: kst where
  "run_ta_only = snd (ipc_port_create (Some (APP_UUID [1])) [97] 1 4 1 run_waiting)"

lemma run_waiting_reach: "kreach run_waiting {#1#}"
proof -
  have "fst (ipc_port_connect_async (Some ZERO_UUID) [97] 64 1 init_kst) = Inr 1" by code_simp
  from kreach.step [OF kreach.start kstep.connect [OF pair_snd [OF this]]] show ?thesis by (simp add: run_waiting_def)
qed

lemma run_ta_only_reach: "kreach run_ta_only {#2, 1#}"
proof -
  have "fst (ipc_port_create (Some (APP_UUID [1])) [97] 1 4 1 run_waiting) = Inr 2" by code_simp
  from kreach.step [OF run_waiting_reach kstep.create [OF pair_snd [OF this]]] show ?thesis by (simp add: run_ta_only_def)
qed

theorem publish_refused_panics_witness: "kreach run_ta_only {#2, 1#} \<and> faulted (snd (ipc_port_publish 2 run_ta_only))"
proof -
  have "case (ports run_ta_only 2, chans run_ta_only 1) of
      (Some q, Some x) \<Rightarrow> \<not> p_node q \<and> port_find_locked run_ta_only (p_path q) = None \<and> c_path x = Some (p_path q) \<and>
        check_access q (Some (c_uuid x)) = Inl ERR_ACCESS_DENIED
    | _ \<Rightarrow> False"
    by code_simp
  then obtain q x where q: "ports run_ta_only 2 = Some q" "\<not> p_node q" "port_find_locked run_ta_only (p_path q) = None"
    and x: "chans run_ta_only 1 = Some x" "c_path x = Some (p_path q)" "check_access q (Some (c_uuid x)) = Inl ERR_ACCESS_DENIED"
    by (auto split: option.splits)
  have l: "waiting_for_port_chan_list run_ta_only = [] @ 1 # []" by code_simp
  show ?thesis using publish_refused_panics [OF run_ta_only_reach q l x] run_ta_only_reach by simp
qed

section \<open>Messages on a channel without a queue\<close>

text \<open>C20: taking, retiring or reading a message on a client's channel that has no message queue, as while
  it waits for its port, follows the null pointer of the queue: the check that guards these calls only asks that the
  handle is a channel.\<close>

theorem waiting_channel_panics:
  assumes "kreach w H" "c \<in># H" "chans w c = Some x" "c_msg_queue x = None"
  shows "faulted (snd (ipc_get_msg (Some c) w)) \<and> faulted (snd (ipc_put_msg (Some c) mid w)) \<and>
    faulted (snd (snd (snd (read_msg_locked km um (Some c) mid off msg w))))"
proof -
  have "ipc_is_channel w c"
    using ipc_core_chan(2) [OF kreach_core [OF assms(1)] assms(3)] assms(2,3) by (simp add: hdl_wf_def ipc_is_channel_def handle_at_def)
  then have "check_channel_locked w (Some c) = NO_ERROR" by (simp add: check_channel_locked_def)
  then show ?thesis using assms(3,4) by (simp add: ipc_get_msg_def ipc_put_msg_def msg_put_read_locked_def read_msg_locked_def)
qed

theorem waiting_channel_panics_witness:
  "kreach run_waiting {#1#} \<and> faulted (snd (ipc_get_msg (Some 1) run_waiting))"
proof -
  have "case chans run_waiting 1 of Some x \<Rightarrow> c_msg_queue x = None | None \<Rightarrow> False" by code_simp
  then obtain x where x: "chans run_waiting 1 = Some x" "c_msg_queue x = None" by (auto split: option.splits)
  show ?thesis using waiting_channel_panics [OF run_waiting_reach _ x] run_waiting_reach by simp
qed

end
