(* ===== verification/Handle_Wait.thy ===== *)
theory Handle_Wait
  imports Ipc_Flow
begin

text \<open>
  Waiting on handles (\<^verbatim>\<open>lk/trusty/lib/trusty/handle.c\<close>): on one handle, and on a list of them.
  A wait blocks, and what other threads do to the shared state in the meantime is an argument
  of the model: a call is given the list of its coming wake-ups, and the value \<open>None\<close> is a
  call that is still blocked when the list is used up. Each operation is shown to be a sequence
  of the steps of \<open>kreach\<close>.
\<close>

section \<open>Blocking\<close>

text \<open>
  One return of \<^verbatim>\<open>event_wait_timeout\<close>: its result, what happened to the shared state before it,
  and the content of the stack slot that the next poll of a handle list finds in its
  variable \<^verbatim>\<open>ret\<close>, which it does not initialise.
\<close>

record 's wake =
  wk_res :: "unit res"
  wk_others :: "'s \<Rightarrow> 's"
  wk_ret :: int

definition event_reset :: "nat \<Rightarrow> kst \<Rightarrow> kst" where
  "event_reset ev w = w\<lparr>signaled := signaled w - {ev}\<rparr>"

definition event_signal :: "nat \<Rightarrow> kst \<Rightarrow> kst" where
  "event_signal ev w = w\<lparr>signaled := insert ev (signaled w)\<rparr>"

definition do_wait :: "nat \<Rightarrow> kst wake \<Rightarrow> kst \<Rightarrow> unit res \<times> kst" where
  "do_wait ev wk w = (wk_res wk, event_reset ev (wk_others wk w))"

section \<open>One handle\<close>

definition prepare_wait_handle :: "nat \<Rightarrow> addr \<Rightarrow> kst \<Rightarrow> unit res \<times> kst" where
  "prepare_wait_handle ev h w = (case handle_at w h of
     None \<Rightarrow> (Inl ERR_FAULT, fault w)
   | Some x \<Rightarrow>
       if wait_event x \<noteq> None then (Inl ERR_ALREADY_STARTED, w)
       else (NO_ERROR, upd_handle h (\<lambda>x. x\<lparr>wait_event := Some ev\<rparr>) w))"

definition finish_wait_handle :: "addr \<Rightarrow> kst \<Rightarrow> kst" where
  "finish_wait_handle h w = upd_handle h (\<lambda>x. x\<lparr>wait_event := None\<rparr>) w"

fun handle_wait_loop :: "addr \<Rightarrow> nat \<Rightarrow> kst wake list \<Rightarrow> kst \<Rightarrow> (u32 res \<times> kst) option" where
  "handle_wait_loop h ev [] w =
     (if handle_at w h = None then Some (Inl ERR_FAULT, fault w)
      else if handle_poll w h \<noteq> 0 then Some (Inr (handle_poll w h), w)
      else None)"
| "handle_wait_loop h ev (wk # wks) w =
     (if handle_at w h = None then Some (Inl ERR_FAULT, fault w)
      else if handle_poll w h \<noteq> 0 then Some (Inr (handle_poll w h), w)
      else (case do_wait ev wk w of
        (Inl e, w1) \<Rightarrow> Some (Inl e, w1)
      | (Inr _, w1) \<Rightarrow> handle_wait_loop h ev wks w1))"

definition handle_wait :: "addr option \<Rightarrow> nat \<Rightarrow> kst wake list \<Rightarrow> kst \<Rightarrow> (u32 res \<times> kst) option" where
  "handle_wait hp ev wks w = (case hp of
     None \<Rightarrow> Some (Inl ERR_INVALID_ARGS, w)
   | Some h \<Rightarrow>
       (case prepare_wait_handle ev h (event_reset ev w) of
          (Inl e, w1) \<Rightarrow> Some (Inl e, event_reset ev w1)
        | (Inr _, w1) \<Rightarrow>
            (case handle_wait_loop h ev wks w1 of
               None \<Rightarrow> None
             | Some (Inl e, w2) \<Rightarrow> Some (Inl e, event_reset ev (finish_wait_handle h w2))
             | Some (Inr event, w2) \<Rightarrow>
                 Some (Inr event, event_reset ev (finish_wait_handle h (handle_finalize_event h event w2))))))"

section \<open>Handle lists\<close>

record handle_list =
  hl_handles :: "addr list"
  hl_event :: "nat option"

definition handle_list_init :: handle_list where
  "handle_list_init = \<lparr>hl_handles = [], hl_event = None\<rparr>"

definition handle_list_add :: "handle_list \<Rightarrow> addr \<Rightarrow> kst \<Rightarrow> handle_list \<times> kst" where
  "handle_list_add hl h w =
     (let w1 = handle_incref h (kassert (h \<notin> hlinked w) w);
          w2 = w1\<lparr>hlinked := insert h (hlinked w1)\<rparr>;
          hl1 = hl\<lparr>hl_handles := hl_handles hl @ [h]\<rparr>
      in case hl_event hl of
           None \<Rightarrow> (hl1, w2)
         | Some ev \<Rightarrow>
             (let w3 = snd (prepare_wait_handle ev h w2)
              in (hl1, if handle_poll w3 h \<noteq> 0 then handle_notify h w3 else w3)))"

definition handle_list_del_locked :: "handle_list \<Rightarrow> addr \<Rightarrow> kst \<Rightarrow> handle_list \<times> kst" where
  "handle_list_del_locked hl h w =
     (let w1 = kassert (h \<in> hlinked w) w;
          hl1 = hl\<lparr>hl_handles := remove1 h (hl_handles hl)\<rparr>;
          w2 = w1\<lparr>hlinked := hlinked w1 - {h}\<rparr>;
          w3 = (case hl_event hl of
                  None \<Rightarrow> w2
                | Some ev \<Rightarrow>
                    (let w3 = finish_wait_handle h w2
                     in if hl_handles hl1 = [] then event_signal ev w3 else w3))
      in (hl1, handle_decref h w3))"

definition handle_list_del :: "handle_list \<Rightarrow> addr \<Rightarrow> kst \<Rightarrow> handle_list \<times> kst" where
  "handle_list_del hl h w = handle_list_del_locked hl h w"

lemma hl_handles_del [simp]: "hl_handles (fst (handle_list_del_locked hl h w)) = remove1 h (hl_handles hl)"
  by (simp add: handle_list_del_locked_def Let_def)

function handle_list_delete_all :: "handle_list \<Rightarrow> kst \<Rightarrow> handle_list \<times> kst" where
  "handle_list_delete_all hl w =
     (if hl_handles hl = [] then (hl, w)
      else (let r = handle_list_del_locked hl (hd (hl_handles hl)) w in handle_list_delete_all (fst r) (snd r)))"
  by pat_completeness auto
termination
  by (relation "measure (\<lambda>(hl, w). length (hl_handles hl))") (auto simp: length_remove1 split_beta)

declare handle_list_delete_all.simps [simp del]

fun hlist_finish_wait_locked :: "addr list \<Rightarrow> addr option \<Rightarrow> kst \<Rightarrow> kst" where
  "hlist_finish_wait_locked [] last_h w = w"
| "hlist_finish_wait_locked (h # hs) last_h w =
     (let w1 = finish_wait_handle h w
      in if last_h = Some h then w1 else hlist_finish_wait_locked hs last_h w1)"

text \<open>
  The loop of \<^verbatim>\<open>_hlist_do_poll_locked\<close>, with the loop variables \<^verbatim>\<open>last_prep\<close> and \<^verbatim>\<open>ret\<close>; the handle
  and the event it found come back as a pair.
\<close>

fun hlist_poll_loop ::
    "bool \<Rightarrow> nat \<Rightarrow> addr list \<Rightarrow> addr option \<Rightarrow> int \<Rightarrow> kst \<Rightarrow> int \<times> (addr \<times> u32) option \<times> addr option \<times> kst" where
  "hlist_poll_loop prepare ev [] last_prep ret w = (ret, None, last_prep, w)"
| "hlist_poll_loop prepare ev (h # hs) last_prep ret w =
     (case (if prepare then prepare_wait_handle ev h w else (NO_ERROR, w)) of
        (Inl e, w1) \<Rightarrow> (err_code e, None, last_prep, w1)
      | (Inr _, w1) \<Rightarrow>
          (let last_prep1 = (if prepare then Some h else last_prep);
               ret1 = (if prepare then 0 else ret);
               event = handle_poll w1 h
           in if event \<noteq> 0 then (1, Some (h, event), last_prep1, w1)
              else hlist_poll_loop prepare ev hs last_prep1 ret1 w1))"

definition hlist_do_poll_locked ::
    "handle_list \<Rightarrow> bool \<Rightarrow> int \<Rightarrow> kst \<Rightarrow> int \<times> (addr \<times> u32) option \<times> kst" where
  "hlist_do_poll_locked hl prepare ret w = (case hl_event hl of
     None \<Rightarrow> (err_code ERR_FAULT, None, fault w)
   | Some ev \<Rightarrow>
       if hl_handles hl = [] then (err_code ERR_NOT_FOUND, None, w)
       else
         (let (ret1, found, last_prep, w1) = hlist_poll_loop prepare ev (hl_handles hl) None ret w
          in (ret1, found,
              if ret1 \<noteq> 0 \<and> prepare \<and> last_prep \<noteq> None
              then hlist_finish_wait_locked (hl_handles hl) last_prep w1 else w1)))"

definition hl_do_wait :: "nat \<Rightarrow> (handle_list \<times> kst) wake \<Rightarrow> handle_list \<Rightarrow> kst \<Rightarrow> unit res \<times> handle_list \<times> kst" where
  "hl_do_wait ev wk hl w = (case wk_others wk (hl, w) of (hl1, w1) \<Rightarrow> (wk_res wk, hl1, event_reset ev w1))"

text \<open>The wait loop of \<^verbatim>\<open>handle_list_wait\<close>.\<close>

fun handle_list_wait_loop ::
    "nat \<Rightarrow> (handle_list \<times> kst) wake list \<Rightarrow> handle_list \<Rightarrow> kst \<Rightarrow>
     (int \<times> (addr \<times> u32) option \<times> handle_list \<times> kst) option" where
  "handle_list_wait_loop ev [] hl w = None"
| "handle_list_wait_loop ev (wk # wks) hl w =
     (case hl_do_wait ev wk hl w of
        (Inl e, hl1, w1) \<Rightarrow> Some (err_code e, None, hl1, w1)
      | (Inr _, hl1, w1) \<Rightarrow>
          (case hlist_do_poll_locked hl1 False (wk_ret wk) w1 of
             (ret, found, w2) \<Rightarrow>
               if ret = 0 then handle_list_wait_loop ev wks hl1 w2
               else Some (ret, found, hl1, w2)))"

text \<open>
  \<^verbatim>\<open>list_delete (&hlist->handles)\<close> and \<^verbatim>\<open>list_add_head (&handle->hlist_node, &hlist->handles)\<close> move the
  head of the ring behind the handle.
\<close>

definition hl_move_head :: "addr \<Rightarrow> addr list \<Rightarrow> addr list" where
  "hl_move_head h hs = tl (dropWhile (\<lambda>x. x \<noteq> h) hs) @ takeWhile (\<lambda>x. x \<noteq> h) hs @ [h]"

text \<open>
  The end of \<^verbatim>\<open>handle_list_wait\<close>: with \<^verbatim>\<open>ret == 1\<close> the handle found is followed, null or not. The
  handle and event left in the caller's variables come back as a pair, \<open>None\<close> the null handle.
\<close>

definition handle_list_found ::
    "nat \<Rightarrow> int \<Rightarrow> (addr \<times> u32) option \<Rightarrow> handle_list \<Rightarrow> kst \<Rightarrow> int \<times> (addr \<times> u32) option \<times> handle_list \<times> kst" where
  "handle_list_found ev ret found hl w =
     (if ret = 1 then (case found of
        None \<Rightarrow> (ret, None, hl\<lparr>hl_event := None\<rparr>, fault w)
      | Some (h, event) \<Rightarrow>
          (let w1 = handle_incref h (handle_finalize_event h event w)
           in (0, found, hl\<lparr>hl_handles := hl_move_head h (hl_handles hl), hl_event := None\<rparr>, event_reset ev w1)))
      else (ret, found, hl\<lparr>hl_event := None\<rparr>, event_reset ev w))"

definition handle_list_wait ::
    "handle_list \<Rightarrow> nat \<Rightarrow> (handle_list \<times> kst) wake list \<Rightarrow> kst \<Rightarrow>
     (int \<times> (addr \<times> u32) option \<times> handle_list \<times> kst) option" where
  "handle_list_wait hl ev wks w =
     (let w0 = kassert (hl_event hl = None) (event_reset ev w);
          hl0 = hl\<lparr>hl_event := Some ev\<rparr>;
          (ret, found, w1) = hlist_do_poll_locked hl0 True 0 w0
      in if ret \<noteq> 0 then Some (handle_list_found ev ret found hl0 w1)
         else (case handle_list_wait_loop ev wks hl0 w1 of
           None \<Rightarrow> None
         | Some (ret1, found1, hl1, w2) \<Rightarrow>
             Some (handle_list_found ev ret1 found1 hl1 (hlist_finish_wait_locked (hl_handles hl1) None w2))))"

section \<open>Steps of the shared state\<close>

text \<open>
  What other threads do is acceptable to a client with the references \<open>M\<close> when it leaves the
  state reachable with these references in place.
\<close>

definition keeps :: "addr multiset \<Rightarrow> (kst \<Rightarrow> kst) \<Rightarrow> bool" where
  "keeps M f \<longleftrightarrow> (\<forall>w P. kreach w (M + P) \<longrightarrow> (\<exists>P'. kreach (f w) (M + P')))"

named_theorems reach

lemma event_reach [reach]:
  "kreach w H \<Longrightarrow> kreach (event_reset ev w) H"
  "kreach w H \<Longrightarrow> kreach (event_signal ev w) H"
  unfolding event_reset_def event_signal_def by (blast intro: kreach.step kstep.events)+

lemma hlinked_reach [reach]: "kreach w H \<Longrightarrow> kreach (w\<lparr>hlinked := L\<rparr>) H"
  by (blast intro: kreach.step kstep.hlink)

lemma incref_reach [reach]: "kreach w H \<Longrightarrow> h \<in># H \<Longrightarrow> kreach (handle_incref h w) (add_mset h H)"
  by (blast intro: kreach.step kstep.incref)

lemma decref_reach [reach]: "kreach w (add_mset h (add_mset h P)) \<Longrightarrow> kreach (handle_decref h w) (add_mset h P)"
  using kreach.step [of w "add_mset h (add_mset h P)" "handle_decref h w" "add_mset h P"]
    kstep.decref [of h "add_mset h (add_mset h P)" w] by simp

lemma close_reach [reach]: "kreach w (add_mset h P) \<Longrightarrow> kreach (handle_close h w) P"
  using kreach.step [of w "add_mset h P" "handle_close h w" P] kstep.close [of h "add_mset h P" w] by simp

lemma finalize_reach [reach]: "kreach w H \<Longrightarrow> h \<in># H \<Longrightarrow> kreach (handle_finalize_event h e w) H"
  by (blast intro: kreach.step kstep.finalize)

lemma handle_alive:
  assumes "kreach w H" "h \<in># H"
  shows "handle_at w h \<noteq> None"
  using kreach_core [OF assms(1)] assms(2) by (cases rule: holder_cases) (auto simp: handle_at_def)

lemma notify_reach [reach]:
  assumes "kreach w H" "h \<in># H"
  shows "kreach (handle_notify h w) H"
proof -
  obtain S where "handle_notify h w = w\<lparr>signaled := S\<rparr>" using handle_alive [OF assms] notify_cases by blast
  then show ?thesis using assms(1) by (auto intro: kreach.step kstep.events)
qed

lemma finish_wait_reach [reach]: "kreach w H \<Longrightarrow> h \<in># H \<Longrightarrow> kreach (finish_wait_handle h w) H"
  unfolding finish_wait_handle_def by (blast intro: kreach.step kstep.wait)

lemma prepare_wait_reach [reach]:
  assumes "kreach w H" "h \<in># H"
  shows "kreach (snd (prepare_wait_handle ev h w)) H"
  using assms handle_alive [OF assms]
  by (auto simp: prepare_wait_handle_def split: option.split intro: kreach.step kstep.wait)

lemma handle_list_add_reach [reach]:
  assumes "kreach w H" "h \<in># H" "h \<notin> hlinked w"
  shows "kreach (snd (handle_list_add hl h w)) (add_mset h H)"
proof -
  have "kreach ((handle_incref h w)\<lparr>hlinked := L\<rparr>) (add_mset h H)" for L using assms by (intro reach)
  then show ?thesis using assms by (auto simp: handle_list_add_def kassert_def Let_def split: option.split intro!: reach)
qed

lemma handle_list_del_reach [reach]:
  assumes "kreach w (add_mset h (add_mset h P))" "h \<in> hlinked w"
  shows "kreach (snd (handle_list_del_locked hl h w)) (add_mset h P)"
proof -
  have "kreach (w\<lparr>hlinked := L\<rparr>) (add_mset h (add_mset h P))" for L using assms(1) by (intro reach)
  then show ?thesis using assms by (auto simp: handle_list_del_locked_def kassert_def Let_def split: option.split intro!: reach)
qed

section \<open>Waiting on one handle\<close>

text \<open>The state after a sequence of wake-ups.\<close>

fun woken :: "nat \<Rightarrow> kst wake list \<Rightarrow> kst \<Rightarrow> kst" where
  "woken ev [] w = w"
| "woken ev (wk # wks) w = woken ev wks (snd (do_wait ev wk w))"

lemma do_wait_reach:
  assumes "kreach w (M + P)" "keeps M (wk_others wk)"
  shows "\<exists>P'. kreach (snd (do_wait ev wk w)) (M + P')"
  using assms by (auto simp: do_wait_def keeps_def intro: reach)

lemma handle_wait_loop_returns:
  assumes "kreach w (add_mset h P)" "\<forall>wk \<in> set wks. wk_res wk = NO_ERROR \<and> keeps {#h#} (wk_others wk)"
    "k \<le> length wks" "handle_poll (woken ev (take k wks) w) h \<noteq> 0"
  shows "\<exists>e w' P'. handle_wait_loop h ev wks w = Some (Inr e, w') \<and> e = handle_poll w' h \<and> e \<noteq> 0 \<and> kreach w' (add_mset h P')"
  using assms
proof (induction wks arbitrary: w k P)
  case Nil
  then show ?case using handle_alive [OF Nil(1)] by auto
next
  case (Cons wk wks)
  have a: "handle_at w h \<noteq> None" using handle_alive [OF Cons(2)] by simp
  show ?case
  proof (cases "handle_poll w h = 0")
    case False
    then show ?thesis using a Cons(2) by auto
  next
    case True
    then obtain j where j: "k = Suc j" using Cons(5) by (cases k) auto
    obtain w1 where w1: "do_wait ev wk w = (NO_ERROR, w1)" using Cons(3) by (simp add: do_wait_def)
    obtain P' where "kreach w1 ({#h#} + P')" using do_wait_reach [of w "{#h#}" P wk ev] Cons(2,3) w1 by auto
    then have "\<exists>e w' P'. handle_wait_loop h ev wks w1 = Some (Inr e, w') \<and> e = handle_poll w' h \<and> e \<noteq> 0 \<and> kreach w' (add_mset h P')"
      using Cons(3,4,5) j w1 by (intro Cons(1) [of w1 P' j]) auto
    then show ?thesis using a True w1 by simp
  qed
qed

lemma wait_event_finish:
  assumes "handle_at w h \<noteq> None" "handle_at (finish_wait_handle h w) h = Some x"
  shows "wait_event x = None"
  using assms
  by (auto simp: finish_wait_handle_def upd_handle_def upd_chan_def upd_port_def handle_at_def split: option.splits)

lemma handle_at_event_reset [simp]: "handle_at (event_reset ev w) h = handle_at w h"
  by (simp add: handle_at_def event_reset_def split: option.split)


text \<open>The server of the concrete run waits on its channel, and the client sends.\<close>

definition run_wake :: "kst wake" where
  "run_wake = \<lparr>wk_res = NO_ERROR,
     wk_others = (\<lambda>w. snd (send_msg_locked (\<lambda>a. ucast a) demo_umem (Some 2) run_msg w)), wk_ret = 0\<rparr>"


section \<open>Waiting on a list\<close>

lemma poll_handle [simp]: "chan_poll (c\<lparr>c_handle := y\<rparr>) = chan_poll c" "port_poll (q\<lparr>p_handle := y\<rparr>) = port_poll q"
  by (simp_all add: chan_poll_def port_poll_def)

lemma handle_poll_wait_event: "handle_poll (upd_handle h (\<lambda>x. x\<lparr>wait_event := e\<rparr>) w) g = handle_poll w g"
proof (cases "chans w h")
  case None
  then show ?thesis
    by (cases "ports w h") (auto simp: handle_poll_def upd_handle_def upd_port_def fault_def split: option.split)
next
  case (Some c)
  then show ?thesis by (cases "g = h") (simp_all add: handle_poll_def upd_handle_def upd_chan_def split: option.split)
qed

lemma handle_poll_event_reset [simp]: "handle_poll (event_reset ev w) = handle_poll w"
  by (rule ext) (simp add: handle_poll_def event_reset_def split: option.split)

text \<open>The handles of a list can be waited on: they exist and nobody waits on them.\<close>

definition waitable :: "kst \<Rightarrow> addr \<Rightarrow> bool" where
  "waitable w h = (case handle_at w h of Some x \<Rightarrow> wait_event x = None | None \<Rightarrow> False)"

lemma wait_undo:
  assumes "waitable w h"
  shows "finish_wait_handle h (upd_handle h (\<lambda>x. x\<lparr>wait_event := Some ev\<rparr>) w) = w"
proof -
  have e: "x\<lparr>wait_event := None\<rparr> = x" if "wait_event x = None" for x using that by simp
  show ?thesis
  proof (cases "chans w h")
    case None
    then obtain q where q: "ports w h = Some q" "wait_event (p_handle q) = None"
      using assms by (cases "ports w h") (auto simp: waitable_def handle_at_def)
    then have "q\<lparr>p_handle := (p_handle q)\<lparr>wait_event := None\<rparr>\<rparr> = q" using e by simp
    then show ?thesis using None q(1) by (simp add: finish_wait_handle_def upd_handle_def upd_port_def fun_upd_idem)
  next
    case (Some c)
    then have "wait_event (c_handle c) = None" using assms by (simp add: waitable_def handle_at_def)
    then have "c\<lparr>c_handle := (c_handle c)\<lparr>wait_event := None\<rparr>\<rparr> = c" using e by simp
    then show ?thesis using Some by (simp add: finish_wait_handle_def upd_handle_def upd_chan_def fun_upd_idem)
  qed
qed

lemma finish_wait_commute:
  assumes "h \<noteq> g"
  shows "finish_wait_handle h (finish_wait_handle g w) = finish_wait_handle g (finish_wait_handle h w)"
proof (cases "chans w h"; cases "chans w g")
  fix c d assume "chans w h = Some c" "chans w g = Some d"
  then show ?thesis using assms by (simp add: finish_wait_handle_def upd_handle_def upd_chan_def fun_upd_twist)
next
  assume "chans w h = None" "chans w g = None"
  then show ?thesis using assms
    by (cases "ports w h"; cases "ports w g") (simp_all add: finish_wait_handle_def upd_handle_def upd_port_def fault_def fun_upd_twist)
qed (cases "ports w h"; cases "ports w g";
    use assms in \<open>simp add: finish_wait_handle_def upd_handle_def upd_chan_def upd_port_def fault_def\<close>)+

lemma hlist_finish_commute:
  "h \<notin> set hs \<Longrightarrow> hlist_finish_wait_locked hs l (finish_wait_handle h w) = finish_wait_handle h (hlist_finish_wait_locked hs l w)"
proof (induction hs arbitrary: w)
  case (Cons g gs)
  have "finish_wait_handle g (finish_wait_handle h w) = finish_wait_handle h (finish_wait_handle g w)"
    using Cons(2) finish_wait_commute [of g h w] by simp
  then show ?case using Cons by (simp add: Let_def)
qed simp

lemma handle_at_upd_other: "h \<noteq> g \<Longrightarrow> handle_at (upd_handle h f w) g = handle_at w g"
  by (auto simp: handle_at_def upd_handle_def upd_chan_def upd_port_def fault_def split: option.splits)

lemma waitable_upd_other:
  "h \<noteq> g \<Longrightarrow> waitable (upd_handle h (\<lambda>x. x\<lparr>wait_event := e\<rparr>) w) g = waitable w g"
  by (simp add: waitable_def handle_at_upd_other)

lemma waitable_upd_rest:
  assumes "g \<notin> set hs" "\<forall>h \<in> set hs. waitable w h"
  shows "\<forall>h \<in> set hs. waitable (upd_handle g (\<lambda>x. x\<lparr>wait_event := e\<rparr>) w) h"
proof
  fix h assume "h \<in> set hs"
  then have "g \<noteq> h" "waitable w h" using assms by auto
  then show "waitable (upd_handle g (\<lambda>x. x\<lparr>wait_event := e\<rparr>) w) h" by (simp add: waitable_upd_other)
qed

text \<open>A poll that prepares its handles stops at the first ready one and leaves no trace.\<close>

lemma poll_loop_first:
  assumes "\<forall>g \<in> set (xs @ h # ys). waitable w g" "distinct (xs @ h # ys)" "\<forall>g \<in> set xs. handle_poll w g = 0"
    "handle_poll w h \<noteq> 0"
  shows "\<exists>w'. hlist_poll_loop True ev (xs @ h # ys) lp r w = (1, Some (h, handle_poll w h), Some h, w') \<and>
    hlist_finish_wait_locked (xs @ h # ys) (Some h) w' = w"
  using assms
proof (induction xs arbitrary: w lp r)
  case Nil
  then have "prepare_wait_handle ev h w = (NO_ERROR, upd_handle h (\<lambda>x. x\<lparr>wait_event := Some ev\<rparr>) w)"
    by (auto simp: prepare_wait_handle_def waitable_def split: option.splits)
  then show ?case using Nil wait_undo [of w h ev] by (simp add: handle_poll_wait_event)
next
  case (Cons g xs)
  let ?w = "upd_handle g (\<lambda>x. x\<lparr>wait_event := Some ev\<rparr>) w"
  have p: "prepare_wait_handle ev g w = (NO_ERROR, ?w)"
    using Cons(2) by (auto simp: prepare_wait_handle_def waitable_def split: option.splits)
  have "\<forall>e \<in> set (xs @ h # ys). waitable ?w e" using waitable_upd_rest [of g "xs @ h # ys" w "Some ev"] Cons(2,3) by simp
  then obtain w' where w': "hlist_poll_loop True ev (xs @ h # ys) (Some g) 0 ?w = (1, Some (h, handle_poll ?w h), Some h, w')"
    "hlist_finish_wait_locked (xs @ h # ys) (Some h) w' = ?w"
    using Cons(1) [of ?w "Some g" 0] Cons(3-5) by (auto simp: handle_poll_wait_event)
  have "g \<noteq> h" "g \<notin> set (xs @ h # ys)" using Cons(3) by auto
  then have "hlist_finish_wait_locked ((g # xs) @ h # ys) (Some h) w' = w"
    using hlist_finish_commute [of g "xs @ h # ys" "Some h" w'] w'(2) wait_undo [of w g ev] Cons(2) by simp
  then show ?case using p w'(1) Cons(4) by (simp add: handle_poll_wait_event)
qed

lemma hl_move_head_eq:
  assumes "h \<notin> set xs"
  shows "hl_move_head h (xs @ h # ys) = ys @ xs @ [h]"
proof -
  have "takeWhile (\<lambda>x. x \<noteq> h) (xs @ h # ys) = xs" "dropWhile (\<lambda>x. x \<noteq> h) (xs @ h # ys) = h # ys"
    using assms by (induction xs) auto
  then show ?thesis by (simp add: hl_move_head_def)
qed

lemma handle_list_wait_ready:
  assumes hs: "hl_handles hl = xs @ h # ys" "hl_event hl = None" and w: "\<forall>g \<in> set (hl_handles hl). waitable w g"
    and d: "distinct (hl_handles hl)" and p: "\<forall>g \<in> set xs. handle_poll w g = 0" "handle_poll w h \<noteq> 0"
  shows "handle_list_wait hl ev wks w = Some (0, Some (h, handle_poll w h), \<lparr>hl_handles = ys @ xs @ [h], hl_event = None\<rparr>,
    event_reset ev (handle_incref h (handle_finalize_event h (handle_poll w h) (event_reset ev w))))"
proof -
  let ?w = "event_reset ev w"
  have "waitable ?w g = waitable w g" for g by (simp add: waitable_def)
  then obtain w' where w': "hlist_poll_loop True ev (xs @ h # ys) None 0 ?w = (1, Some (h, handle_poll w h), Some h, w')"
    "hlist_finish_wait_locked (xs @ h # ys) (Some h) w' = ?w"
    using poll_loop_first [of xs h ys ?w ev None 0] assms by auto
  then have "hlist_do_poll_locked (hl\<lparr>hl_event := Some ev\<rparr>) True 0 ?w = (1, Some (h, handle_poll w h), ?w)"
    using hs by (simp add: hlist_do_poll_locked_def)
  moreover have "hl_move_head h (xs @ h # ys) = ys @ xs @ [h]" using d hs by (intro hl_move_head_eq) simp
  ultimately show ?thesis using hs by (simp add: handle_list_wait_def kassert_def handle_list_found_def Let_def)
qed

text \<open>The handles that successive waits on the list report, each in the state of its time.\<close>

fun served :: "handle_list \<Rightarrow> (nat \<times> kst) list \<Rightarrow> addr list" where
  "served hl [] = []"
| "served hl ((ev, w) # cs) = (case handle_list_wait hl ev [] w of
     Some (_, Some (h, _), hl', _) \<Rightarrow> h # served hl' cs | _ \<Rightarrow> [])"

lemma first_ready:
  assumes "g \<in> set hs" "P g"
  obtains xs h ys where "hs = xs @ h # ys" "\<forall>x \<in> set xs. \<not> P x" "P h"
  using assms split_list_first_prop [of hs P] by blast

text \<open>A ready handle moves forward in the list by every wait that reports another one.\<close>

lemma served_within:
  assumes "hl_handles hl = as @ g # bs" "hl_event hl = None" "distinct (hl_handles hl)" "length as < length cs"
    "\<forall>(ev, w) \<in> set cs. handle_poll w g \<noteq> 0 \<and> (\<forall>h \<in> set (hl_handles hl). waitable w h)"
  shows "g \<in> set (served hl cs)"
  using assms
proof (induction cs arbitrary: hl as bs)
  case (Cons c cs)
  obtain ev w where c: "c = (ev, w)" by force
  obtain xs h ys where f: "hl_handles hl = xs @ h # ys" "\<forall>x \<in> set xs. handle_poll w x = 0" "handle_poll w h \<noteq> 0"
    using first_ready [of g "hl_handles hl" "\<lambda>h. handle_poll w h \<noteq> 0"] Cons(2,6) c by auto
  let ?hl = "\<lparr>hl_handles = ys @ xs @ [h], hl_event = None\<rparr>"
  have s: "served hl (c # cs) = h # served ?hl cs"
    using handle_list_wait_ready [OF f(1) Cons(3) _ Cons(4) f(2,3), of ev "[]"] Cons(6) c by simp
  show ?case
  proof (cases "h = g")
    case True
    then show ?thesis using s by simp
  next
    case False
    have "g \<notin> set xs" using f(2) Cons(6) c by auto
    then have "g \<in> set ys" using f(1) Cons(2) False by (metis Un_iff in_set_conv_decomp set_append set_ConsD)
    then obtain us vs where ys: "ys = us @ g # vs" by (meson split_list)
    have "(xs @ h # us) @ g # vs = as @ g # bs" "g \<notin> set (xs @ h # us)" "g \<notin> set vs" using f(1) Cons(2,4) ys by simp_all
    then have "as = xs @ h # us" using append_Cons_eq_iff [of g "xs @ h # us" vs as bs] by simp
    then have "g \<in> set (served ?hl cs)"
      using Cons(4-6) f(1) ys by (intro Cons(1) [of ?hl us "vs @ xs @ [h]"]) auto
    then show ?thesis using s by simp
  qed
qed simp

text \<open>C16: waiting on a list of handles starves none of them: a handle of the list that is ready all along
  is reported by one of the next waits, as many as the list has handles.\<close>

theorem handle_list_wait_fair:
  assumes "g \<in> set (hl_handles hl)" "hl_event hl = None" "distinct (hl_handles hl)" "length (hl_handles hl) \<le> length cs"
    "\<forall>(ev, w) \<in> set cs. handle_poll w g \<noteq> 0 \<and> (\<forall>h \<in> set (hl_handles hl). waitable w h)"
  shows "g \<in> set (served hl cs)"
proof -
  obtain as bs where "hl_handles hl = as @ g # bs" using assms(1) by (meson split_list)
  then show ?thesis using served_within [of hl as g bs cs] assms by auto
qed

theorem handle_list_wait_fair_witness:
  "3 \<in> set (served \<lparr>hl_handles = [1, 3], hl_event = None\<rparr> [(5, run_sent), (5, run_sent)])"
proof -
  have "handle_poll run_sent 3 \<noteq> 0 \<and> waitable run_sent 1 \<and> waitable run_sent 3" by code_simp
  then show ?thesis by (intro handle_list_wait_fair) auto
qed

section \<open>The uninitialised result of the second poll\<close>

lemma poll_loop_idle:
  "\<forall>h \<in> set hs. handle_poll w h = 0 \<Longrightarrow> hlist_poll_loop False ev hs lp r w = (r, None, lp, w)"
  by (induction hs) auto

lemma poll_loop_prepare:
  assumes "\<forall>g \<in> set hs. waitable w g" "distinct hs" "\<forall>g \<in> set hs. handle_poll w g = 0"
  shows "\<exists>w' l. hlist_poll_loop True ev hs lp 0 w = (0, None, l, w') \<and> handle_poll w' = handle_poll w"
  using assms
proof (induction hs arbitrary: w lp)
  case (Cons g hs)
  let ?w = "upd_handle g (\<lambda>x. x\<lparr>wait_event := Some ev\<rparr>) w"
  have "prepare_wait_handle ev g w = (NO_ERROR, ?w)"
    using Cons(2) by (auto simp: prepare_wait_handle_def waitable_def split: option.splits)
  moreover have "\<forall>e \<in> set hs. waitable ?w e" using waitable_upd_rest [of g hs w "Some ev"] Cons(2,3) by simp
  moreover have "handle_poll ?w = handle_poll w" by (rule ext) (rule handle_poll_wait_event)
  ultimately show ?case using Cons(1) [of ?w "Some g"] Cons(3,4) by simp
qed simp

text \<open>a spurious wake-up of a wait on a list returns the uninitialised variable of the poll: with no
  handle ready, whatever non-zero value \<open>r\<close> the stack slot held ends the wait without a handle,
  and the value 1 makes it follow the null handle.\<close>

theorem spurious_wakeup_returns_garbage:
  assumes "hl_handles hl \<noteq> []" "hl_event hl = None" "\<forall>g \<in> set (hl_handles hl). waitable w g" "distinct (hl_handles hl)"
    "\<forall>g \<in> set (hl_handles hl). handle_poll w g = 0" "r \<noteq> 0"
  shows "\<exists>hl' w'. handle_list_wait hl ev [\<lparr>wk_res = NO_ERROR, wk_others = id, wk_ret = r\<rparr>] w = Some (r, None, hl', w') \<and>
    (r = 1 \<longrightarrow> faulted w')"
proof -
  let ?w = "event_reset ev w" and ?hl = "hl\<lparr>hl_event := Some ev\<rparr>"
  have "waitable ?w g = waitable w g" for g by (simp add: waitable_def)
  then obtain w1 l where w1: "hlist_poll_loop True ev (hl_handles hl) None 0 ?w = (0, None, l, w1)" "handle_poll w1 = handle_poll w"
    using poll_loop_prepare [of "hl_handles hl" ?w ev None] assms(3-5) by auto
  then have "hlist_do_poll_locked ?hl True 0 ?w = (0, None, w1)" using assms(1) by (simp add: hlist_do_poll_locked_def)
  moreover have "hlist_poll_loop False ev (hl_handles hl) None r (event_reset ev w1) = (r, None, None, event_reset ev w1)"
    using assms(5) w1(2) by (intro poll_loop_idle) simp
  then have "hlist_do_poll_locked ?hl False r (event_reset ev w1) = (r, None, event_reset ev w1)"
    using assms(1) by (simp add: hlist_do_poll_locked_def)
  ultimately show ?thesis using assms(2,6)
    by (simp add: handle_list_wait_def kassert_def Let_def hl_do_wait_def handle_list_found_def fault_def)
qed

theorem spurious_wakeup_returns_garbage_witness:
  "\<exists>hl' w'. handle_list_wait \<lparr>hl_handles = [1], hl_event = None\<rparr> 5 [\<lparr>wk_res = NO_ERROR, wk_others = id, wk_ret = 1\<rparr>] run_published =
     Some (1, None, hl', w') \<and> faulted w'"
proof -
  have "handle_poll run_published 1 = 0 \<and> waitable run_published 1" by code_simp
  then show ?thesis
    using spurious_wakeup_returns_garbage [of "\<lparr>hl_handles = [1], hl_event = None\<rparr>" run_published 1 5] by auto
qed

end
