(* ===== verification/Uctx.thy ===== *)
theory Uctx
  imports Bitmap Handle_Wait Ipc_Frame
begin

text \<open>
  The user context of an application (\<^verbatim>\<open>lk/trusty/lib/trusty/uctx.c\<close>): the table of its handles,
  a bitmap of the slots in use and the list it waits on. The table holds two references on every
  handle it has, its own and that of the list. Slots are allocated by the bitmap of the
  theory before, whose contract carries the proofs.
\<close>

section \<open>The context and its operations\<close>

definition IPC_MAX_HANDLES :: nat where "IPC_MAX_HANDLES = 64"

definition INVALID_HANDLE_ID :: u32 where "INVALID_HANDLE_ID = 0xFFFFFFFF"

record uctx =
  uc_inuse :: "u32 list"
  uc_handles :: "addr option list"
  uc_priv :: nat
  uc_hlist :: handle_list

definition uctx_create :: "nat \<Rightarrow> kst \<Rightarrow> uctx res \<times> kst" where
  "uctx_create priv w =
     (let (ok, w1) = kalloc w in
      if \<not> ok then (Inl ERR_NO_MEMORY, w1)
      else (Inr \<lparr>uc_inuse = replicate (BITMAP_NUM_WORDS IPC_MAX_HANDLES) 0, uc_handles = replicate IPC_MAX_HANDLES None,
                 uc_priv = priv, uc_hlist = handle_list_init\<rparr>, w1))"

definition check_handle_id :: "uctx \<Rightarrow> u32 \<Rightarrow> kst \<Rightarrow> unit res \<times> kst" where
  "check_handle_id ctx handle_id w =
     (if unat handle_id \<ge> IPC_MAX_HANDLES then (Inl ERR_BAD_HANDLE, w)
      else if \<not> bitmap_test (uc_inuse ctx) (unat handle_id) then (Inl ERR_NOT_FOUND, w)
      else (NO_ERROR, kassert (uc_handles ctx ! unat handle_id \<noteq> None) w))"

definition handle_to_id_locked :: "uctx \<Rightarrow> addr option \<Rightarrow> u32" where
  "handle_to_id_locked ctx handle =
     (case find (\<lambda>i. uc_handles ctx ! i = handle) [0..<IPC_MAX_HANDLES] of
        Some i \<Rightarrow> word_of_nat i
      | None \<Rightarrow> INVALID_HANDLE_ID)"

text \<open>The loop of \<^verbatim>\<open>uctx_destroy\<close> over the table; the context is freed at its end.\<close>

fun uctx_destroy_loop :: "addr option list \<Rightarrow> handle_list \<Rightarrow> kst \<Rightarrow> kst" where
  "uctx_destroy_loop [] hl w = w"
| "uctx_destroy_loop (None # hs) hl w = uctx_destroy_loop hs hl w"
| "uctx_destroy_loop (Some h # hs) hl w =
     (let (hl1, w1) = handle_list_del hl h w in uctx_destroy_loop hs hl1 (handle_close h w1))"

definition uctx_destroy :: "uctx \<Rightarrow> kst \<Rightarrow> kst" where
  "uctx_destroy ctx w = uctx_destroy_loop (uc_handles ctx) (uc_hlist ctx) w"

definition uctx_handle_install :: "uctx \<Rightarrow> addr \<Rightarrow> kst \<Rightarrow> u32 res \<times> uctx \<times> kst" where
  "uctx_handle_install ctx h w = (case bitmap_ffz (uc_inuse ctx) IPC_MAX_HANDLES of
     None \<Rightarrow> (Inl ERR_NO_RESOURCES, ctx, w)
   | Some new_id \<Rightarrow>
       (let w1 = kassert (uc_handles ctx ! new_id = None) w;
            (hl, w2) = handle_list_add (uc_hlist ctx) h w1
        in (Inr (word_of_nat new_id),
            ctx\<lparr>uc_inuse := fst (bitmap_set (uc_inuse ctx) new_id), uc_handles := (uc_handles ctx)[new_id := Some h], uc_hlist := hl\<rparr>,
            w2)))"

definition uctx_handle_get :: "uctx \<Rightarrow> u32 \<Rightarrow> kst \<Rightarrow> addr res \<times> kst" where
  "uctx_handle_get ctx handle_id w = (case check_handle_id ctx handle_id w of
     (Inl e, w1) \<Rightarrow> (Inl e, w1)
   | (Inr _, w1) \<Rightarrow>
       (case uc_handles ctx ! unat handle_id of
          None \<Rightarrow> (Inl ERR_FAULT, fault w1)
        | Some h \<Rightarrow> (Inr h, handle_incref h w1)))"

definition uctx_handle_remove :: "uctx \<Rightarrow> u32 \<Rightarrow> kst \<Rightarrow> addr res \<times> uctx \<times> kst" where
  "uctx_handle_remove ctx handle_id w = (case check_handle_id ctx handle_id w of
     (Inl e, w1) \<Rightarrow> (Inl e, ctx, w1)
   | (Inr _, w1) \<Rightarrow>
       (case uc_handles ctx ! unat handle_id of
          None \<Rightarrow> (Inl ERR_FAULT, ctx, fault w1)
        | Some h \<Rightarrow>
            (let (hl, w2) = handle_list_del (uc_hlist ctx) h w1
             in (Inr h,
                 ctx\<lparr>uc_inuse := fst (bitmap_clear (uc_inuse ctx) (unat handle_id)),
                     uc_handles := (uc_handles ctx)[unat handle_id := None], uc_hlist := hl\<rparr>,
                 w2))))"

text \<open>Out of range, the debugging accessor panics.\<close>

definition mt_uctx_get_inuse :: "uctx \<Rightarrow> nat \<Rightarrow> u32 option" where
  "mt_uctx_get_inuse ctx slot = (if slot < BITMAP_NUM_WORDS IPC_MAX_HANDLES then Some (uc_inuse ctx ! slot) else None)"

section \<open>The invariant\<close>

fun somes :: "'a option list \<Rightarrow> 'a list" where
  "somes [] = []"
| "somes (None # xs) = somes xs"
| "somes (Some x # xs) = x # somes xs"

abbreviation installed :: "uctx \<Rightarrow> addr list" where
  "installed ctx \<equiv> somes (uc_handles ctx)"

definition uctx_wf :: "uctx \<Rightarrow> addr set \<Rightarrow> bool" where
  "uctx_wf ctx L \<longleftrightarrow>
     length (uc_inuse ctx) = BITMAP_NUM_WORDS IPC_MAX_HANDLES \<and> length (uc_handles ctx) = IPC_MAX_HANDLES \<and>
     (\<forall>i < IPC_MAX_HANDLES. bitmap_test (uc_inuse ctx) i \<longleftrightarrow> uc_handles ctx ! i \<noteq> None) \<and>
     distinct (installed ctx) \<and> mset (hl_handles (uc_hlist ctx)) = mset (installed ctx) \<and>
     hl_event (uc_hlist ctx) = None \<and> set (installed ctx) \<subseteq> L"

text \<open>The references of the context.\<close>

definition urefs :: "uctx \<Rightarrow> addr multiset" where
  "urefs ctx = mset (installed ctx) + mset (installed ctx)"

definition utab :: "uctx \<Rightarrow> u32 \<Rightarrow> addr option" where
  "utab ctx i = (if unat i < IPC_MAX_HANDLES then uc_handles ctx ! unat i else None)"

lemma set_somes: "x \<in> set (somes xs) \<longleftrightarrow> (\<exists>i < length xs. xs ! i = Some x)"
proof (induction xs rule: somes.induct)
  case (2 xs)
  then show ?case by (auto simp: less_Suc_eq_0_disj)
next
  case (3 y xs)
  then show ?case by (auto simp: less_Suc_eq_0_disj)
qed simp

lemma mset_somes_set: "i < length xs \<Longrightarrow> xs ! i = None \<Longrightarrow> mset (somes (xs[i := Some x])) = add_mset x (mset (somes xs))"
proof (induction xs arbitrary: i rule: somes.induct)
  case (2 xs)
  then show ?case by (cases i) auto
next
  case (3 y xs)
  then show ?case by (cases i) auto
qed simp

lemma mset_somes_clear: "i < length xs \<Longrightarrow> xs ! i = Some x \<Longrightarrow> mset (somes xs) = add_mset x (mset (somes (xs[i := None])))"
proof (induction xs arbitrary: i rule: somes.induct)
  case (2 xs)
  then show ?case by (cases i) auto
next
  case (3 y xs)
  then show ?case by (cases i) auto
qed simp

lemma uctx_wf_mono: "uctx_wf ctx L \<Longrightarrow> set (installed ctx) \<subseteq> L' \<Longrightarrow> uctx_wf ctx L'"
  by (simp add: uctx_wf_def)

lemma utab_installed: "uctx_wf ctx L \<Longrightarrow> utab ctx i = Some h \<Longrightarrow> h \<in> set (installed ctx)"
  by (auto simp: utab_def uctx_wf_def set_somes split: if_splits)

section \<open>What the operations do\<close>

lemma hlinked_list_add [simp]: "hlinked (snd (handle_list_add hl h w)) = insert h (hlinked w)"
  by (simp add: handle_list_add_def Let_def prepare_wait_handle_def links.Q_fault [OF refl] split: option.split)

lemma hlinked_list_del [simp]: "hlinked (snd (handle_list_del_locked hl h w)) = hlinked w - {h}"
  by (simp add: handle_list_del_locked_def Let_def finish_wait_handle_def event_signal_def split: option.split)

lemma list_add_fst: "hl_event hl = None \<Longrightarrow> fst (handle_list_add hl h w) = hl\<lparr>hl_handles := hl_handles hl @ [h]\<rparr>"
  by (simp add: handle_list_add_def Let_def)

lemma list_del_fst: "fst (handle_list_del_locked hl h w) = hl\<lparr>hl_handles := remove1 h (hl_handles hl)\<rparr>"
  by (simp add: handle_list_del_locked_def Let_def)

lemma uctx_create_wf:
  assumes "uctx_create priv w = (Inr ctx, w')"
  shows "uctx_wf ctx L" "urefs ctx = {#}" "\<exists>A. w' = w\<lparr>allocs := A\<rparr>"
proof -
  have s: "somes (replicate n None) = []" for n by (induction n) auto
  have t: "bitmap_test (replicate n 0) i = False" if "i div 32 < n" for n i using that by (simp add: bitmap_test_def)
  show "uctx_wf ctx L" "urefs ctx = {#}" using assms
    by (auto simp: uctx_create_def uctx_wf_def urefs_def handle_list_init_def s t slot_div_bound split: prod.splits if_splits)
  show "\<exists>A. w' = w\<lparr>allocs := A\<rparr>" using assms
    by (auto simp: uctx_create_def kalloc_def split: prod.splits if_splits list.splits) (metis kst.surjective kst.update_convs(6))
qed

lemma check_handle_id_eq:
  assumes "uctx_wf ctx L"
  shows "check_handle_id ctx i w =
    (if unat i \<ge> IPC_MAX_HANDLES then Inl ERR_BAD_HANDLE else if utab ctx i = None then Inl ERR_NOT_FOUND else NO_ERROR, w)"
  using assms by (auto simp: check_handle_id_def uctx_wf_def utab_def kassert_def)

text \<open>A lookup is the abstract table's, and takes a reference.\<close>

lemma uctx_handle_get_eq:
  assumes "uctx_wf ctx L"
  shows "uctx_handle_get ctx i w = (case utab ctx i of
      Some h \<Rightarrow> (Inr h, handle_incref h w)
    | None \<Rightarrow> (Inl (if unat i \<ge> IPC_MAX_HANDLES then ERR_BAD_HANDLE else ERR_NOT_FOUND), w))"
  unfolding uctx_handle_get_def check_handle_id_eq [OF assms]
  by (auto simp: utab_def split: option.split)

lemma handles_room: "uctx_wf ctx L \<Longrightarrow> bitmap_ffz (uc_inuse ctx) IPC_MAX_HANDLES = Some i \<Longrightarrow>
    i < IPC_MAX_HANDLES \<and> uc_handles ctx ! i = None \<and> (\<forall>j < i. uc_handles ctx ! j \<noteq> None)"
  using bits.first_free_Some [where numbits = IPC_MAX_HANDLES, of "uc_inuse ctx" i] by (auto simp: uctx_wf_def)

text \<open>Installing takes the lowest free slot.\<close>

lemma uctx_install_cases:
  assumes wf: "uctx_wf ctx (hlinked w)" and h: "h \<notin> hlinked w"
    and e: "uctx_handle_install ctx h w = (r, ctx', w')"
  obtains (full) "r = Inl ERR_NO_RESOURCES" "ctx' = ctx" "w' = w" "\<And>i. unat i < IPC_MAX_HANDLES \<Longrightarrow> utab ctx i \<noteq> None"
  | (ok) i where "r = Inr i" "unat i < IPC_MAX_HANDLES" "utab ctx i = None" "\<And>j. j < i \<Longrightarrow> utab ctx j \<noteq> None"
      "utab ctx' = (utab ctx)(i \<mapsto> h)" "w' = snd (handle_list_add (uc_hlist ctx) h w)"
      "uctx_wf ctx' (insert h (hlinked w))" "urefs ctx' = add_mset h (add_mset h (urefs ctx))"
proof (cases "bitmap_ffz (uc_inuse ctx) IPC_MAX_HANDLES")
  case None
  have l: "length (uc_inuse ctx) = BITMAP_NUM_WORDS IPC_MAX_HANDLES" using wf by (simp add: uctx_wf_def)
  have "utab ctx i \<noteq> None" if "unat i < IPC_MAX_HANDLES" for i
    using bits.first_free_None [OF l None that] wf that by (simp add: uctx_wf_def utab_def)
  then show ?thesis using full e None by (simp add: uctx_handle_install_def)
next
  case (Some n)
  note r = handles_room [OF wf Some]
  let ?i = "word_of_nat n :: u32"
  have u: "unat ?i = n" using r by (simp add: IPC_MAX_HANDLES_def unat_of_nat)
  have len: "length (uc_inuse ctx) = BITMAP_NUM_WORDS IPC_MAX_HANDLES" "length (uc_handles ctx) = IPC_MAX_HANDLES"
    "hl_event (uc_hlist ctx) = None" using wf by (simp_all add: uctx_wf_def)
  have c: "ctx' = ctx\<lparr>uc_inuse := fst (bitmap_set (uc_inuse ctx) n), uc_handles := (uc_handles ctx)[n := Some h],
      uc_hlist := (uc_hlist ctx)\<lparr>hl_handles := hl_handles (uc_hlist ctx) @ [h]\<rparr>\<rparr>"
    "r = Inr ?i" "w' = snd (handle_list_add (uc_hlist ctx) h w)"
    using e Some r list_add_fst [OF len(3), of h w] by (auto simp: uctx_handle_install_def kassert_def split_beta)
  have m: "mset (installed ctx') = add_mset h (mset (installed ctx))" using mset_somes_set [of n "uc_handles ctx" h] r len(2) c(1) by simp
  have "h \<notin> set (installed ctx)" using wf h by (auto simp: uctx_wf_def)
  then have "distinct (installed ctx')"
    using mset_eq_imp_distinct_iff [of "installed ctx'" "h # installed ctx"] m wf by (simp add: uctx_wf_def)
  moreover have "set (installed ctx') = insert h (set (installed ctx))" using arg_cong [OF m, of set_mset] by simp
  moreover have "bitmap_test (uc_inuse ctx') j \<longleftrightarrow> uc_handles ctx' ! j \<noteq> None" if "j < IPC_MAX_HANDLES" for j
    using bits.test_mark [OF len(1), of n j] r that wf len(2) c(1) by (auto simp: uctx_wf_def nth_list_update)
  ultimately have "uctx_wf ctx' (insert h (hlinked w))" using wf m len c(1) by (auto simp: uctx_wf_def)
  moreover have "utab ctx' = (utab ctx)(?i \<mapsto> h)"
    using c(1) r u len(2) by (auto simp: utab_def nth_list_update fun_eq_iff)
  moreover have "utab ctx j \<noteq> None" if "j < ?i" for j
  proof -
    have "unat j < n" using that u by (simp add: word_less_nat_alt)
    then show ?thesis using r by (simp add: utab_def)
  qed
  ultimately show ?thesis using ok [of ?i] c(2,3) r u m by (auto simp: utab_def urefs_def)
qed

lemma uctx_remove_cases:
  assumes wf: "uctx_wf ctx (hlinked w)" and e: "uctx_handle_remove ctx i w = (r, ctx', w')"
  obtains (bad) err where "r = Inl err" "ctx' = ctx" "w' = w" "utab ctx i = None"
  | (ok) h where "utab ctx i = Some h" "r = Inr h" "utab ctx' = (utab ctx)(i := None)" "h \<in> hlinked w"
      "w' = snd (handle_list_del_locked (uc_hlist ctx) h w)"
      "uctx_wf ctx' (hlinked w - {h})" "urefs ctx = add_mset h (add_mset h (urefs ctx'))"
proof (cases "utab ctx i")
  case None
  then show ?thesis using bad e check_handle_id_eq [OF wf] by (auto simp: uctx_handle_remove_def split: if_splits)
next
  case (Some h)
  define n where "n = unat i"
  have n: "n < IPC_MAX_HANDLES" "uc_handles ctx ! n = Some h" using Some by (auto simp: utab_def n_def split: if_splits)
  have len: "length (uc_inuse ctx) = BITMAP_NUM_WORDS IPC_MAX_HANDLES" "length (uc_handles ctx) = IPC_MAX_HANDLES"
    using wf by (simp_all add: uctx_wf_def)
  have c: "ctx' = ctx\<lparr>uc_inuse := fst (bitmap_clear (uc_inuse ctx) n), uc_handles := (uc_handles ctx)[n := None],
      uc_hlist := (uc_hlist ctx)\<lparr>hl_handles := remove1 h (hl_handles (uc_hlist ctx))\<rparr>\<rparr>"
    "r = Inr h" "w' = snd (handle_list_del_locked (uc_hlist ctx) h w)"
    using e n check_handle_id_eq [OF wf, of i w] list_del_fst [of "uc_hlist ctx" h w] Some
    by (auto simp: uctx_handle_remove_def handle_list_del_def split_beta n_def split: if_splits)
  have m: "mset (installed ctx) = add_mset h (mset (installed ctx'))" using mset_somes_clear [of n "uc_handles ctx" h] n len(2) c(1) by simp
  have d: "distinct (h # installed ctx')" using mset_eq_imp_distinct_iff [of "installed ctx" "h # installed ctx'"] m wf by (simp add: uctx_wf_def)
  have st: "set (installed ctx) = insert h (set (installed ctx'))" using arg_cong [OF m, of set_mset] by simp
  have "bitmap_test (uc_inuse ctx') j \<longleftrightarrow> uc_handles ctx' ! j \<noteq> None" if "j < IPC_MAX_HANDLES" for j
    using bits.test_clear [OF len(1), of n j] n that wf len(2) c(1) by (auto simp: uctx_wf_def nth_list_update)
  then have "uctx_wf ctx' (hlinked w - {h})" using wf m len c(1) d st by (auto simp: uctx_wf_def)
  moreover have "utab ctx' = (utab ctx)(i := None)"
    using c(1) n len(2) by (auto simp: utab_def nth_list_update fun_eq_iff n_def word_unat_eq_iff)
  moreover have "h \<in> hlinked w" using wf st by (auto simp: uctx_wf_def)
  ultimately show ?thesis using ok [of h] c(2,3) Some m by (auto simp: urefs_def)
qed

section \<open>References\<close>

text \<open>
  \<open>P\<close> stands for the references of everyone else. A context operation moves references between
  its caller and the table.
\<close>

lemma uctx_install_reach:
  assumes "uctx_wf ctx (hlinked w)" "h \<notin> hlinked w" "kreach w (add_mset h (urefs ctx + P))"
    "uctx_handle_install ctx h w = (r, ctx', w')"
  shows "uctx_wf ctx' (hlinked w')"
    "case r of Inl _ \<Rightarrow> ctx' = ctx \<and> w' = w | Inr _ \<Rightarrow> kreach w' (urefs ctx' + P) \<and> hlinked w' = insert h (hlinked w)"
  using uctx_install_cases [OF assms(1,2,4)] assms(1,2,3)
  by (atomize (full), cases rule: uctx_install_cases [OF assms(1,2,4)]) (auto intro: handle_list_add_reach)

lemma uctx_get_reach:
  assumes "uctx_wf ctx L" "kreach w (urefs ctx + P)" "uctx_handle_get ctx i w = (Inr h, w')"
  shows "kreach w' (add_mset h (urefs ctx + P))" "utab ctx i = Some h" "hlinked w' = hlinked w" "h \<in># urefs ctx"
proof -
  have h: "utab ctx i = Some h" "w' = handle_incref h w"
    using assms(3) uctx_handle_get_eq [OF assms(1), of i w] by (auto split: option.splits)
  then have "h \<in># urefs ctx" using utab_installed [OF assms(1) h(1)] by (simp add: urefs_def)
  then show "kreach w' (add_mset h (urefs ctx + P))" "utab ctx i = Some h" "hlinked w' = hlinked w" "h \<in># urefs ctx"
    using h assms(2) by (auto intro: incref_reach)
qed

lemma uctx_remove_reach:
  assumes "uctx_wf ctx (hlinked w)" "kreach w (urefs ctx + P)" "uctx_handle_remove ctx i w = (r, ctx', w')"
  shows "uctx_wf ctx' (hlinked w')"
    "case r of Inl _ \<Rightarrow> ctx' = ctx \<and> w' = w | Inr h \<Rightarrow> kreach w' (add_mset h (urefs ctx' + P)) \<and> utab ctx i = Some h \<and> hlinked w' = hlinked w - {h}"
  using uctx_remove_cases [OF assms(1,3)] assms(1,2)
  by (atomize (full), cases rule: uctx_remove_cases [OF assms(1,3)]) (auto intro: handle_list_del_reach)

text \<open>The end of an application: everything its context held is released.\<close>

lemma uctx_destroy_loop_reach:
  assumes "kreach w (mset (somes hs) + mset (somes hs) + P)" "set (somes hs) \<subseteq> hlinked w" "distinct (somes hs)"
  shows "kreach (uctx_destroy_loop hs hl w) P"
  using assms
proof (induction hs hl w arbitrary: P rule: uctx_destroy_loop.induct)
  case (3 h hs hl w)
  obtain hl1 w1 where d: "handle_list_del hl h w = (hl1, w1)" by force
  then have w1: "w1 = snd (handle_list_del_locked hl h w)" by (simp add: handle_list_del_def)
  have "kreach w (add_mset h (add_mset h (mset (somes hs) + mset (somes hs) + P)))" using 3(2) by simp
  then have "kreach (handle_close h w1) (mset (somes hs) + mset (somes hs) + P)"
    unfolding w1 using 3(3) by (intro close_reach handle_list_del_reach) auto
  then have "kreach (uctx_destroy_loop hs hl1 (handle_close h w1)) P"
    using 3(3,4) d w1 by (intro 3(1) [OF d [symmetric] refl]) auto
  then show ?case using d by simp
qed auto

lemma uctx_destroy_reach:
  assumes "uctx_wf ctx (hlinked w)" "kreach w (urefs ctx + P)"
  shows "kreach (uctx_destroy ctx w) P"
  unfolding uctx_destroy_def using assms by (intro uctx_destroy_loop_reach) (auto simp: uctx_wf_def urefs_def)

text \<open>C17: the handle table is a map from identifiers to handles: installing gives a handle the lowest free
  identifier, or fails without effect when all 64 are taken; from then on the identifier stands
  for the handle, and removing it gives the handle back and restores the table.\<close>

theorem install_remove_roundtrip:
  assumes "uctx_wf ctx (hlinked w)" "h \<notin> hlinked w" "uctx_handle_install ctx h w = (r, ctx1, w1)"
  shows "case r of
      Inl e \<Rightarrow> e = ERR_NO_RESOURCES \<and> ctx1 = ctx \<and> w1 = w \<and> (\<forall>i. unat i < IPC_MAX_HANDLES \<longrightarrow> utab ctx i \<noteq> None)
    | Inr i \<Rightarrow> utab ctx i = None \<and> (\<forall>j < i. utab ctx j \<noteq> None) \<and> fst (uctx_handle_get ctx1 i w1) = Inr h \<and>
        (\<exists>ctx2 w2. uctx_handle_remove ctx1 i w1 = (Inr h, ctx2, w2) \<and> utab ctx2 = utab ctx \<and> hlinked w2 = hlinked w)"
  using assms(1,2,3)
proof (cases rule: uctx_install_cases)
  case (ok i)
  have wf: "uctx_wf ctx1 (hlinked w1)" using ok by simp
  have g: "fst (uctx_handle_get ctx1 i w1) = Inr h" using uctx_handle_get_eq [OF wf] ok by simp
  obtain r2 ctx2 w2 where e: "uctx_handle_remove ctx1 i w1 = (r2, ctx2, w2)" by (cases "uctx_handle_remove ctx1 i w1") auto
  from wf e have "r2 = Inr h \<and> utab ctx2 = utab ctx \<and> hlinked w2 = hlinked w"
    by (cases rule: uctx_remove_cases) (use ok assms(2) in \<open>auto simp: fun_upd_idem\<close>)
  then show ?thesis using ok e g by auto
qed simp

definition demo_ctx :: uctx where
  "demo_ctx = \<lparr>uc_inuse = [0, 0], uc_handles = replicate 64 None, uc_priv = 0, uc_hlist = handle_list_init\<rparr>"

lemma demo_ctx_create: "uctx_create 0 init_kst = (Inr demo_ctx, init_kst)"
  by (simp add: uctx_create_def kalloc_def init_kst_def demo_ctx_def IPC_MAX_HANDLES_def BITMAP_NUM_WORDS_def numeral_2_eq_2)

theorem install_remove_roundtrip_witness:
  "let (r, ctx1, w1) = uctx_handle_install demo_ctx 1 run_created; (r2, ctx2, w2) = uctx_handle_remove ctx1 0 w1
   in r = Inr 0 \<and> r2 = Inr 1 \<and> utab ctx2 = utab demo_ctx"
proof -
  have wf: "uctx_wf demo_ctx (hlinked run_created)" using demo_ctx_create by (rule uctx_create_wf)
  have f: "1 \<notin> hlinked run_created" by code_simp
  obtain r ctx1 w1 where e: "uctx_handle_install demo_ctx 1 run_created = (r, ctx1, w1)" by (metis prod_cases3)
  have "fst (uctx_handle_install demo_ctx 1 run_created) = Inr 0" by code_simp
  then have "r = Inr 0" using e by simp
  then show ?thesis using install_remove_roundtrip [OF wf f e] e by auto
qed

section \<open>The system calls of \<^verbatim>\<open>uctx.c\<close>\<close>

definition uevent_bytes :: "u32 \<Rightarrow> u32 \<Rightarrow> u32 \<Rightarrow> u8 list" where
  "uevent_bytes handle event cookie = enc32 handle @ enc32 event @ enc32 cookie"

definition sys_wait ::
    "uctx \<Rightarrow> umem \<Rightarrow> u32 \<Rightarrow> u32 \<Rightarrow> nat \<Rightarrow> kst wake list \<Rightarrow> kst \<Rightarrow> (unit res \<times> umem \<times> kst) option" where
  "sys_wait ctx um handle_id user_event ev wks w = (case uctx_handle_get ctx handle_id w of
     (Inl e, w1) \<Rightarrow> Some (Inl e, um, w1)
   | (Inr h, w1) \<Rightarrow>
       (case handle_wait (Some h) ev wks w1 of
          None \<Rightarrow> None
        | Some (Inl e, w2) \<Rightarrow> Some (Inl e, um, handle_decref h w2)
        | Some (Inr event, w2) \<Rightarrow>
            (let (um1, status) = copy_to_user um user_event
                   (uevent_bytes handle_id event (word_of_nat (handle_get_cookie w2 h)))
             in Some (status, um1, handle_decref h w2))))"

text \<open>\<^verbatim>\<open>sys_wait_any\<close> returns the number it got from the list, also one that is not an error code.\<close>

definition sys_wait_any ::
    "uctx \<Rightarrow> umem \<Rightarrow> u32 \<Rightarrow> nat \<Rightarrow> (handle_list \<times> kst) wake list \<Rightarrow> kst \<Rightarrow> (int \<times> uctx \<times> umem \<times> kst) option" where
  "sys_wait_any ctx um user_event ev wks w = (case handle_list_wait (uc_hlist ctx) ev wks w of
     None \<Rightarrow> None
   | Some (ret, found, hl, w1) \<Rightarrow>
       (let ctx1 = ctx\<lparr>uc_hlist := hl\<rparr> in
        if ret < 0 then Some (ret, ctx1, um, w1)
        else (case found of
          None \<Rightarrow> Some (ret, ctx1, um, fault w1)
        | Some (h, event) \<Rightarrow>
            (let id = handle_to_id_locked ctx1 (Some h);
                 cookie = word_of_nat (handle_get_cookie w1 h);
                 w2 = handle_decref h w1;
                 w3 = kassert (unat id < IPC_MAX_HANDLES) w2;
                 (um1, status) = copy_to_user um user_event (uevent_bytes id event cookie)
             in Some (case status of Inl e \<Rightarrow> err_code e | Inr _ \<Rightarrow> ret, ctx1, um1, w3)))))"

definition sys_close :: "uctx \<Rightarrow> u32 \<Rightarrow> kst \<Rightarrow> unit res \<times> uctx \<times> kst" where
  "sys_close ctx handle_id w = (case uctx_handle_remove ctx handle_id w of
     (Inl e, ctx1, w1) \<Rightarrow> (Inl e, ctx1, w1)
   | (Inr h, ctx1, w1) \<Rightarrow> (NO_ERROR, ctx1, handle_close h w1))"

definition sys_set_cookie :: "uctx \<Rightarrow> u32 \<Rightarrow> u32 \<Rightarrow> kst \<Rightarrow> unit res \<times> kst" where
  "sys_set_cookie ctx handle_id cookie w = (case uctx_handle_get ctx handle_id w of
     (Inl e, w1) \<Rightarrow> (Inl e, w1)
   | (Inr h, w1) \<Rightarrow> (NO_ERROR, handle_decref h (handle_set_cookie h (unat cookie) w1)))"

end
