(* ===== verification/Ipc_Syscall.thy ===== *)
theory Ipc_Syscall
  imports Uctx
begin

text \<open>
  The IPC system calls of an application (\<^verbatim>\<open>ipc.c\<close>, \<^verbatim>\<open>ipc_msg.c\<close>, \<^verbatim>\<open>uctx.c\<close>): the user's arguments are
  copied in, the handle table is consulted, the operation runs, the results are copied out. Any
  sequence of calls with any arguments, interleaved with what everyone else does, keeps the
  kernel in a reachable state and the application's references exactly those of its table.
\<close>

section \<open>Ports\<close>

definition sys_port_create ::
    "uuid_ptr \<Rightarrow> uctx \<Rightarrow> umem \<Rightarrow> u32 \<Rightarrow> u32 \<Rightarrow> u32 \<Rightarrow> u32 \<Rightarrow> kst \<Rightarrow> u32 res \<times> uctx \<times> kst" where
  "sys_port_create uuid ctx um path num_recv_bufs recv_buf_size flags w =
     (case strlcpy_from_user um path IPC_PORT_PATH_MAX of
        Inl e \<Rightarrow> (Inl e, ctx, w)
      | Inr (tmp_path, ret) \<Rightarrow>
          if ret \<ge> IPC_PORT_PATH_MAX then (Inl ERR_INVALID_ARGS, ctx, w)
          else (case ipc_port_create (Some uuid) tmp_path (unat num_recv_bufs) (unat recv_buf_size) flags w of
            (Inl e, w1) \<Rightarrow> (Inl e, ctx, w1)
          | (Inr p, w1) \<Rightarrow>
              (case uctx_handle_install ctx p w1 of
                 (Inl e, ctx2, w2) \<Rightarrow> (Inl e, ctx2, handle_decref p w2)
               | (Inr handle_id, ctx2, w2) \<Rightarrow>
                   (case ipc_port_publish p w2 of
                      (Inr _, w3) \<Rightarrow> (Inr handle_id, ctx2, w3)
                    | (Inl e, w3) \<Rightarrow>
                        (case uctx_handle_remove ctx2 handle_id w3 of
                           (_, ctx4, w4) \<Rightarrow> (Inl e, ctx4, handle_decref p w4))))))"

text \<open>
  The part of \<^verbatim>\<open>sys_connect\<close> that waits for the connection; on a timeout it waits again, without
  limit. \<open>wks\<close> and \<open>wks'\<close> are the wake-ups of the two waits.
\<close>

definition connect_wait ::
    "addr \<Rightarrow> nat \<Rightarrow> kst wake list \<Rightarrow> kst wake list \<Rightarrow> kst \<Rightarrow> (unit res \<times> kst) option" where
  "connect_wait c ev wks wks' w =
     (case (case handle_wait (Some c) ev wks w of
              Some (Inl ERR_TIMED_OUT, w1) \<Rightarrow> handle_wait (Some c) ev wks' w1
            | r \<Rightarrow> r) of
        None \<Rightarrow> None
      | Some (Inl e, w2) \<Rightarrow> Some (Inl e, handle_close c w2)
      | Some (Inr event, w2) \<Rightarrow>
          if event AND IPC_HANDLE_POLL_HUP \<noteq> 0 \<and> event AND IPC_HANDLE_POLL_MSG = 0
          then Some (Inl ERR_CHANNEL_CLOSED, handle_close c w2)
          else if event AND IPC_HANDLE_POLL_READY = 0
          then Some (Inl ERR_NOT_READY, handle_close c w2)
          else Some (NO_ERROR, w2))"

definition sys_connect ::
    "uuid_ptr \<Rightarrow> uctx \<Rightarrow> umem \<Rightarrow> u32 \<Rightarrow> u32 \<Rightarrow> nat \<Rightarrow> kst wake list \<Rightarrow> kst wake list \<Rightarrow> kst \<Rightarrow> (u32 res \<times> uctx \<times> kst) option" where
  "sys_connect uuid ctx um path flags ev wks wks' w =
     (if flags AND NOT IPC_CONNECT_MASK \<noteq> 0 then Some (Inl ERR_INVALID_ARGS, ctx, w)
      else (case strlcpy_from_user um path IPC_PORT_PATH_MAX of
        Inl e \<Rightarrow> Some (Inl e, ctx, w)
      | Inr (tmp_path, ret) \<Rightarrow>
          if ret \<ge> IPC_PORT_PATH_MAX then Some (Inl ERR_INVALID_ARGS, ctx, w)
          else (case ipc_port_connect_async (Some uuid) tmp_path IPC_PORT_PATH_MAX flags w of
            (Inl e, w1) \<Rightarrow> Some (Inl e, ctx, w1)
          | (Inr c, w1) \<Rightarrow>
              (case (if flags AND IPC_CONNECT_ASYNC = 0 then connect_wait c ev wks wks' w1 else Some (NO_ERROR, w1)) of
                 None \<Rightarrow> None
               | Some (Inl e, w2) \<Rightarrow> Some (Inl e, ctx, w2)
               | Some (Inr _, w2) \<Rightarrow>
                   (case uctx_handle_install ctx c w2 of
                      (Inl e, ctx3, w3) \<Rightarrow> Some (Inl e, ctx3, handle_close c w3)
                    | (Inr handle_id, ctx3, w3) \<Rightarrow> Some (Inr handle_id, ctx3, w3))))))"

definition uuid_bytes :: "uuid_ptr \<Rightarrow> u8 list" where
  "uuid_bytes u = (case u of ZERO_UUID \<Rightarrow> replicate 16 0 | APP_UUID bs \<Rightarrow> bs)"

definition sys_accept :: "uctx \<Rightarrow> umem \<Rightarrow> u32 \<Rightarrow> u32 \<Rightarrow> kst \<Rightarrow> u32 res \<times> uctx \<times> umem \<times> kst" where
  "sys_accept ctx um handle_id user_uuid w = (case uctx_handle_get ctx handle_id w of
     (Inl e, w1) \<Rightarrow> (Inl e, ctx, um, w1)
   | (Inr p, w1) \<Rightarrow>
       (case ipc_port_accept (Some p) w1 of
          (Inl e, w2) \<Rightarrow> (Inl e, ctx, um, handle_decref p w2)
        | (Inr (s, peer_uuid), w2) \<Rightarrow>
            (case uctx_handle_install ctx s w2 of
               (Inl e, ctx3, w3) \<Rightarrow> (Inl e, ctx3, um, handle_decref p (handle_close s w3))
             | (Inr new_id, ctx3, w3) \<Rightarrow>
                 (case copy_to_user um user_uuid (uuid_bytes peer_uuid) of
                    (um1, Inr _) \<Rightarrow> (Inr new_id, ctx3, um1, handle_decref p w3)
                  | (um1, Inl e) \<Rightarrow>
                      (case uctx_handle_remove ctx3 new_id w3 of
                         (_, ctx4, w4) \<Rightarrow> (Inl e, ctx4, um1, handle_decref p (handle_close s w4)))))))"

section \<open>Messages\<close>

definition ipc_msg_user_sz :: nat where "ipc_msg_user_sz = 16"

definition ipc_msg_user_of :: "u8 list \<Rightarrow> ipc_msg_user" where
  "ipc_msg_user_of bs = \<lparr>u_num_iov = le32 bs, u_iov = le32 (drop 4 bs), u_num_handles = le32 (drop 8 bs), u_handles = le32 (drop 12 bs)\<rparr>"

definition sys_send_msg :: "kmem \<Rightarrow> uctx \<Rightarrow> umem \<Rightarrow> u32 \<Rightarrow> u32 \<Rightarrow> kst \<Rightarrow> nat res \<times> kst" where
  "sys_send_msg km ctx um handle_id user_msg w = (case copy_from_user um user_msg ipc_msg_user_sz of
     (_, Inl e) \<Rightarrow> (Inl e, w)
   | (bs, Inr _) \<Rightarrow>
       (case uctx_handle_get ctx handle_id w of
          (Inl e, w1) \<Rightarrow> (Inl e, w1)
        | (Inr c, w1) \<Rightarrow>
            (case send_msg_locked km um (Some c) (IPC_MSG_BUFFER_USER (ipc_msg_user_of bs)) w1 of
               (r, w2) \<Rightarrow> (r, handle_decref c w2))))"

text \<open>The part of \<^verbatim>\<open>sys_get_msg\<close> under the lock: the message is taken only once its description has reached the user.\<close>

definition get_msg_locked :: "umem \<Rightarrow> addr option \<Rightarrow> u32 \<Rightarrow> kst \<Rightarrow> unit res \<times> umem \<times> kst" where
  "get_msg_locked um ch user_msg_info w = (case check_channel_locked w ch of
     Inl e \<Rightarrow> (Inl e, um, w)
   | Inr _ \<Rightarrow>
       (case Option.bind (Option.bind ch (chans w)) c_msg_queue of
          None \<Rightarrow> (Inl ERR_FAULT, um, fault w)
        | Some mq \<Rightarrow>
            (case msg_peek_next_filled_locked mq of
               Inl e \<Rightarrow> (Inl e, um, w)
             | Inr info \<Rightarrow>
                 (case copy_to_user um user_msg_info (enc32 (info_len info) @ enc32 (info_id info)) of
                    (um1, Inl e) \<Rightarrow> (Inl e, um1, w)
                  | (um1, Inr _) \<Rightarrow> (NO_ERROR, um1, (case msg_get_filled_locked mq of
                      None \<Rightarrow> fault w
                    | Some mq' \<Rightarrow> upd_chan (the ch) (\<lambda>x. x\<lparr>c_msg_queue := Some mq'\<rparr>) w))))))"

definition sys_get_msg :: "uctx \<Rightarrow> umem \<Rightarrow> u32 \<Rightarrow> u32 \<Rightarrow> kst \<Rightarrow> unit res \<times> umem \<times> kst" where
  "sys_get_msg ctx um handle_id user_msg_info w = (case uctx_handle_get ctx handle_id w of
     (Inl e, w1) \<Rightarrow> (Inl e, um, w1)
   | (Inr c, w1) \<Rightarrow>
       (case get_msg_locked um (Some c) user_msg_info w1 of (r, um1, w2) \<Rightarrow> (r, um1, handle_decref c w2)))"

definition sys_put_msg :: "uctx \<Rightarrow> u32 \<Rightarrow> u32 \<Rightarrow> kst \<Rightarrow> unit res \<times> kst" where
  "sys_put_msg ctx handle_id msg_id w = (case uctx_handle_get ctx handle_id w of
     (Inl e, w1) \<Rightarrow> (Inl e, w1)
   | (Inr c, w1) \<Rightarrow> (case ipc_put_msg (Some c) msg_id w1 of (r, w2) \<Rightarrow> (r, handle_decref c w2)))"

definition sys_read_msg :: "kmem \<Rightarrow> uctx \<Rightarrow> umem \<Rightarrow> u32 \<Rightarrow> u32 \<Rightarrow> u32 \<Rightarrow> u32 \<Rightarrow> kst \<Rightarrow> nat res \<times> kmem \<times> umem \<times> kst" where
  "sys_read_msg km ctx um handle_id msg_id offset user_msg w = (case copy_from_user um user_msg ipc_msg_user_sz of
     (_, Inl e) \<Rightarrow> (Inl e, km, um, w)
   | (bs, Inr _) \<Rightarrow>
       (case uctx_handle_get ctx handle_id w of
          (Inl e, w1) \<Rightarrow> (Inl e, km, um, w1)
        | (Inr c, w1) \<Rightarrow>
            (case read_msg_locked km um (Some c) msg_id offset (IPC_MSG_BUFFER_USER (ipc_msg_user_of bs)) w1 of
               (km1, um1, r, w2) \<Rightarrow> (r, km1, um1, handle_decref c w2))))"

section \<open>New handles are new\<close>

lemma kalloc_addr: "next_addr (snd (kalloc w)) = next_addr w"
  by (simp add: kalloc_def split: list.split)

lemma create_addr: "fst (ipc_port_create sid path n sz flags w) = Inr p \<Longrightarrow> p = next_addr w"
  using kalloc_addr [of w] by (auto simp: ipc_port_create_def Let_def split: option.splits if_splits prod.splits)

lemma chan_alloc_addr: "fst (chan_alloc f u w) = Some c \<Longrightarrow> c = next_addr w"
  using kalloc_addr [of w] by (auto simp: chan_alloc_def split: if_splits prod.splits)

lemma connect_addr: "fst (ipc_port_connect_async cid path mp flags w) = Inr c \<Longrightarrow> c = next_addr w"
proof -
  assume a: "fst (ipc_port_connect_async cid path mp flags w) = Inr c"
  then obtain u where u: "cid = Some u" by (cases cid) (auto simp: ipc_port_connect_async_def)
  obtain cl w1 where al: "chan_alloc 0 u w = (cl, w1)" by force
  have "cl = Some c"
    using a u al by (auto simp: ipc_port_connect_async_def Let_def split: option.splits if_splits sum.splits prod.splits)
  then show ?thesis using chan_alloc_addr [of 0 u w c] al by simp
qed

lemma accept_server_addr: "fst (accept_server p s w) = Inr (s', u) \<Longrightarrow> s' = s"
  by (simp add: accept_server_def Let_def split: option.splits if_splits)

lemma accept_new:
  assumes "kreach w H" "p \<in># H" "ipc_port_accept (Some p) w = (Inr (s, u), w')"
  shows "s \<notin># H"
proof -
  note core = kreach_core [OF assms(1)]
  obtain p' q s' ss where q: "ports w p' = Some q" "p_pending_list q = s' # ss" "accept_server p' s' w = (Inr (s, u), w')"
    using ipc_port_accept_cases [OF core _ assms(3)] assms(2) by auto
  have "s = s'" using accept_server_addr [of p' s' w s u] q(3) by simp
  then have s: "s \<in> set (pends (ports w) p')" using q by (simp add: pends_def)
  then obtain y where y: "chans w s = Some y" using core unfolding ipc_core_def addrs_wf_def by blast
  then have "c_node y = NodePending p'" using ipc_core_chan(3) [OF core y] s by (simp add: node_wf_def)
  then show ?thesis using ipc_core_chan(3) [OF core y] by (simp add: node_wf_def)
qed

lemma fresh_held: "kreach w H \<Longrightarrow> next_addr w \<notin># H"
  by (rule fresh_addr(3) [OF kreach_core])

section \<open>Every call keeps the references\<close>

text \<open>A context, the kernel, and the references \<open>P\<close> of everyone else.\<close>

definition sys_inv :: "uctx \<Rightarrow> kst \<Rightarrow> addr multiset \<Rightarrow> bool" where
  "sys_inv ctx w P \<longleftrightarrow> uctx_wf ctx (hlinked w) \<and> kreach w (urefs ctx + P)"

lemma installed_urefs: "h \<in> set (installed ctx) \<longleftrightarrow> h \<in># urefs ctx"
  by (simp add: urefs_def)

text \<open>The reference taken by a lookup is given back.\<close>

lemma return_ref:
  assumes "uctx_wf ctx (hlinked w)" "h \<in># urefs ctx" "kreach w (add_mset h (urefs ctx + P))"
  shows "sys_inv ctx (handle_decref h w) P"
proof -
  obtain Q where Q: "urefs ctx + P = add_mset h Q" using assms(2) by (meson mset_add union_iff)
  then have "kreach (handle_decref h w) (urefs ctx + P)" using decref_reach [of w h Q] assms(3) by simp
  then show ?thesis using assms(1) by (simp add: sys_inv_def)
qed

lemma sys_get_cases:
  assumes "sys_inv ctx w P" "uctx_handle_get ctx i w = (r, w1)"
  obtains (bad) e where "r = Inl e" "w1 = w"
  | (ok) h where "r = Inr h" "w1 = handle_incref h w" "utab ctx i = Some h" "uctx_wf ctx (hlinked w1)" "h \<in># urefs ctx"
      "kreach w1 (add_mset h (urefs ctx + P))"
proof -
  have wf: "uctx_wf ctx (hlinked w)" and k: "kreach w (urefs ctx + P)" using assms(1) by (auto simp: sys_inv_def)
  note eq = uctx_handle_get_eq [OF wf, of i w]
  show thesis
  proof (cases r)
    case (Inl e)
    then show ?thesis using eq assms(2) bad by (auto split: option.splits)
  next
    case (Inr h)
    then have e: "uctx_handle_get ctx i w = (Inr h, w1)" using assms(2) by simp
    note u = uctx_get_reach [OF wf k e]
    have "w1 = handle_incref h w" using eq u(2) e by simp
    then show ?thesis using ok [OF Inr] u wf by simp
  qed
qed

lemma sys_close_inv:
  assumes "sys_inv ctx w P" "sys_close ctx i w = (r, ctx', w')"
  shows "sys_inv ctx' w' P"
proof -
  obtain r1 ctx1 w1 where e: "uctx_handle_remove ctx i w = (r1, ctx1, w1)" by (metis prod_cases3)
  have wf: "uctx_wf ctx (hlinked w)" and k: "kreach w (urefs ctx + P)" using assms(1) by (auto simp: sys_inv_def)
  note u = uctx_remove_reach [OF wf k e]
  show ?thesis
  proof (cases r1)
    case (Inl x)
    then show ?thesis using assms u e by (auto simp: sys_close_def)
  next
    case (Inr h)
    then have "kreach (handle_close h w1) (urefs ctx1 + P)" using u(2) by (auto intro: close_reach)
    moreover have "ctx' = ctx1" "w' = handle_close h w1" using assms(2) e Inr by (simp_all add: sys_close_def)
    ultimately show ?thesis using u(1) by (simp add: sys_inv_def)
  qed
qed

lemma sys_set_cookie_inv:
  assumes "sys_inv ctx w P" "sys_set_cookie ctx i ck w = (r, w')"
  shows "sys_inv ctx w' P"
proof -
  obtain r1 w1 where e: "uctx_handle_get ctx i w = (r1, w1)" by force
  from assms(1) e show ?thesis
  proof (cases rule: sys_get_cases)
    case (bad x)
    then show ?thesis using assms e by (simp add: sys_set_cookie_def)
  next
    case (ok h)
    have "kreach (handle_set_cookie h (unat ck) w1) (add_mset h (urefs ctx + P))"
      by (rule kreach.step [OF ok(6) kstep.cookie]) simp
    then have "sys_inv ctx (handle_decref h (handle_set_cookie h (unat ck) w1)) P"
      using ok(4,5) by (intro return_ref) simp_all
    then show ?thesis using assms(2) e ok(1) by (simp add: sys_set_cookie_def)
  qed
qed

text \<open>
  Taking, retiring and reading need the queue of a channel; a handle that is not a channel is
  refused.
\<close>

definition queue_ready :: "kst \<Rightarrow> addr \<Rightarrow> bool" where
  "queue_ready w h \<longleftrightarrow> (ipc_is_channel w h \<longrightarrow> has_queue w h)"

lemma queue_ready_incref: "queue_ready w h \<Longrightarrow> queue_ready (handle_incref h w) h"
  by (auto simp: queue_ready_def handle_incref_def upd_handle_def upd_chan_def upd_port_def ipc_is_channel_def handle_at_def
      has_queue_def fault_def split: option.splits)

lemma put_reach:
  assumes "kreach w H" "queue_ready w h"
  shows "kreach (snd (ipc_put_msg (Some h) mid w)) H"
proof (cases "ipc_is_channel w h")
  case True
  then show ?thesis using kreach.step [OF assms(1) kstep.put [OF _ surjective_pairing]] assms(2) by (simp add: queue_ready_def)
next
  case False
  then show ?thesis using assms(1) by (simp add: ipc_put_msg_def check_channel_locked_def)
qed

lemma get_reach:
  assumes "kreach w H" "queue_ready w h"
  shows "kreach (snd (snd (get_msg_locked um (Some h) ui w))) H"
proof (cases "snd (snd (get_msg_locked um (Some h) ui w)) = w")
  case False
  have q: "has_queue w h" "ipc_is_channel w h"
    using False assms(2) by (auto simp: get_msg_locked_def check_channel_locked_def queue_ready_def split: if_splits)
  have "snd (snd (get_msg_locked um (Some h) ui w)) = snd (ipc_get_msg (Some h) w)"
    using False q(2) by (auto simp: get_msg_locked_def ipc_get_msg_def check_channel_locked_def split: option.splits sum.splits prod.splits)
  then show ?thesis using kreach.step [OF assms(1) kstep.get [OF q(1) surjective_pairing]] by simp
qed (use assms(1) in simp)

lemma sys_put_msg_inv:
  assumes "sys_inv ctx w P" "\<And>h. utab ctx i = Some h \<Longrightarrow> queue_ready w h" "sys_put_msg ctx i mid w = (r, w')"
  shows "sys_inv ctx w' P"
proof -
  obtain r1 w1 where e: "uctx_handle_get ctx i w = (r1, w1)" by force
  from assms(1) e show ?thesis
  proof (cases rule: sys_get_cases)
    case (bad x)
    then show ?thesis using assms e by (simp add: sys_put_msg_def)
  next
    case (ok h)
    have "queue_ready w1 h" using assms(2) ok(2,3) by (simp add: queue_ready_incref)
    then have "sys_inv ctx (handle_decref h (snd (ipc_put_msg (Some h) mid w1))) P"
      using ok put_reach [OF ok(6)] by (intro return_ref) simp_all
    then show ?thesis using assms(3) e ok(1) by (simp add: sys_put_msg_def split_beta)
  qed
qed

lemma sys_get_msg_inv:
  assumes "sys_inv ctx w P" "\<And>h. utab ctx i = Some h \<Longrightarrow> queue_ready w h" "sys_get_msg ctx um i ui w = (r, um', w')"
  shows "sys_inv ctx w' P"
proof -
  obtain r1 w1 where e: "uctx_handle_get ctx i w = (r1, w1)" by force
  from assms(1) e show ?thesis
  proof (cases rule: sys_get_cases)
    case (bad x)
    then show ?thesis using assms e by (simp add: sys_get_msg_def)
  next
    case (ok h)
    have "queue_ready w1 h" using assms(2) ok(2,3) by (simp add: queue_ready_incref)
    moreover have "hlinked (snd (snd (get_msg_locked um (Some h) ui w1))) = hlinked w1"
      by (simp add: get_msg_locked_def links.Q_fault [OF refl] split: option.split sum.split prod.split)
    ultimately have "sys_inv ctx (handle_decref h (snd (snd (get_msg_locked um (Some h) ui w1)))) P"
      using ok get_reach [OF ok(6)] by (intro return_ref) simp_all
    then show ?thesis using assms(3) e ok(1) by (simp add: sys_get_msg_def split_beta)
  qed
qed

lemma send_reach: "kreach w H \<Longrightarrow> kreach (snd (send_msg_locked km um (Some c) msg w)) H"
  by (rule kreach.step [OF _ kstep.send [OF surjective_pairing]])

lemma sys_send_msg_inv:
  assumes "sys_inv ctx w P" "sys_send_msg km ctx um i m w = (r, w')"
  shows "sys_inv ctx w' P"
proof -
  obtain bs r0 where c: "copy_from_user um m ipc_msg_user_sz = (bs, r0)" by force
  obtain r1 w1 where e: "uctx_handle_get ctx i w = (r1, w1)" by force
  show ?thesis
  proof (cases r0)
    case (Inl x)
    then show ?thesis using assms c by (simp add: sys_send_msg_def)
  next
    case c0: (Inr x)
    from assms(1) e show ?thesis
    proof (cases rule: sys_get_cases)
      case (bad x)
      then show ?thesis using assms e c c0 by (simp add: sys_send_msg_def)
    next
      case (ok h)
      have "sys_inv ctx (handle_decref h (snd (send_msg_locked km um (Some h) (IPC_MSG_BUFFER_USER (ipc_msg_user_of bs)) w1))) P"
        using ok send_reach [OF ok(6)] by (intro return_ref) simp_all
      then show ?thesis using assms(2) e ok(1) c c0 by (simp add: sys_send_msg_def split_beta)
    qed
  qed
qed

lemma sys_read_msg_inv:
  assumes "sys_inv ctx w P" "\<And>h. utab ctx i = Some h \<Longrightarrow> queue_ready w h" "sys_read_msg km ctx um i mid off m w = (r, km', um', w')"
  shows "sys_inv ctx w' P"
proof -
  obtain bs r0 where c: "copy_from_user um m ipc_msg_user_sz = (bs, r0)" by force
  obtain r1 w1 where e: "uctx_handle_get ctx i w = (r1, w1)" by force
  show ?thesis
  proof (cases r0)
    case (Inl x)
    then show ?thesis using assms c by (simp add: sys_read_msg_def)
  next
    case c0: (Inr x)
    from assms(1) e show ?thesis
    proof (cases rule: sys_get_cases)
      case (bad x)
      then show ?thesis using assms e c c0 by (simp add: sys_read_msg_def)
    next
      case (ok h)
      have "queue_ready w1 h" using assms(2) ok(2,3) by (simp add: queue_ready_incref)
      then have "snd (snd (snd (read_msg_locked km um (Some h) mid off (IPC_MSG_BUFFER_USER (ipc_msg_user_of bs)) w1))) = w1"
        by (intro read_msg_locked_state [OF kreach_inv [OF ok(6)]]) (simp add: queue_ready_def)
      moreover have "sys_inv ctx (handle_decref h w1) P" using ok by (intro return_ref) simp_all
      ultimately show ?thesis using assms(3) e ok(1) c c0 by (simp add: sys_read_msg_def split_beta)
    qed
  qed
qed

text \<open>An installation that is undone.\<close>

lemma uctx_undo:
  assumes wf: "uctx_wf ctx (hlinked w)" and h: "h \<notin> hlinked w" and i: "uctx_handle_install ctx h w = (Inr i, ctx1, w1)"
    and wf1: "uctx_wf ctx1 (hlinked v)" and k: "kreach v (urefs ctx1 + P)" and r: "uctx_handle_remove ctx1 i v = (r, ctx2, w2)"
  shows "r = Inr h" "urefs ctx2 = urefs ctx" "uctx_wf ctx2 (hlinked w2)" "kreach w2 (add_mset h (urefs ctx2 + P))"
proof -
  from wf h i have t: "utab ctx1 i = Some h" "urefs ctx1 = add_mset h (add_mset h (urefs ctx))"
    by (cases rule: uctx_install_cases; simp)+
  note u = uctx_remove_reach [OF wf1 k r]
  from wf1 r have "r = Inr h \<and> urefs ctx2 = urefs ctx" by (cases rule: uctx_remove_cases) (use t in auto)
  then show "r = Inr h" "urefs ctx2 = urefs ctx" "uctx_wf ctx2 (hlinked w2)" "kreach w2 (add_mset h (urefs ctx2 + P))"
    using u by auto
qed

lemma uctx_install_refs:
  assumes "uctx_wf ctx (hlinked w)" "h \<notin> hlinked w" "uctx_handle_install ctx h w = (Inr i, ctx1, w1)"
  shows "urefs ctx1 = add_mset h (add_mset h (urefs ctx))"
  using assms by (cases rule: uctx_install_cases) simp_all

lemma wf_unlink: "uctx_wf ctx L \<Longrightarrow> h \<notin># urefs ctx \<Longrightarrow> uctx_wf ctx (L - {h})"
  by (rule uctx_wf_mono) (auto simp: uctx_wf_def urefs_def)

lemma sys_accept_inv:
  assumes inv: "sys_inv ctx w P" and r: "sys_accept ctx um i uu w = (r, ctx', um', w')"
  shows "sys_inv ctx' w' P"
proof -
  obtain r1 w1 where e: "uctx_handle_get ctx i w = (r1, w1)" by force
  from inv e show ?thesis
  proof (cases rule: sys_get_cases)
    case (bad x)
    then show ?thesis using inv r e by (simp add: sys_accept_def)
  next
    case (ok p)
    have p: "p \<in># add_mset p (urefs ctx + P)" by simp
    obtain a w2 where a: "ipc_port_accept (Some p) w1 = (a, w2)" by force
    have l2: "hlinked w2 = (case a of Inl _ \<Rightarrow> hlinked w1 | Inr (s, _) \<Rightarrow> hlinked w1 - {s})"
      using hlinked_accept [of "Some p" w1] a by simp
    show ?thesis
    proof (cases a)
      case (Inl x)
      then have "sys_inv ctx (handle_decref p w2) P"
        using kreach.step [OF ok(6) kstep.accept_fails [OF p]] a ok(4,5) l2 by (intro return_ref) auto
      then show ?thesis using r e ok(1) a Inl by (simp add: sys_accept_def)
    next
      case (Inr su)
      obtain s u where su: "su = (s, u)" by force
      have k2: "kreach w2 (add_mset s (urefs ctx + add_mset p P))"
        using kreach.step [OF ok(6) kstep.accepts [OF p]] a Inr su by simp
      have "s \<notin># urefs ctx" using accept_new [OF ok(6) p] a Inr su by fastforce
      then have wf2: "uctx_wf ctx (hlinked w2)" "s \<notin> hlinked w2" using wf_unlink ok(4) l2 Inr su by auto
      obtain b ctx3 w3 where b: "uctx_handle_install ctx s w2 = (b, ctx3, w3)" by (metis prod_cases3)
      note in3 = uctx_install_reach [OF wf2 k2 b]
      show ?thesis
      proof (cases b)
        case Inl: (Inl x)
        then have "kreach (handle_close s w2) (add_mset p (urefs ctx + P))" using k2 by (auto intro: close_reach)
        then have "sys_inv ctx (handle_decref p (handle_close s w2)) P" using wf2(1) ok(5) by (intro return_ref) simp_all
        moreover have "ctx3 = ctx" "w3 = w2" using in3(2) Inl by simp_all
        moreover have "ctx' = ctx3" "w' = handle_decref p (handle_close s w3)"
          using r e ok(1) a Inr su b Inl by (simp_all add: sys_accept_def)
        ultimately show ?thesis by simp
      next
        case new: (Inr n)
        then have k3: "kreach w3 (urefs ctx3 + add_mset p P)" using in3(2) by simp
        have "urefs ctx3 = add_mset s (add_mset s (urefs ctx))" using uctx_install_refs [OF wf2] b new by simp
        then have p3: "p \<in># urefs ctx3" using ok(5) by simp
        obtain um1 c where c: "copy_to_user um uu (uuid_bytes u) = (um1, c)" by force
        show ?thesis
        proof (cases c)
          case cok: (Inr x)
          have "sys_inv ctx3 (handle_decref p w3) P" using k3 p3 in3(1) by (intro return_ref) simp_all
          then show ?thesis using r e ok(1) a Inr su b new c cok by (simp add: sys_accept_def)
        next
          case cbad: (Inl x)
          obtain d ctx4 w4 where d: "uctx_handle_remove ctx3 n w3 = (d, ctx4, w4)" by (metis prod_cases3)
          note un = uctx_undo [OF wf2 b [unfolded new] in3(1) k3 d]
          have "kreach (handle_close s w4) (add_mset p (urefs ctx4 + P))" using un(4) by (auto intro: close_reach)
          then have "sys_inv ctx4 (handle_decref p (handle_close s w4)) P" using un(2,3) ok(5) by (intro return_ref) simp_all
          then show ?thesis using r e ok(1) a Inr su b new c cbad d by (simp add: sys_accept_def)
        qed
      qed
    qed
  qed
qed

text \<open>
  Publishing is safe when every client that waits for the name will be admitted and memory does
  not run out while they are attached.
\<close>

definition publish_guard :: "u8 list \<Rightarrow> u32 \<Rightarrow> kst \<Rightarrow> bool" where
  "publish_guard path flags w \<longleftrightarrow> (\<forall>c x q. c \<in> set (waiting_for_port_chan_list w) \<longrightarrow> chans w c = Some x \<longrightarrow>
     c_path x = Some path \<longrightarrow> p_flags q = flags \<longrightarrow> allocs w = [] \<and> check_access q (Some (c_uuid x)) = NO_ERROR)"

text \<open>A created port is new, unpublished and at rest, and nothing else has changed.\<close>

lemma create_effect:
  assumes "kreach w H" "ipc_port_create sid path n sz flags w = (Inr p, w1)"
  shows "p = next_addr w" "chans w1 = chans w" "waiting_for_port_chan_list w1 = waiting_for_port_chan_list w" "chans w1 p = None"
    "allocs w = [] \<Longrightarrow> allocs w1 = []"
    "\<exists>q. ports w1 p = Some q \<and> p_path q = path \<and> p_flags q = flags \<and> \<not> p_node q \<and> p_pending_list q = []"
proof -
  note fr = fresh_addr [OF kreach_core [OF assms(1)]]
  obtain ok v where k: "kalloc w = (ok, v)" by force
  then have v: "next_addr v = next_addr w" "chans v = chans w" "waiting_for_port_chan_list v = waiting_for_port_chan_list w"
    "ports v = ports w" "allocs w = [] \<Longrightarrow> allocs v = []"
    by (auto simp: kalloc_def split: list.splits)
  let ?q = "\<lambda>u. \<lparr>p_path = path, p_uuid = u, p_state = IPC_PORT_STATE_INVALID, p_flags = flags,
                            p_num_recv_bufs = n, p_recv_buf_size = sz,
                            p_handle = zero_handle, p_pending_list = [], p_node = False\<rparr>"
  obtain u where e: "p = next_addr w"
    "w1 = handle_init p OPS_PORT (v\<lparr>next_addr := Suc p, ports := (ports v)(p \<mapsto> ?q u)\<rparr>)"
    using assms(2) k v(1) by (auto simp: ipc_port_create_def Let_def split: option.splits if_splits)
  then have "w1 = (v\<lparr>next_addr := Suc p, ports := (ports v)(p \<mapsto> (?q u)\<lparr>p_handle := \<lparr>refcnt = 1, h_ops = OPS_PORT, wait_event = None, h_cookie = 0\<rparr>\<rparr>)\<rparr>)
      \<lparr>hlinked := hlinked v - {p}\<rparr>"
    using fr(1) v(2) by (simp add: handle_init_def upd_handle_def upd_port_def)
  then show "p = next_addr w" "chans w1 = chans w" "waiting_for_port_chan_list w1 = waiting_for_port_chan_list w" "chans w1 p = None"
    "allocs w = [] \<Longrightarrow> allocs w1 = []"
    "\<exists>q. ports w1 p = Some q \<and> p_path q = path \<and> p_flags q = flags \<and> \<not> p_node q \<and> p_pending_list q = []"
    using v e(1) fr(1) by auto
qed

lemma install_effect:
  assumes wf: "uctx_wf ctx (hlinked w)" and h: "h \<notin> hlinked w" and p: "chans w h = None" "ports w h = Some q"
    and e: "uctx_handle_install ctx h w = (Inr i, ctx1, w1)"
  shows "w1 = w\<lparr>ports := (ports w)(h \<mapsto> q\<lparr>p_handle := (p_handle q)\<lparr>refcnt := refcnt (p_handle q) + 1\<rparr>\<rparr>), hlinked := insert h (hlinked w)\<rparr>"
proof -
  have "hl_event (uc_hlist ctx) = None" using wf by (simp add: uctx_wf_def)
  moreover from wf h e have "w1 = snd (handle_list_add (uc_hlist ctx) h w)" by (cases rule: uctx_install_cases) simp_all
  ultimately show ?thesis using p h by (simp add: handle_list_add_def kassert_def Let_def handle_incref_def upd_handle_def upd_port_def)
qed

text \<open>The last reference to a port at rest may be dropped without closing it.\<close>

lemma drop_port_reach:
  assumes "kreach w (add_mset p Q)" "chans w p = None" "ports w p = Some q" "\<not> p_node q" "p_pending_list q = []"
  shows "kreach (handle_decref p w) Q"
  using kreach.step [OF assms(1) kstep.decref [of p]] assms(2-5) by (simp add: quiescent_def)

lemma undo_port:
  assumes k: "kreach w H" "count H p \<ge> 2" and p: "chans w p = None" "ports w p = Some q" "p \<in> hlinked w"
    and d: "w1 = snd (handle_list_del_locked hl p w)" "hl_event hl = None"
  shows "chans w1 p = None" "\<exists>q'. ports w1 p = Some q' \<and> p_node q' = p_node q \<and> p_pending_list q' = p_pending_list q"
proof -
  have "refcnt (p_handle q) \<noteq> 1" using ipc_core_port [OF kreach_core [OF k(1)] p(2)] k(2) by (auto simp: port_wf_def)
  then have "w1 = w\<lparr>ports := (ports w)(p \<mapsto> q\<lparr>p_handle := (p_handle q)\<lparr>refcnt := refcnt (p_handle q) - 1\<rparr>\<rparr>), hlinked := hlinked w - {p}\<rparr>"
    using p d by (simp add: handle_list_del_locked_def kassert_def handle_decref_def handle_at_def upd_handle_def upd_port_def Let_def)
  then show "chans w1 p = None" "\<exists>q'. ports w1 p = Some q' \<and> p_node q' = p_node q \<and> p_pending_list q' = p_pending_list q"
    using p by auto
qed

lemma publish_outcome:
  assumes "ports w p = Some q" "\<not> p_node q" "ipc_port_publish p w = (Inl e, w1)"
  shows "w1 = w"
  using assms by (simp add: ipc_port_publish_def kassert_def Let_def split: option.splits)

lemma sys_port_create_inv:
  assumes inv: "sys_inv ctx w P" and r: "sys_port_create uuid ctx um path n sz flags w = (r, ctx', w')"
    and g: "\<And>s l. strlcpy_from_user um path IPC_PORT_PATH_MAX = Inr (s, l) \<Longrightarrow> publish_guard s flags w"
  shows "sys_inv ctx' w' P"
proof (cases "\<exists>s l. strlcpy_from_user um path IPC_PORT_PATH_MAX = Inr (s, l) \<and> l < IPC_PORT_PATH_MAX")
  case False
  then have "ctx' = ctx \<and> w' = w" using r by (auto simp: sys_port_create_def not_less split: sum.splits prod.splits if_splits)
  then show ?thesis using inv by simp
next
  case True
  then obtain s l where s: "strlcpy_from_user um path IPC_PORT_PATH_MAX = Inr (s, l)" "\<not> IPC_PORT_PATH_MAX \<le> l" by auto
  have wf: "uctx_wf ctx (hlinked w)" and k: "kreach w (urefs ctx + P)" using inv by (auto simp: sys_inv_def)
  obtain a w1 where a: "ipc_port_create (Some uuid) s (unat n) (unat sz) flags w = (a, w1)" by force
  have l1: "hlinked w1 = (case a of Inl _ \<Rightarrow> hlinked w | Inr p \<Rightarrow> hlinked w - {p})"
    using hlinked_create [of "Some uuid" s "unat n" "unat sz" flags w] a by simp
  show ?thesis
  proof (cases a)
    case (Inl e)
    then have "ctx' = ctx" "w' = w1" using r s a by (simp_all add: sys_port_create_def)
    then show ?thesis using kreach.step [OF k kstep.create_fails] a Inl l1 wf by (simp add: sys_inv_def)
  next
    case (Inr p)
    note e1 = create_effect [OF k a [unfolded Inr]]
    obtain q where q: "ports w1 p = Some q" "p_path q = s" "p_flags q = flags" "\<not> p_node q" "p_pending_list q = []" using e1(6) by blast
    have k1: "kreach w1 (add_mset p (urefs ctx + P))" using kreach.step [OF k kstep.create] a Inr by simp
    have "p \<notin># urefs ctx" using fresh_held [OF k] e1(1) by simp
    then have wf1: "uctx_wf ctx (hlinked w1)" "p \<notin> hlinked w1" using wf_unlink wf l1 Inr by auto
    obtain b ctx2 w2 where b: "uctx_handle_install ctx p w1 = (b, ctx2, w2)" by (metis prod_cases3)
    note in2 = uctx_install_reach [OF wf1 k1 b]
    show ?thesis
    proof (cases b)
      case Inl: (Inl e)
      then have "ctx' = ctx2" "w' = handle_decref p w2" using r s a Inr b by (simp_all add: sys_port_create_def)
      moreover have "ctx2 = ctx" "w2 = w1" using in2(2) Inl by simp_all
      ultimately show ?thesis using drop_port_reach [OF k1 e1(4) q(1,4,5)] wf1(1) by (simp add: sys_inv_def)
    next
      case new: (Inr i)
      note w2 = install_effect [OF wf1 e1(4) q(1) b [unfolded new]]
      let ?q2 = "q\<lparr>p_handle := (p_handle q)\<lparr>refcnt := refcnt (p_handle q) + 1\<rparr>\<rparr>"
      have q2: "ports w2 p = Some ?q2" "\<not> p_node ?q2" "chans w2 p = None" "p \<in> hlinked w2" unfolding w2 using q e1(4) by simp_all
      have k2: "kreach w2 (urefs ctx2 + P)" using in2(2) new by simp
      have u2: "urefs ctx2 = add_mset p (add_mset p (urefs ctx))" using uctx_install_refs [OF wf1 b [unfolded new]] .
      then have p2: "p \<in># urefs ctx2 + P" "count (urefs ctx2 + P) p \<ge> 2" by simp_all
      have safe: "publish_safe p w2" using g [OF s(1)] e1(2,3,5) q(2,3)
        unfolding publish_safe_def publish_guard_def w2 by auto
      obtain c w3 where c: "ipc_port_publish p w2 = (c, w3)" by force
      have l3: "hlinked w3 = hlinked w2" using links.Q_publish [OF refl, of p w2] c by simp
      show ?thesis
      proof (cases c)
        case pub: (Inr x)
        have "kreach w3 (urefs ctx2 + P)" using kreach.step [OF k2 kstep.publish [OF p2(1) q2(1,2) safe c]] .
        moreover have "ctx' = ctx2" "w' = w3" using r s a Inr b new c pub by (simp_all add: sys_port_create_def)
        ultimately show ?thesis using in2(1) l3 by (simp add: sys_inv_def)
      next
        case fail: (Inl e)
        have w3: "w3 = w2" using publish_outcome [OF q2(1,2)] c fail by simp
        obtain d ctx4 w4 where d: "uctx_handle_remove ctx2 i w2 = (d, ctx4, w4)" by (metis prod_cases3)
        note un = uctx_undo [OF wf1 b [unfolded new] in2(1) k2 d]
        from in2(1) d have w4: "w4 = snd (handle_list_del_locked (uc_hlist ctx2) p w2)"
          by (cases rule: uctx_remove_cases) (use un(1) in auto)
        have "hl_event (uc_hlist ctx2) = None" using in2(1) by (simp add: uctx_wf_def)
        note up = undo_port [OF k2 p2(2) q2(3,1,4) w4 this]
        obtain q4 where "ports w4 p = Some q4" "\<not> p_node q4" "p_pending_list q4 = []" using up(2) q(4,5) by auto
        from drop_port_reach [OF un(4) up(1) this] have "kreach (handle_decref p w4) (urefs ctx4 + P)" .
        moreover have "ctx' = ctx4" "w' = handle_decref p w4" using r s a Inr b new c fail d w3 by (simp_all add: sys_port_create_def)
        ultimately show ?thesis using un(3) by (simp add: sys_inv_def)
      qed
    qed
  qed
qed

end
