(* ===== verification/Sys_Reach.thy ===== *)
theory Sys_Reach
  imports Ipc_Syscall
begin

text \<open>
  The system calls that block, and what an application can reach by any sequence of its system
  calls: the kernel is never faulted, every identifier of its table names a live handle, and when
  its context is destroyed nothing it held remains.
\<close>

section \<open>Calls that block\<close>

text \<open>
  While a call blocks, the other parties may change the state and their references, as long as
  those of the caller and the links of its list stay; \<open>L\<close> are the handles of the caller that are
  linked, \<open>U\<close> those that are not.
\<close>

definition holds :: "addr multiset \<Rightarrow> addr set \<Rightarrow> addr set \<Rightarrow> kst \<Rightarrow> bool" where
  "holds M L U w \<longleftrightarrow> (\<exists>P. kreach w (M + P)) \<and> L \<subseteq> hlinked w \<and> U \<inter> hlinked w = {}"

definition honours :: "addr multiset \<Rightarrow> addr set \<Rightarrow> addr set \<Rightarrow> (kst \<Rightarrow> kst) \<Rightarrow> bool" where
  "honours M L U f \<longleftrightarrow> (\<forall>w. holds M L U w \<longrightarrow> holds M L U (f w))"

lemma holds_alive: "holds M L U w \<Longrightarrow> h \<in># M \<Longrightarrow> handle_at w h \<noteq> None"
  using handle_alive by (fastforce simp: holds_def)

lemma hlinked_events [simp]: "hlinked (event_reset ev w) = hlinked w" "hlinked (finish_wait_handle h w) = hlinked w"
  "hlinked (snd (prepare_wait_handle ev h w)) = hlinked w"
  by (simp_all add: event_reset_def finish_wait_handle_def prepare_wait_handle_def links.Q_fault [OF refl] split: option.split)

lemma holds_event: "holds M L U w \<Longrightarrow> holds M L U (event_reset ev w)"
  by (auto simp: holds_def intro: reach)

lemma holds_wait:
  "holds M L U w \<Longrightarrow> h \<in># M \<Longrightarrow> holds M L U (finish_wait_handle h w)"
  "holds M L U w \<Longrightarrow> h \<in># M \<Longrightarrow> holds M L U (snd (prepare_wait_handle ev h w))"
  "holds M L U w \<Longrightarrow> h \<in># M \<Longrightarrow> holds M L U (handle_finalize_event h e w)"
  unfolding holds_def by (auto, (metis reach union_iff)+)

lemma holds_incref: "holds M L U w \<Longrightarrow> h \<in># M \<Longrightarrow> holds (add_mset h M) L U (handle_incref h w)"
  unfolding holds_def by auto (metis incref_reach union_iff union_mset_add_mset_left)

lemma handle_wait_loop_holds:
  assumes "holds M L U w" "h \<in># M" "\<forall>wk \<in> set wks. honours M L U (wk_others wk)" "handle_wait_loop h ev wks w = Some (r, w')"
  shows "holds M L U w'"
  using assms
proof (induction wks arbitrary: w)
  case Nil
  then show ?case using holds_alive [OF Nil(1,2)] by (auto split: if_splits)
next
  case (Cons wk wks)
  have a: "handle_at w h \<noteq> None" using holds_alive [OF Cons(2,3)] .
  obtain w1 where w1: "do_wait ev wk w = (wk_res wk, w1)" "holds M L U w1"
    using Cons(2,4) by (simp add: do_wait_def honours_def holds_event)
  show ?case
  proof (cases "handle_poll w h = 0")
    case False
    then show ?thesis using a Cons(2,5) by auto
  next
    case True
    then show ?thesis using a Cons w1 by (cases "wk_res wk") auto
  qed
qed

lemma handle_wait_holds:
  assumes "holds M L U w" "h \<in># M" "\<forall>wk \<in> set wks. honours M L U (wk_others wk)" "handle_wait (Some h) ev wks w = Some (r, w')"
  shows "holds M L U w'"
proof -
  obtain a w1 where a: "prepare_wait_handle ev h (event_reset ev w) = (a, w1)" by force
  have 1: "holds M L U w1" using holds_wait(2) [OF holds_event [OF assms(1)] assms(2), of ev ev] a by simp
  show ?thesis
  proof (cases a)
    case (Inl e)
    then show ?thesis using assms(4) a 1 by (auto simp: handle_wait_def intro: holds_event)
  next
    case (Inr u)
    obtain b w2 where b: "handle_wait_loop h ev wks w1 = Some (b, w2)"
      using assms(4) a Inr by (cases "handle_wait_loop h ev wks w1") (auto simp: handle_wait_def)
    note 2 = handle_wait_loop_holds [OF 1 assms(2,3) b]
    have "holds M L U (event_reset ev (finish_wait_handle h w2))" "\<And>e. holds M L U (event_reset ev (finish_wait_handle h (handle_finalize_event h e w2)))"
      using 2 assms(2) by (simp_all add: holds_wait holds_event)
    then show ?thesis using assms(4) a Inr b by (cases b) (auto simp: handle_wait_def)
  qed
qed

lemma poll_loop_holds:
  assumes "holds M L U w" "set hs \<subseteq> set_mset M" "hlist_poll_loop prep ev hs lp r w = (ret, found, lp', w')"
  shows "holds M L U w' \<and> (case found of
      None \<Rightarrow> ret < 0 \<or> ret = (if prep \<and> hs \<noteq> [] then 0 else r)
    | Some (h, e) \<Rightarrow> ret = 1 \<and> h \<in> set hs)"
  using assms
proof (induction hs arbitrary: w lp r)
  case (Cons h hs)
  have h: "h \<in># M" using Cons(3) by simp
  obtain a w1 where a: "(if prep then prepare_wait_handle ev h w else (NO_ERROR, w)) = (a, w1)" by force
  have 1: "holds M L U w1" using holds_wait(2) [OF Cons(2) h, of ev] a Cons(2) by (auto split: if_splits)
  show ?case
  proof (cases a)
    case (Inl e)
    then show ?thesis using Cons(4) a 1 err_code_neg [of e] by auto
  next
    case (Inr u)
    show ?thesis
    proof (cases "handle_poll w1 h = 0")
      case False
      then show ?thesis using Cons(4) a Inr 1 by (auto simp: Let_def)
    next
      case True
      then have "hlist_poll_loop prep ev hs (if prep then Some h else lp) (if prep then 0 else r) w1 = (ret, found, lp', w')"
        using Cons(4) a Inr by (simp add: Let_def)
      from Cons(1) [OF 1 _ this] Cons(3) show ?thesis by (auto split: option.splits if_splits)
    qed
  qed
qed simp

lemma finish_all_holds:
  "holds M L U w \<Longrightarrow> set hs \<subseteq> set_mset M \<Longrightarrow> holds M L U (hlist_finish_wait_locked hs l w)"
  by (induction hs arbitrary: w) (auto simp: Let_def holds_wait)

lemma do_poll_holds:
  assumes "holds M L U w" "set (hl_handles hl) \<subseteq> set_mset M" "hl_event hl = Some ev" "hlist_do_poll_locked hl prep 0 w = (ret, found, w')"
  shows "holds M L U w' \<and> (case found of None \<Rightarrow> ret \<le> 0 | Some (h, e) \<Rightarrow> ret = 1 \<and> h \<in> set (hl_handles hl))"
proof (cases "hl_handles hl = []")
  case True
  then show ?thesis using assms err_code_neg [of ERR_NOT_FOUND] by (auto simp: hlist_do_poll_locked_def)
next
  case False
  obtain r1 f l w1 where p: "hlist_poll_loop prep ev (hl_handles hl) None 0 w = (r1, f, l, w1)" by (metis prod_cases4)
  note h = poll_loop_holds [OF assms(1,2) p]
  have r: "ret = r1" "found = f"
    "w' = (if r1 \<noteq> 0 \<and> prep \<and> l \<noteq> None then hlist_finish_wait_locked (hl_handles hl) l w1 else w1)"
    using assms(3,4) False p by (auto simp: hlist_do_poll_locked_def)
  have "holds M L U w'" using h r(3) finish_all_holds assms(2) by auto
  then show ?thesis using h r(1,2) by (cases f) (auto split: if_splits)
qed

text \<open>The other threads leave the list of a waiting caller alone.\<close>

definition honours_list :: "addr multiset \<Rightarrow> addr set \<Rightarrow> addr set \<Rightarrow> handle_list \<Rightarrow> (handle_list \<times> kst) wake \<Rightarrow> bool" where
  "honours_list M L U hl wk \<longleftrightarrow> wk_ret wk = 0 \<and>
     (\<forall>w. holds M L U w \<longrightarrow> fst (wk_others wk (hl, w)) = hl \<and> holds M L U (snd (wk_others wk (hl, w))))"

lemma list_wait_loop_holds:
  assumes "holds M L U w" "set (hl_handles hl) \<subseteq> set_mset M" "hl_event hl = Some ev" "\<forall>wk \<in> set wks. honours_list M L U hl wk"
    "handle_list_wait_loop ev wks hl w = Some (ret, found, hl', w')"
  shows "holds M L U w' \<and> hl' = hl \<and> (case found of None \<Rightarrow> ret < 0 | Some (h, e) \<Rightarrow> ret = 1 \<and> h \<in> set (hl_handles hl))"
  using assms
proof (induction wks arbitrary: w)
  case (Cons wk wks)
  obtain w1 where w1: "hl_do_wait ev wk hl w = (wk_res wk, hl, w1)" "holds M L U w1"
    using Cons(2,5) by (auto simp: hl_do_wait_def honours_list_def split_beta intro!: holds_event)
  show ?case
  proof (cases "wk_res wk")
    case (Inl e)
    then show ?thesis using Cons(6) w1 err_code_neg [of e] by auto
  next
    case (Inr u)
    obtain r f w2 where p: "hlist_do_poll_locked hl False 0 w1 = (r, f, w2)" by (metis prod_cases3)
    have z: "wk_ret wk = 0" using Cons(5) by (simp add: honours_list_def)
    note h = do_poll_holds [OF w1(2) Cons(3,4) p]
    show ?thesis
    proof (cases "r = 0")
      case True
      then show ?thesis using Cons(1) [of w2] Cons(3-6) h w1(1) Inr p z by simp
    next
      case False
      then show ?thesis using Cons(6) h w1(1) Inr p z by (auto split: option.splits)
    qed
  qed
qed simp

lemma mset_move_head: "h \<in> set hs \<Longrightarrow> mset (hl_move_head h hs) = mset hs"
  using split_list_first [of h hs] by (auto simp: hl_move_head_eq)

lemma list_found_holds:
  assumes "holds M L U w" "set (hl_handles hl) \<subseteq> set_mset M"
    "case found of None \<Rightarrow> ret < 0 | Some (h, e) \<Rightarrow> ret = 1 \<and> h \<in> set (hl_handles hl)"
    "handle_list_found ev ret found hl w = (ret', found', hl', w')"
  shows "hl_event hl' = None \<and> mset (hl_handles hl') = mset (hl_handles hl) \<and> found' = found \<and> (case found of
      None \<Rightarrow> ret' < 0 \<and> holds M L U w'
    | Some (h, e) \<Rightarrow> ret' = 0 \<and> h \<in> set (hl_handles hl) \<and> holds (add_mset h M) L U w')"
proof (cases found)
  case None
  then show ?thesis using assms by (auto simp: handle_list_found_def intro: holds_event)
next
  case (Some he)
  obtain h e where he: "he = (h, e)" by force
  have h: "h \<in> set (hl_handles hl)" "h \<in># M" "ret = 1" using assms(2,3) Some he by auto
  have "holds (add_mset h M) L U (event_reset ev (handle_incref h (handle_finalize_event h e w)))"
    using assms(1) h(2) by (intro holds_event holds_incref holds_wait)
  then show ?thesis using assms(4) Some he h mset_move_head [OF h(1)] by (auto simp: handle_list_found_def Let_def)
qed

lemma handle_list_wait_holds:
  assumes "holds M L U w" "set (hl_handles hl) \<subseteq> set_mset M" "hl_event hl = None"
    "\<forall>wk \<in> set wks. honours_list M L U (hl\<lparr>hl_event := Some ev\<rparr>) wk" "handle_list_wait hl ev wks w = Some (ret, found, hl', w')"
  shows "hl_event hl' = None \<and> mset (hl_handles hl') = mset (hl_handles hl) \<and> (case found of
      None \<Rightarrow> ret < 0 \<and> holds M L U w'
    | Some (h, e) \<Rightarrow> ret = 0 \<and> h \<in> set (hl_handles hl) \<and> holds (add_mset h M) L U w')"
proof -
  let ?hl = "hl\<lparr>hl_event := Some ev\<rparr>"
  obtain r1 f1 w1 where p: "hlist_do_poll_locked ?hl True 0 (event_reset ev w) = (r1, f1, w1)" by (metis prod_cases3)
  have M: "set (hl_handles ?hl) \<subseteq> set_mset M" "hl_event ?hl = Some ev" using assms(2) by simp_all
  note h1 = do_poll_holds [OF holds_event [OF assms(1)] M p]
  show ?thesis
  proof (cases "r1 = 0")
    case False
    then have e: "handle_list_found ev r1 f1 ?hl w1 = (ret, found, hl', w')"
      using assms(3,5) p by (simp add: handle_list_wait_def kassert_def Let_def)
    have "case f1 of None \<Rightarrow> r1 < 0 | Some (h, e) \<Rightarrow> r1 = 1 \<and> h \<in> set (hl_handles ?hl)" using h1 False by (auto split: option.splits)
    from list_found_holds [OF _ M(1) this e, of L U] h1 show ?thesis by (cases f1) auto
  next
    case True
    then obtain r2 f2 hl2 w2 where l: "handle_list_wait_loop ev wks ?hl w1 = Some (r2, f2, hl2, w2)"
      and e: "handle_list_found ev r2 f2 hl2 (hlist_finish_wait_locked (hl_handles hl2) None w2) = (ret, found, hl', w')"
      using assms(3,5) p by (auto simp: handle_list_wait_def kassert_def Let_def split: option.splits)
    note h2 = list_wait_loop_holds [OF _ M assms(4) l]
    have "holds M L U w1" using h1 by simp
    note h2 = h2 [OF this]
    then have "holds M L U (hlist_finish_wait_locked (hl_handles hl2) None w2)" using finish_all_holds M(1) by blast
    from list_found_holds [OF this _ _ e] h2 M(1) show ?thesis by (cases f2) auto
  qed
qed

section \<open>The blocking calls keep the references\<close>

definition sys_ok :: "uctx \<Rightarrow> kst \<Rightarrow> bool" where
  "sys_ok ctx w \<longleftrightarrow> (\<exists>P. sys_inv ctx w P)"

lemma sys_ok_holds: "sys_ok ctx w \<longleftrightarrow> uctx_wf ctx (hlinked w) \<and> holds (urefs ctx) (set (installed ctx)) {} w"
  by (auto simp: sys_ok_def sys_inv_def holds_def uctx_wf_def)

lemma holds_wf: "uctx_wf ctx K \<Longrightarrow> holds M (set (installed ctx)) U w \<Longrightarrow> uctx_wf ctx (hlinked w)"
  by (auto simp: holds_def elim: uctx_wf_mono)

lemma holds_return:
  assumes "uctx_wf ctx K" "h \<in># urefs ctx" "holds (add_mset h (urefs ctx)) (set (installed ctx)) U w"
  shows "sys_ok ctx (handle_decref h w)"
proof -
  obtain P where "kreach w (add_mset h (urefs ctx + P))" using assms(3) by (auto simp: holds_def)
  then show ?thesis using return_ref [OF holds_wf [OF assms(1,3)] assms(2)] by (auto simp: sys_ok_def)
qed

lemma sys_wait_ok:
  assumes ok: "sys_ok ctx w" and r: "sys_wait ctx um i ue ev wks w = Some (r, um', w')"
    and o: "\<And>h wk. utab ctx i = Some h \<Longrightarrow> wk \<in> set wks \<Longrightarrow> honours (add_mset h (urefs ctx)) (set (installed ctx)) {} (wk_others wk)"
  shows "sys_ok ctx w'"
proof -
  obtain P where inv: "sys_inv ctx w P" using ok by (auto simp: sys_ok_def)
  obtain r1 w1 where e: "uctx_handle_get ctx i w = (r1, w1)" by force
  from inv e show ?thesis
  proof (cases rule: sys_get_cases)
    case (bad x)
    then show ?thesis using ok r e by (simp add: sys_wait_def)
  next
    case get: (ok h)
    have h1: "holds (add_mset h (urefs ctx)) (set (installed ctx)) {} w1" using get(4,6) by (auto simp: holds_def uctx_wf_def)
    obtain a w2 where a: "handle_wait (Some h) ev wks w1 = Some (a, w2)" using r e get(1) by (auto simp: sys_wait_def split: option.splits)
    have "holds (add_mset h (urefs ctx)) (set (installed ctx)) {} w2"
      using handle_wait_holds [OF h1 _ _ a] o [OF get(3)] by simp
    then have "sys_ok ctx (handle_decref h w2)" using holds_return get(4,5) by blast
    then show ?thesis using r e get(1) a by (cases a) (simp_all add: sys_wait_def split_beta Let_def)
  qed
qed

lemma sys_wait_any_ok:
  assumes ok: "sys_ok ctx w" and r: "sys_wait_any ctx um ue ev wks w = Some (r, ctx', um', w')"
    and o: "\<forall>wk \<in> set wks. honours_list (urefs ctx) (set (installed ctx)) {} ((uc_hlist ctx)\<lparr>hl_event := Some ev\<rparr>) wk"
  shows "sys_ok ctx' w'"
proof -
  have wf: "uctx_wf ctx (hlinked w)" and h: "holds (urefs ctx) (set (installed ctx)) {} w" using ok by (simp_all add: sys_ok_holds)
  have l: "set (hl_handles (uc_hlist ctx)) = set (installed ctx)" "hl_event (uc_hlist ctx) = None"
    using wf by (auto simp: uctx_wf_def dest: mset_eq_setD)
  obtain ret found hl w1 where a: "handle_list_wait (uc_hlist ctx) ev wks w = Some (ret, found, hl, w1)"
    using r by (auto simp: sys_wait_any_def split: option.splits)
  have h1: "hl_event hl = None \<and> mset (hl_handles hl) = mset (hl_handles (uc_hlist ctx)) \<and> (case found of
      None \<Rightarrow> ret < 0 \<and> holds (urefs ctx) (set (installed ctx)) {} w1
    | Some (h, e) \<Rightarrow> ret = 0 \<and> h \<in> set (hl_handles (uc_hlist ctx)) \<and> holds (add_mset h (urefs ctx)) (set (installed ctx)) {} w1)"
    using handle_list_wait_holds [OF h _ l(2) o a] l(1) by (simp add: urefs_def)
  let ?ctx = "ctx\<lparr>uc_hlist := hl\<rparr>"
  have c: "urefs ?ctx = urefs ctx" "installed ?ctx = installed ctx" by (simp_all add: urefs_def)
  have wf1: "uctx_wf ?ctx (hlinked w)" using wf h1 by (simp add: uctx_wf_def)
  show ?thesis
  proof (cases found)
    case None
    then have "ctx' = ?ctx" "w' = w1" using r a h1 by (auto simp: sys_wait_any_def Let_def)
    then show ?thesis using h1 None holds_wf [OF wf1] by (auto simp: sys_ok_holds c)
  next
    case (Some he)
    obtain g e where he: "he = (g, e)" by force
    have g: "ret = 0" "g \<in> set (installed ctx)" "holds (add_mset g (urefs ctx)) (set (installed ctx)) {} w1"
      using h1 Some he l(1) by auto
    then obtain i where i: "i < IPC_MAX_HANDLES" "uc_handles ctx ! i = Some g" using wf by (auto simp: set_somes uctx_wf_def)
    have "unat (handle_to_id_locked ?ctx (Some g)) < IPC_MAX_HANDLES"
    proof (cases "find (\<lambda>i. uc_handles ctx ! i = Some g) [0..<IPC_MAX_HANDLES]")
      case None
      then show ?thesis using i by (auto simp: find_None_iff)
    next
      case (Some j)
      then have "j < IPC_MAX_HANDLES" by (auto simp: find_Some_iff)
      then show ?thesis using Some by (simp add: handle_to_id_locked_def IPC_MAX_HANDLES_def unat_of_nat)
    qed
    then have "ctx' = ?ctx" "w' = handle_decref g w1" using r a Some he g(1)
      by (auto simp: sys_wait_any_def Let_def kassert_def split_beta)
    moreover have "sys_ok ?ctx (handle_decref g w1)" using holds_return [OF wf1] g(2,3) by (simp add: c urefs_def)
    ultimately show ?thesis by simp
  qed
qed

lemma holds_close: "holds (add_mset c M) L U w \<Longrightarrow> holds M L {} (handle_close c w)"
  unfolding holds_def by (auto intro: close_reach)

lemma connect_wait_holds:
  assumes "holds (add_mset c M) L {c} w" "connect_wait c ev wks wks' w = Some (r, w')"
    "\<forall>wk \<in> set (wks @ wks'). honours (add_mset c M) L {c} (wk_others wk)"
  shows "case r of Inl _ \<Rightarrow> holds M L {} w' | Inr _ \<Rightarrow> holds (add_mset c M) L {c} w'"
proof -
  have hw: "holds (add_mset c M) L {c} v \<Longrightarrow> handle_wait (Some c) ev ks v = Some (a, v') \<Longrightarrow> set ks \<subseteq> set (wks @ wks') \<Longrightarrow>
      holds (add_mset c M) L {c} v'" for v v' a ks
    by (rule handle_wait_holds [of _ _ _ v c ks]) (use assms(3) in auto)
  define a where "a = (case handle_wait (Some c) ev wks w of
              Some (Inl ERR_TIMED_OUT, w1) \<Rightarrow> handle_wait (Some c) ev wks' w1
            | r \<Rightarrow> r)"
  have 1: "holds (add_mset c M) L {c} v" if "a = Some (b, v)" for b v
  proof (cases "\<exists>w1. handle_wait (Some c) ev wks w = Some (Inl ERR_TIMED_OUT, w1)")
    case True
    then obtain w1 where w1: "handle_wait (Some c) ev wks w = Some (Inl ERR_TIMED_OUT, w1)" by blast
    then have "handle_wait (Some c) ev wks' w1 = Some (b, v)" using that by (simp add: a_def)
    then show ?thesis using hw [OF assms(1) w1] hw [of w1 wks' b v] by simp
  next
    case False
    then have "handle_wait (Some c) ev wks w = Some (b, v)"
      using that by (auto simp: a_def split: option.splits sum.splits err.splits)
    then show ?thesis using hw [OF assms(1)] by simp
  qed
  obtain b v where a: "a = Some (b, v)"
    using assms(2) unfolding connect_wait_def a_def [symmetric] by (cases a) auto
  have "(r = NO_ERROR \<and> w' = v) \<or> ((\<exists>e. r = Inl e) \<and> w' = handle_close c v)"
    using assms(2) unfolding connect_wait_def a_def [symmetric] a by (cases b) (auto split: if_splits)
  then show ?thesis using 1 [OF a] holds_close [OF 1 [OF a]] by auto
qed

lemma sys_connect_ok:
  assumes ok: "sys_ok ctx w" and r: "sys_connect uuid ctx um path flags ev wks wks' w = Some (r, ctx', w')"
    and o: "\<forall>wk \<in> set (wks @ wks'). honours (add_mset (next_addr w) (urefs ctx)) (set (installed ctx)) {next_addr w} (wk_others wk)"
  shows "sys_ok ctx' w'"
proof (cases "flags AND NOT IPC_CONNECT_MASK = 0 \<and> (\<exists>s l. strlcpy_from_user um path IPC_PORT_PATH_MAX = Inr (s, l) \<and> l < IPC_PORT_PATH_MAX)")
  case False
  then have "ctx' = ctx \<and> w' = w" using r by (auto simp: sys_connect_def not_less split: sum.splits prod.splits if_splits)
  then show ?thesis using ok by simp
next
  case True
  then obtain s l where s: "flags AND NOT IPC_CONNECT_MASK = 0" "strlcpy_from_user um path IPC_PORT_PATH_MAX = Inr (s, l)"
    "\<not> IPC_PORT_PATH_MAX \<le> l" by auto
  obtain P where wf: "uctx_wf ctx (hlinked w)" and k: "kreach w (urefs ctx + P)" using ok by (auto simp: sys_ok_def sys_inv_def)
  let ?I = "set (installed ctx)"
  obtain a w1 where a: "ipc_port_connect_async (Some uuid) s IPC_PORT_PATH_MAX flags w = (a, w1)" by force
  have l1: "hlinked w1 = (case a of Inl _ \<Rightarrow> hlinked w | Inr c \<Rightarrow> hlinked w - {c})"
    using hlinked_connect [of "Some uuid" s IPC_PORT_PATH_MAX flags w] a by simp
  show ?thesis
  proof (cases a)
    case (Inl e)
    then have "ctx' = ctx" "w' = w1" using r s a by (simp_all add: sys_connect_def)
    moreover have "kreach w1 (urefs ctx + P)" using kreach.step [OF k kstep.connect_fails] a Inl by blast
    ultimately show ?thesis using Inl l1 wf by (auto simp: sys_ok_def sys_inv_def)
  next
    case (Inr c)
    have c: "c = next_addr w" using connect_addr [of "Some uuid" s IPC_PORT_PATH_MAX flags w c] a Inr by simp
    have "c \<notin># urefs ctx" using fresh_held [OF k] c by simp
    then have wf1: "uctx_wf ctx (hlinked w1)" using wf_unlink wf l1 Inr by auto
    have "kreach w1 (add_mset c (urefs ctx + P))" using kreach.step [OF k kstep.connect] a Inr by blast
    then have h1: "holds (add_mset c (urefs ctx)) ?I {c} w1"
      using Inr l1 wf1 by (auto simp: holds_def uctx_wf_def)
    define b where "b = (if flags AND IPC_CONNECT_ASYNC = 0 then connect_wait c ev wks wks' w1 else Some (NO_ERROR, w1))"
    have eq: "sys_connect uuid ctx um path flags ev wks wks' w = (case b of
                 None \<Rightarrow> None
               | Some (Inl e, w2) \<Rightarrow> Some (Inl e, ctx, w2)
               | Some (Inr _, w2) \<Rightarrow>
                   (case uctx_handle_install ctx c w2 of
                      (Inl e, ctx3, w3) \<Rightarrow> Some (Inl e, ctx3, handle_close c w3)
                    | (Inr handle_id, ctx3, w3) \<Rightarrow> Some (Inr handle_id, ctx3, w3)))"
      using s a Inr by (simp add: sys_connect_def b_def)
    obtain d w2 where d: "b = Some (d, w2)" using r unfolding eq by (cases b) auto
    have h2: "case d of Inl _ \<Rightarrow> holds (urefs ctx) ?I {} w2 | Inr _ \<Rightarrow> holds (add_mset c (urefs ctx)) ?I {c} w2"
      using d h1 connect_wait_holds [OF h1] o c by (auto simp: b_def split: if_splits)
    show ?thesis
    proof (cases d)
      case Inl: (Inl e)
      then have "ctx' = ctx" "w' = w2" using r eq d by simp_all
      then show ?thesis using h2 Inl holds_wf [OF wf] by (auto simp: sys_ok_holds)
    next
      case conn: (Inr u)
      then have h2: "holds (add_mset c (urefs ctx)) ?I {c} w2" using h2 by simp
      then obtain Q where k2: "kreach w2 (add_mset c (urefs ctx + Q))" and n: "c \<notin> hlinked w2" by (auto simp: holds_def)
      note wf2 = holds_wf [OF wf h2]
      obtain f ctx3 w3 where f: "uctx_handle_install ctx c w2 = (f, ctx3, w3)" by (metis prod_cases3)
      note in3 = uctx_install_reach [OF wf2 n k2 f]
      show ?thesis
      proof (cases f)
        case (Inl e)
        then have "ctx' = ctx3" "w' = handle_close c w3" using r eq d conn f by simp_all
        moreover have "ctx3 = ctx" "w3 = w2" using in3(2) Inl by simp_all
        ultimately show ?thesis using holds_close [OF h2] holds_wf [OF wf holds_close [OF h2]] by (simp add: sys_ok_holds)
      next
        case (Inr i)
        then have "ctx' = ctx3" "w' = w3" using r eq d conn f by simp_all
        then show ?thesis using in3 Inr by (auto simp: sys_ok_def sys_inv_def)
      qed
    qed
  qed
qed

section \<open>What an application can reach\<close>

text \<open>
  An application starts with an empty context and makes system calls in any order with any
  arguments and any content of its memory; in between the other parties do as they like with what
  is theirs. Left out is what the kernel does not survive: publishing a port that turns a waiting
  client away, and messages on a channel that still waits for its port.
\<close>

inductive ureach :: "uuid_ptr \<Rightarrow> uctx \<Rightarrow> kst \<Rightarrow> bool" for uuid where
  boot: "kreach w P \<Longrightarrow> uctx_create priv w = (Inr ctx, w') \<Longrightarrow> ureach uuid ctx w'"
| others: "ureach uuid ctx w \<Longrightarrow> holds (urefs ctx) (set (installed ctx)) {} w' \<Longrightarrow> ureach uuid ctx w'"
| port_create: "ureach uuid ctx w \<Longrightarrow> sys_port_create uuid ctx um path n sz flags w = (r, ctx', w') \<Longrightarrow>
    (\<And>s l. strlcpy_from_user um path IPC_PORT_PATH_MAX = Inr (s, l) \<Longrightarrow> publish_guard s flags w) \<Longrightarrow> ureach uuid ctx' w'"
| connect: "ureach uuid ctx w \<Longrightarrow> sys_connect uuid ctx um path flags ev wks wks' w = Some (r, ctx', w') \<Longrightarrow>
    \<forall>wk \<in> set (wks @ wks'). honours (add_mset (next_addr w) (urefs ctx)) (set (installed ctx)) {next_addr w} (wk_others wk) \<Longrightarrow>
    ureach uuid ctx' w'"
| accepts: "ureach uuid ctx w \<Longrightarrow> sys_accept ctx um i uu w = (r, ctx', um', w') \<Longrightarrow> ureach uuid ctx' w'"
| wait: "ureach uuid ctx w \<Longrightarrow> sys_wait ctx um i ue ev wks w = Some (r, um', w') \<Longrightarrow>
    (\<And>h wk. utab ctx i = Some h \<Longrightarrow> wk \<in> set wks \<Longrightarrow> honours (add_mset h (urefs ctx)) (set (installed ctx)) {} (wk_others wk)) \<Longrightarrow>
    ureach uuid ctx w'"
| wait_any: "ureach uuid ctx w \<Longrightarrow> sys_wait_any ctx um ue ev wks w = Some (ret, ctx', um', w') \<Longrightarrow>
    \<forall>wk \<in> set wks. honours_list (urefs ctx) (set (installed ctx)) {} ((uc_hlist ctx)\<lparr>hl_event := Some ev\<rparr>) wk \<Longrightarrow>
    ureach uuid ctx' w'"
| close: "ureach uuid ctx w \<Longrightarrow> sys_close ctx i w = (u, ctx', w') \<Longrightarrow> ureach uuid ctx' w'"
| set_cookie: "ureach uuid ctx w \<Longrightarrow> sys_set_cookie ctx i ck w = (u, w') \<Longrightarrow> ureach uuid ctx w'"
| send: "ureach uuid ctx w \<Longrightarrow> sys_send_msg km ctx um i m w = (c, w') \<Longrightarrow> ureach uuid ctx w'"
| get: "ureach uuid ctx w \<Longrightarrow> (\<And>h. utab ctx i = Some h \<Longrightarrow> queue_ready w h) \<Longrightarrow>
    sys_get_msg ctx um i ui w = (u, um', w') \<Longrightarrow> ureach uuid ctx w'"
| put: "ureach uuid ctx w \<Longrightarrow> (\<And>h. utab ctx i = Some h \<Longrightarrow> queue_ready w h) \<Longrightarrow>
    sys_put_msg ctx i mid w = (u, w') \<Longrightarrow> ureach uuid ctx w'"
| read: "ureach uuid ctx w \<Longrightarrow> (\<And>h. utab ctx i = Some h \<Longrightarrow> queue_ready w h) \<Longrightarrow>
    sys_read_msg km ctx um i mid off m w = (c, km', um', w') \<Longrightarrow> ureach uuid ctx w'"

lemma sys_okI: "sys_inv ctx w P \<Longrightarrow> sys_ok ctx w"
  by (auto simp: sys_ok_def)

lemma ureach_ok: "ureach uuid ctx w \<Longrightarrow> sys_ok ctx w"
proof (induction rule: ureach.induct)
  case (boot w P priv ctx w')
  obtain A where "w' = w\<lparr>allocs := A\<rparr>" using uctx_create_wf(3) [OF boot(2)] by blast
  then have "kreach w' P" using boot(1) by (auto intro: kreach.step kstep.memory)
  then show ?case using uctx_create_wf(1,2) [OF boot(2)] by (auto simp: sys_ok_def sys_inv_def)
next
  case (others ctx w w')
  then show ?case using holds_wf by (auto simp: sys_ok_holds)
next
  case (port_create ctx w um path n sz flags r ctx' w')
  then show ?case unfolding sys_ok_def using sys_port_create_inv by blast
next
  case (connect ctx w um path flags ev wks wks' r ctx' w')
  then show ?case using sys_connect_ok by blast
next
  case (accepts ctx w um i uu r ctx' um' w')
  then show ?case unfolding sys_ok_def using sys_accept_inv by blast
next
  case (wait ctx w um i ue ev wks r um' w')
  then show ?case using sys_wait_ok by blast
next
  case (wait_any ctx w um ue ev wks ret ctx' um' w')
  then show ?case using sys_wait_any_ok by blast
next
  case (close ctx w i u ctx' w')
  then show ?case unfolding sys_ok_def using sys_close_inv by blast
next
  case (set_cookie ctx w i ck u w')
  then show ?case unfolding sys_ok_def using sys_set_cookie_inv by blast
next
  case (send ctx w km um i m c w')
  then show ?case unfolding sys_ok_def using sys_send_msg_inv by blast
next
  case (get ctx w i um ui u um' w')
  then show ?case unfolding sys_ok_def using sys_get_msg_inv by blast
next
  case (put ctx w i mid u w')
  then show ?case unfolding sys_ok_def using sys_put_msg_inv by blast
next
  case (read ctx w i km um mid off m c km' um' w')
  then show ?case unfolding sys_ok_def using sys_read_msg_inv by blast
qed


text \<open>C14: an application that ends leaves nothing behind: destroying its context gives up exactly the
  references of its table, and when nobody else held one, every port and every channel is freed.\<close>

theorem app_exit_releases_all:
  assumes "sys_inv ctx w P"
  shows "kreach (uctx_destroy ctx w) P \<and> (P = {#} \<longrightarrow> chans (uctx_destroy ctx w) = Map.empty \<and> ports (uctx_destroy ctx w) = Map.empty)"
proof -
  have "kreach (uctx_destroy ctx w) P" using assms uctx_destroy_reach by (auto simp: sys_inv_def)
  then show ?thesis using no_refs_no_objects by blast
qed

section \<open>A concrete application\<close>

text \<open>It creates a port named by the string at address 0.\<close>

definition app_um :: umem where
  "app_um = \<lparr>um_bytes = [0 \<mapsto> 97, 1 \<mapsto> 0], um_writable = (\<lambda>_. True)\<rparr>"
definition app_call :: "u32 res \<times> uctx \<times> kst" where
  "app_call = sys_port_create (APP_UUID [1]) demo_ctx app_um 0 1 4 3 init_kst"

lemma app_path: "strlcpy_from_user app_um 0 IPC_PORT_PATH_MAX = Inr ([97], 1)"
  by (simp add: strlcpy_from_user_def user_string.simps app_um_def IPC_PORT_PATH_MAX_def)

definition app_installed :: "u32 res \<times> uctx \<times> kst" where
  "app_installed = uctx_handle_install demo_ctx 1 run_created"

lemma app_call_eq: "app_call = (Inr 0, fst (snd app_installed), snd (ipc_port_publish 1 (snd (snd app_installed))))"
proof -
  have "fst (ipc_port_create (Some (APP_UUID [1])) [97] 1 4 3 init_kst) = Inr 1" by code_simp
  then have c: "ipc_port_create (Some (APP_UUID [1])) [97] 1 4 3 init_kst = (Inr 1, run_created)" by (simp add: run_created_def pair_snd)
  have "fst app_installed = Inr 0" by code_simp
  then obtain ctx2 w2 where i: "uctx_handle_install demo_ctx 1 run_created = (Inr 0, ctx2, w2)" "app_installed = (Inr 0, ctx2, w2)"
    by (cases app_installed) (auto simp: app_installed_def)
  have "fst (ipc_port_publish 1 (snd (snd app_installed))) = NO_ERROR" by code_simp
  then obtain w3 where p: "ipc_port_publish 1 w2 = (NO_ERROR, w3)" by (cases "ipc_port_publish 1 w2") (simp add: i(2))
  have "\<not> IPC_PORT_PATH_MAX \<le> 1" by (simp add: IPC_PORT_PATH_MAX_def)
  then show ?thesis unfolding i(2) using app_path c p i(1) by (simp add: app_call_def sys_port_create_def)
qed

lemma app_inv: "sys_inv (fst (snd app_call)) (snd (snd app_call)) {#}"
proof (rule sys_port_create_inv)
  show "sys_inv demo_ctx init_kst {#}"
    using uctx_create_wf [OF demo_ctx_create] kreach.start by (simp add: sys_inv_def)
  show "sys_port_create (APP_UUID [1]) demo_ctx app_um 0 1 4 3 init_kst = (fst app_call, fst (snd app_call), snd (snd app_call))"
    by (simp add: app_call_def)
qed (simp add: publish_guard_def init_kst_def)


theorem app_exit_releases_all_witness:
  "ports (snd (snd app_call)) \<noteq> Map.empty \<and> ports (uctx_destroy (fst (snd app_call)) (snd (snd app_call))) = Map.empty"
proof -
  have "ports (snd (ipc_port_publish 1 (snd (snd app_installed)))) 1 \<noteq> None" by code_simp
  then have "ports (snd (snd app_call)) 1 \<noteq> None" by (simp add: app_call_eq)
  then show ?thesis using app_exit_releases_all [OF app_inv] by (metis option.discI)
qed

end
