(* ===== verification/Vqueue.thy ===== *)
theory Vqueue
  imports Uio
begin

text \<open>
  The virtqueues (\<^verbatim>\<open>lk/trusty/lib/trusty/vqueue.c\<close>) through which the non-secure world and the TIPC
  device exchange buffers, the layout of their rings (\<^verbatim>\<open>virtio/virtio_ring.h\<close>) and the mapping of
  physical memory they use (\<^verbatim>\<open>external/lk/kernel/vm/vmm.c\<close>). The rings lie in memory that the
  non-secure world writes at any time: every load from them is a value of its own in
  the argument of type \<open>ns_view\<close>, and nothing is assumed about these values.
\<close>

section \<open>How an operation ends\<close>

text \<open>
  It returns; it is still blocked when the wake-ups it was given are used up; it
  stops in a call of \<^verbatim>\<open>panic\<close>; or it accesses memory that is not there, or divides by zero.
\<close>

datatype 'a outcome = Done 'a | Blocked | Panic | Fault

fun bind_outcome :: "'a outcome \<Rightarrow> ('a \<Rightarrow> 'b outcome) \<Rightarrow> 'b outcome" where
  "bind_outcome (Done x) f = f x"
| "bind_outcome Blocked f = Blocked"
| "bind_outcome Panic f = Panic"
| "bind_outcome Fault f = Fault"

section \<open>Mapping physical memory\<close>

definition PAGE_SIZE :: u32 where "PAGE_SIZE = 4096"

definition ROUNDUP :: "u32 \<Rightarrow> u32 \<Rightarrow> u32" where
  "ROUNDUP a b = (a + (b - 1)) AND NOT (b - 1)"

record region =
  r_base :: u32
  r_size :: u32
  r_paddr :: u32

text \<open>
  \<open>vm_spots\<close> are the addresses at which the coming searches for a free range of kernel
  addresses look first; a search whose range is not free there, or for which no address is left,
  fails.
\<close>

record vmm =
  vm_spots :: "u32 list"
  vm_regions :: "region list"

definition free_spot :: "region list \<Rightarrow> u32 \<Rightarrow> u32 \<Rightarrow> bool" where
  "free_spot rs va sz \<longleftrightarrow> va \<noteq> 0 \<and> unat va + unat sz \<le> 2 ^ 32 \<and>
     (\<forall>r \<in> set rs. unat va + unat sz \<le> unat (r_base r) \<or> unat (r_base r) + unat (r_size r) \<le> unat va)"

text \<open>
  The value that comes with success is the pointer left in \<^verbatim>\<open>*ptr\<close>, which every caller
  initialises to null: a request of size 0 succeeds without storing one.
\<close>

definition vmm_alloc_physical :: "u32 \<Rightarrow> u32 \<Rightarrow> vmm \<Rightarrow> u32 res \<times> vmm" where
  "vmm_alloc_physical sz paddr vm =
     (if sz = 0 then (Inr 0, vm)
      else if paddr AND (PAGE_SIZE - 1) \<noteq> 0 \<or> sz AND (PAGE_SIZE - 1) \<noteq> 0 then (Inl ERR_INVALID_ARGS, vm)
      else case vm_spots vm of
        [] \<Rightarrow> (Inl ERR_NO_MEMORY, vm)
      | va # vs \<Rightarrow>
          if free_spot (vm_regions vm) va sz
          then (Inr va, vm\<lparr>vm_spots := vs, vm_regions := \<lparr>r_base = va, r_size = sz, r_paddr = paddr\<rparr> # vm_regions vm\<rparr>)
          else (Inl ERR_NO_MEMORY, vm\<lparr>vm_spots := vs\<rparr>))"

definition in_region :: "u32 \<Rightarrow> region \<Rightarrow> bool" where
  "in_region va r \<longleftrightarrow> r_base r \<le> va \<and> va \<le> r_base r + r_size r - 1"

fun remove_first :: "('a \<Rightarrow> bool) \<Rightarrow> 'a list \<Rightarrow> 'a list" where
  "remove_first p [] = []"
| "remove_first p (x # xs) = (if p x then xs else x # remove_first p xs)"

definition vmm_free_region :: "u32 \<Rightarrow> vmm \<Rightarrow> unit res \<times> vmm" where
  "vmm_free_region va vm =
     (if \<exists>r \<in> set (vm_regions vm). in_region va r
      then (NO_ERROR, vm\<lparr>vm_regions := remove_first (in_region va) (vm_regions vm)\<rparr>)
      else (Inl ERR_NOT_FOUND, vm))"

text \<open>An access to \<open>n\<close> bytes at \<open>a\<close> lies in a mapped region.\<close>

definition mapped :: "vmm \<Rightarrow> u32 \<Rightarrow> nat \<Rightarrow> bool" where
  "mapped vm a n \<longleftrightarrow> (\<exists>r \<in> set (vm_regions vm).
     unat (r_base r) \<le> unat a \<and> unat a + n \<le> unat (r_base r) + unat (r_size r))"

section \<open>The rings\<close>

abbreviation VRING_DESC_F_NEXT :: u16 where "VRING_DESC_F_NEXT \<equiv> 1"
abbreviation VRING_DESC_F_WRITE :: u16 where "VRING_DESC_F_WRITE \<equiv> 2"
abbreviation VRING_USED_F_NO_NOTIFY :: u16 where "VRING_USED_F_NO_NOTIFY \<equiv> 1"

record vring =
  vr_num :: u32
  vr_desc :: u32
  vr_avail :: u32
  vr_used :: u32

definition vring_init :: "u32 \<Rightarrow> u32 \<Rightarrow> u32 \<Rightarrow> vring" where
  "vring_init num p align =
     (let avail = p + num * 16
      in \<lparr>vr_num = num, vr_desc = p, vr_avail = avail,
          vr_used = (avail + 4 + 2 * num + 2 + align - 1) AND NOT (align - 1)\<rparr>)"

definition vring_size :: "u32 \<Rightarrow> u32 \<Rightarrow> u32" where
  "vring_size num align = ((16 * num + 2 * (3 + num) + align - 1) AND NOT (align - 1)) + 2 * 3 + 8 * num"

text \<open>The loads from one descriptor in one pass of the loop; the length and the flags are loaded twice.\<close>

record desc_loads =
  dl_flags :: u16
  dl_len :: u32
  dl_addr :: u64
  dl_len2 :: u32
  dl_next :: u16
  dl_flags2 :: u16

text \<open>
  The loads of one call: the three loads of \<^verbatim>\<open>avail->idx\<close>, the load of \<^verbatim>\<open>avail->ring[i]\<close>, and
  those from descriptor \<open>i\<close> in pass \<open>k\<close>.
\<close>

record ns_view =
  nv_idx :: u16
  nv_idx2 :: u16
  nv_idx3 :: u16
  nv_ring :: "nat \<Rightarrow> u16"
  nv_desc :: "nat \<Rightarrow> nat \<Rightarrow> desc_loads"

record vqueue =
  vq_id :: u32
  vq_vring :: vring
  vring_addr :: u32
  vring_sz :: u32
  last_avail_idx :: u16
  avail_event :: bool
  vq_notify :: bool
  used_flags :: u16
  used_idx :: u16
  used_ring :: "nat \<Rightarrow> u32 \<times> u32"

record vqueue_iovs =
  vi_cnt :: nat
  vi_used :: nat
  vi_len :: u32
  vi_phys :: "u32 list"
  vi_iovs :: "iovec_kern list"

record vqueue_buf =
  vb_head :: u16
  in_iovs :: vqueue_iovs
  out_iovs :: vqueue_iovs

section \<open>Setting up and tearing down\<close>

text \<open>
  When the ring cannot be mapped the code also calls \<^verbatim>\<open>free(vq)\<close>; the last component says that
  it did.
\<close>

definition vqueue_init :: "u32 \<Rightarrow> u32 \<Rightarrow> u32 \<Rightarrow> u32 \<Rightarrow> bool \<Rightarrow> vqueue \<Rightarrow> vmm \<Rightarrow> unit res \<times> vqueue \<times> vmm \<times> bool" where
  "vqueue_init ident paddr num align notify_cb vq vm =
     (let vq1 = vq\<lparr>vring_sz := vring_size num align\<rparr>
      in case vmm_alloc_physical (ROUNDUP (vring_sz vq1) PAGE_SIZE) paddr vm of
           (Inl e, vm1) \<Rightarrow> (Inl e, vq1, vm1, True)
         | (Inr vptr, vm1) \<Rightarrow>
             (NO_ERROR, vq1\<lparr>vq_vring := vring_init num vptr align, vq_id := ident, vq_notify := notify_cb,
                            vring_addr := vptr, avail_event := False\<rparr>, vm1, False))"

definition vqueue_destroy :: "vqueue \<Rightarrow> vmm \<Rightarrow> vqueue \<times> vmm" where
  "vqueue_destroy vq vm =
     (vq\<lparr>vring_addr := 0, vring_sz := 0\<rparr>, snd (vmm_free_region (vring_addr vq) vm))"

definition vqueue_signal_avail :: "vqueue \<Rightarrow> vqueue" where
  "vqueue_signal_avail vq =
     (let vq1 = (if vring_addr vq \<noteq> 0 then vq\<lparr>used_flags := used_flags vq OR VRING_USED_F_NO_NOTIFY\<rparr> else vq)
      in vq1\<lparr>avail_event := True\<rparr>)"

section \<open>Taking a buffer\<close>

text \<open>The descriptor goes to the list that its write flag selects.\<close>

definition iovs_add :: "desc_loads \<Rightarrow> vqueue_iovs \<Rightarrow> vqueue_iovs" where
  "iovs_add d l =
     (let i = vi_used l
      in l\<lparr>vi_iovs := (vi_iovs l)[i := (vi_iovs l ! i)\<lparr>iov_len := dl_len d\<rparr>],
           vi_phys := (vi_phys l)[i := ucast (dl_addr d)],
           vi_used := i + 1, vi_len := vi_len l + dl_len2 d\<rparr>)"

function vqueue_chain ::
    "(nat \<Rightarrow> nat \<Rightarrow> desc_loads) \<Rightarrow> u32 \<Rightarrow> nat \<Rightarrow> u16 \<Rightarrow> vqueue_buf \<Rightarrow> unit res \<times> vqueue_buf" where
  "vqueue_chain desc num k next_idx buf =
     (if unat num \<le> unat next_idx then (Inl ERR_NOT_VALID, buf)
      else
        let d = desc k (unat next_idx); wr = dl_flags d AND VRING_DESC_F_WRITE \<noteq> 0;
            l = (if wr then out_iovs buf else in_iovs buf)
        in if vi_used l < vi_cnt l
           then let buf' = (if wr then buf\<lparr>out_iovs := iovs_add d l\<rparr> else buf\<lparr>in_iovs := iovs_add d l\<rparr>)
                in if dl_flags2 d AND VRING_DESC_F_NEXT \<noteq> 0
                   then vqueue_chain desc num (Suc k) (dl_next d) buf'
                   else (NO_ERROR, buf')
           else (Inl ERR_TOO_BIG, buf))"
  by pat_completeness auto
termination
  by (relation "measure (\<lambda>(desc, num, k, next_idx, buf).
        (vi_cnt (in_iovs buf) - vi_used (in_iovs buf)) + (vi_cnt (out_iovs buf) - vi_used (out_iovs buf)))")
    (auto simp: iovs_add_def Let_def split: if_splits)

definition vqueue_get_avail_buf :: "ns_view \<Rightarrow> vqueue \<Rightarrow> vqueue_buf \<Rightarrow> (unit res \<times> vqueue \<times> vqueue_buf) outcome" where
  "vqueue_get_avail_buf nv vq iovbuf =
     (let num = vr_num (vq_vring vq); idx = last_avail_idx vq in
      if vring_addr vq = 0 then Done (Inl ERR_CHANNEL_CLOSED, vq, iovbuf)
      else if (ucast num :: u16) < nv_idx nv - idx then Panic
      else
        let vq1 = (if idx = nv_idx2 nv
                   then vq\<lparr>avail_event := False, used_flags := used_flags vq AND NOT VRING_USED_F_NO_NOTIFY\<rparr>
                   else vq)
        in if idx = nv_idx2 nv \<and> idx = nv_idx3 nv then Done (Inl ERR_NOT_ENOUGH_BUFFER, vq1, iovbuf)
           else if num = 0 then Fault
           else
             let vq2 = (if idx = nv_idx2 nv
                        then vq1\<lparr>used_flags := used_flags vq1 OR VRING_USED_F_NO_NOTIFY, avail_event := True\<rparr>
                        else vq1);
                 next_idx = nv_ring nv (unat idx mod unat num);
                 vq3 = vq2\<lparr>last_avail_idx := idx + 1\<rparr>
             in if unat num \<le> unat next_idx then Panic
                else
                  let buf0 = iovbuf\<lparr>vb_head := next_idx,
                               in_iovs := (in_iovs iovbuf)\<lparr>vi_used := 0, vi_len := 0\<rparr>,
                               out_iovs := (out_iovs iovbuf)\<lparr>vi_used := 0, vi_len := 0\<rparr>\<rparr>;
                      (ret, buf1) = vqueue_chain (nv_desc nv) num 0 next_idx buf0
                  in Done (ret, vq3, buf1))"

section \<open>Mapping the buffers\<close>

text \<open>The error path walks back from the segment that failed.\<close>

fun vqueue_map_undo :: "nat \<Rightarrow> iovec_kern list \<Rightarrow> vmm \<Rightarrow> iovec_kern list \<times> vmm" where
  "vqueue_map_undo 0 iovs vm = (iovs, vm)"
| "vqueue_map_undo (Suc i) iovs vm =
     vqueue_map_undo i (iovs[i := (iovs ! i)\<lparr>iov_base := 0\<rparr>]) (snd (vmm_free_region (iov_base (iovs ! i)) vm))"

function vqueue_map_loop ::
    "nat \<Rightarrow> nat \<Rightarrow> u32 list \<Rightarrow> iovec_kern list \<Rightarrow> vmm \<Rightarrow> unit res \<times> iovec_kern list \<times> vmm" where
  "vqueue_map_loop i used phys iovs vm =
     (if used \<le> i then (NO_ERROR, iovs, vm)
      else case vmm_alloc_physical (ROUNDUP (iov_len (iovs ! i)) PAGE_SIZE) (phys ! i) vm of
          (Inl e, vm1) \<Rightarrow> (Inl e, vqueue_map_undo i (iovs[i := (iovs ! i)\<lparr>iov_base := 0\<rparr>]) vm1)
        | (Inr va, vm1) \<Rightarrow> vqueue_map_loop (Suc i) used phys (iovs[i := (iovs ! i)\<lparr>iov_base := va\<rparr>]) vm1)"
  by pat_completeness auto
termination by (relation "measure (\<lambda>(i, used, _). used - i)") auto

definition vqueue_map_iovs :: "vqueue_iovs \<Rightarrow> vmm \<Rightarrow> unit res \<times> vqueue_iovs \<times> vmm" where
  "vqueue_map_iovs l vm =
     (let (ret, iovs, vm1) = vqueue_map_loop 0 (vi_used l) (vi_phys l) (vi_iovs l) vm
      in (ret, l\<lparr>vi_iovs := iovs\<rparr>, vm1))"

fun vqueue_unmap_loop :: "iovec_kern list \<Rightarrow> vmm \<Rightarrow> iovec_kern list \<times> vmm" where
  "vqueue_unmap_loop [] vm = ([], vm)"
| "vqueue_unmap_loop (v # vs) vm =
     (let (vs', vm') = vqueue_unmap_loop vs (snd (vmm_free_region (iov_base v) vm))
      in (v\<lparr>iov_base := 0\<rparr> # vs', vm'))"

definition vqueue_unmap_iovs :: "vqueue_iovs \<Rightarrow> vmm \<Rightarrow> vqueue_iovs \<times> vmm" where
  "vqueue_unmap_iovs l vm =
     (let (vs, vm1) = vqueue_unmap_loop (take (vi_used l) (vi_iovs l)) vm
      in (l\<lparr>vi_iovs := vs @ drop (vi_used l) (vi_iovs l)\<rparr>, vm1))"

section \<open>Returning a buffer\<close>

definition vqueue_add_buf :: "vqueue \<Rightarrow> vqueue_buf \<Rightarrow> u32 \<Rightarrow> unit res \<times> vqueue" where
  "vqueue_add_buf vq buf len =
     (let num = vr_num (vq_vring vq) in
      if vring_addr vq = 0 then (Inl ERR_CHANNEL_CLOSED, vq)
      else if unat num \<le> unat (vb_head buf) then (Inl ERR_NOT_VALID, vq)
      else (NO_ERROR, vq\<lparr>used_ring := (used_ring vq)(unat (used_idx vq) mod unat num := (ucast (vb_head buf), len)),
                         used_idx := used_idx vq + 1\<rparr>))"

definition vqueue_notify :: "vqueue \<Rightarrow> (vqueue \<Rightarrow> vqueue) \<Rightarrow> vqueue" where
  "vqueue_notify vq cb = (if vq_notify vq then cb vq else vq)"

declare vqueue_chain.simps [simp del] vqueue_map_loop.simps [simp del]

section \<open>A descriptor chain ends\<close>

text \<open>The room left in a buffer bounds the passes of the loop.\<close>

definition iovs_room :: "vqueue_iovs \<Rightarrow> nat" where
  "iovs_room l = vi_cnt l - vi_used l"

lemma iovs_add_simps [simp]:
  "vi_cnt (iovs_add d l) = vi_cnt l" "vi_used (iovs_add d l) = Suc (vi_used l)"
  "length (vi_iovs (iovs_add d l)) = length (vi_iovs l)" "length (vi_phys (iovs_add d l)) = length (vi_phys l)"
  by (simp_all add: iovs_add_def Let_def)

lemma vqueue_chain_reads:
  assumes "\<And>j i. k \<le> j \<Longrightarrow> j \<le> k + iovs_room (in_iovs buf) + iovs_room (out_iovs buf) \<Longrightarrow> i < unat num \<Longrightarrow> desc j i = desc' j i"
  shows "vqueue_chain desc num k next_idx buf = vqueue_chain desc' num k next_idx buf"
  using assms
proof (induction desc num k next_idx buf rule: vqueue_chain.induct)
  case (1 desc num k next_idx buf)
  show ?case
  proof (cases "unat num \<le> unat next_idx")
    case True
    then show ?thesis by (simp add: vqueue_chain.simps)
  next
    case False
    let ?d = "desc k (unat next_idx)"
    let ?wr = "dl_flags ?d AND VRING_DESC_F_WRITE \<noteq> 0"
    let ?l = "if ?wr then out_iovs buf else in_iovs buf"
    let ?buf = "if ?wr then buf\<lparr>out_iovs := iovs_add ?d ?l\<rparr> else buf\<lparr>in_iovs := iovs_add ?d ?l\<rparr>"
    have d: "desc' k (unat next_idx) = ?d" using 1(2) [of k "unat next_idx"] False by simp
    have "vqueue_chain desc num (Suc k) (dl_next ?d) ?buf = vqueue_chain desc' num (Suc k) (dl_next ?d) ?buf"
      if u: "vi_used ?l < vi_cnt ?l" and n: "dl_flags2 ?d AND VRING_DESC_F_NEXT \<noteq> 0"
    proof (rule 1(1) [OF False refl refl refl u refl n])
      fix j i assume "Suc k \<le> j" "j \<le> Suc k + iovs_room (in_iovs ?buf) + iovs_room (out_iovs ?buf)" "i < unat num"
      then show "desc j i = desc' j i" using 1(2) [of j i] u by (cases ?wr) (auto simp: iovs_room_def)
    qed
    then show ?thesis using False d
      by (simp add: vqueue_chain.simps [of desc] vqueue_chain.simps [of desc'] Let_def)
  qed
qed

lemma chain_head: "vqueue_chain desc num k i buf = (r, buf') \<Longrightarrow> vb_head buf' = vb_head buf"
proof (induction desc num k i buf rule: vqueue_chain.induct)
  case (1 desc num k i buf)
  then show ?case by (auto simp: vqueue_chain.simps [of desc num k i buf] Let_def split: if_splits)
qed

text \<open>The arrays of a list of segments have the advertised size and the used part lies in them.\<close>

definition iovs_wf :: "vqueue_iovs \<Rightarrow> bool" where
  "iovs_wf l \<longleftrightarrow> vi_used l \<le> vi_cnt l \<and> length (vi_iovs l) = vi_cnt l \<and> length (vi_phys l) = vi_cnt l"

definition buf_wf :: "vqueue_buf \<Rightarrow> bool" where
  "buf_wf b \<longleftrightarrow> iovs_wf (in_iovs b) \<and> iovs_wf (out_iovs b)"

definition buf_used :: "vqueue_buf \<Rightarrow> nat" where
  "buf_used b = vi_used (in_iovs b) + vi_used (out_iovs b)"

lemma iovs_wf_add: "iovs_wf l \<Longrightarrow> vi_used l < vi_cnt l \<Longrightarrow> iovs_wf (iovs_add d l)"
  by (simp add: iovs_wf_def)

lemma vqueue_chain_wf:
  assumes "vqueue_chain desc num k next_idx buf = (r, buf')" "buf_wf buf"
  shows "buf_wf buf' \<and> vi_cnt (in_iovs buf') = vi_cnt (in_iovs buf) \<and> vi_cnt (out_iovs buf') = vi_cnt (out_iovs buf) \<and>
    vb_head buf' = vb_head buf \<and> buf_used buf \<le> buf_used buf' \<and> (r = NO_ERROR \<longrightarrow> buf_used buf < buf_used buf')"
  using assms
proof (induction desc num k next_idx buf rule: vqueue_chain.induct)
  case (1 desc num k next_idx buf)
  let ?d = "desc k (unat next_idx)"
  let ?wr = "dl_flags ?d AND VRING_DESC_F_WRITE \<noteq> 0"
  let ?l = "if ?wr then out_iovs buf else in_iovs buf"
  let ?buf = "if ?wr then buf\<lparr>out_iovs := iovs_add ?d ?l\<rparr> else buf\<lparr>in_iovs := iovs_add ?d ?l\<rparr>"
  have b: "buf_wf ?buf \<and> vi_cnt (in_iovs ?buf) = vi_cnt (in_iovs buf) \<and> vi_cnt (out_iovs ?buf) = vi_cnt (out_iovs buf) \<and>
      vb_head ?buf = vb_head buf \<and> buf_used buf < buf_used ?buf" if "vi_used ?l < vi_cnt ?l"
    using that 1(3) by (cases ?wr) (auto simp: buf_wf_def buf_used_def iovs_wf_add)
  show ?case
  proof (cases "\<not> unat num \<le> unat next_idx \<and> vi_used ?l < vi_cnt ?l \<and> dl_flags2 ?d AND VRING_DESC_F_NEXT \<noteq> 0")
    case True
    then have t: "\<not> unat num \<le> unat next_idx" "vi_used ?l < vi_cnt ?l" "dl_flags2 ?d AND VRING_DESC_F_NEXT \<noteq> 0" by auto
    have "vqueue_chain desc num (Suc k) (dl_next ?d) ?buf = (r, buf')"
      using 1(2) t by (simp add: vqueue_chain.simps [of desc num k] Let_def)
    from 1(1) [OF t(1) refl refl refl t(2) refl t(3) this] show ?thesis using b t(2) by auto
  next
    case False
    then have "(r = Inl ERR_NOT_VALID \<or> r = Inl ERR_TOO_BIG) \<and> buf' = buf \<or> r = NO_ERROR \<and> buf' = ?buf \<and> vi_used ?l < vi_cnt ?l"
      using 1(2) by (simp add: vqueue_chain.simps [of desc num k] Let_def split: if_splits)
    then show ?thesis
    proof
      assume "(r = Inl ERR_NOT_VALID \<or> r = Inl ERR_TOO_BIG) \<and> buf' = buf"
      then show ?thesis using 1(3) by auto
    next
      assume "r = NO_ERROR \<and> buf' = ?buf \<and> vi_used ?l < vi_cnt ?l"
      then show ?thesis using b less_imp_le by blast
    qed
  qed
qed

text \<open>The state of the buffer and of the queue before the chain is read.\<close>

definition buf_reset :: "u16 \<Rightarrow> vqueue_buf \<Rightarrow> vqueue_buf" where
  "buf_reset h b = b\<lparr>vb_head := h, in_iovs := (in_iovs b)\<lparr>vi_used := 0, vi_len := 0\<rparr>,
     out_iovs := (out_iovs b)\<lparr>vi_used := 0, vi_len := 0\<rparr>\<rparr>"

lemma get_avail_cases:
  assumes "vqueue_get_avail_buf nv vq buf = Done (r, vq', buf')"
  obtains (closed) "vring_addr vq = 0" "r = Inl ERR_CHANNEL_CLOSED" "vq' = vq" "buf' = buf"
  | (empty) f where "vring_addr vq \<noteq> 0" "last_avail_idx vq = nv_idx3 nv" "r = Inl ERR_NOT_ENOUGH_BUFFER"
      "vq' = vq\<lparr>avail_event := False, used_flags := f\<rparr>" "buf' = buf"
  | (taken) f e h where "vring_addr vq \<noteq> 0" "vr_num (vq_vring vq) \<noteq> 0"
      "vq' = vq\<lparr>avail_event := e, used_flags := f, last_avail_idx := last_avail_idx vq + 1\<rparr>"
      "h = nv_ring nv (unat (last_avail_idx vq) mod unat (vr_num (vq_vring vq)))" "unat h < unat (vr_num (vq_vring vq))"
      "(r, buf') = vqueue_chain (nv_desc nv) (vr_num (vq_vring vq)) 0 h (buf_reset h buf)"
proof (cases "vring_addr vq = 0")
  case True
  then have "r = Inl ERR_CHANNEL_CLOSED \<and> vq' = vq \<and> buf' = buf" using assms by (auto simp: vqueue_get_avail_buf_def)
  then show ?thesis using that(1) True by blast
next
  case a: False
  let ?num = "vr_num (vq_vring vq)"
  let ?h = "nv_ring nv (unat (last_avail_idx vq) mod unat ?num)"
  have np: "\<not> (ucast ?num :: u16) < nv_idx nv - last_avail_idx vq"
  proof
    assume "(ucast ?num :: u16) < nv_idx nv - last_avail_idx vq"
    then show False using assms a by (simp add: vqueue_get_avail_buf_def)
  qed
  show ?thesis
  proof (cases "last_avail_idx vq = nv_idx2 nv \<and> last_avail_idx vq = nv_idx3 nv")
    case True
    then have "r = Inl ERR_NOT_ENOUGH_BUFFER \<and> buf' = buf \<and>
        vq' = vq\<lparr>avail_event := False, used_flags := used_flags vq AND NOT VRING_USED_F_NO_NOTIFY\<rparr>"
      using assms a np by (auto simp: vqueue_get_avail_buf_def)
    then show ?thesis using that(2) a True by blast
  next
    case ne: False
    have n: "?num \<noteq> 0"
    proof
      assume "?num = 0"
      then show False using assms a np ne by (simp add: vqueue_get_avail_buf_def Let_def split: if_splits)
    qed
    have h: "unat ?h < unat ?num"
    proof (rule ccontr)
      assume "\<not> ?thesis"
      then show False using assms a np ne n by (simp add: vqueue_get_avail_buf_def Let_def split: if_splits)
    qed
    obtain r2 b2 where c: "vqueue_chain (nv_desc nv) ?num 0 ?h (buf_reset ?h buf) = (r2, b2)" by force
    have *: "Done (r, vq', buf') = Done (r2, (if last_avail_idx vq = nv_idx2 nv
        then vq\<lparr>avail_event := True, used_flags := used_flags vq AND NOT VRING_USED_F_NO_NOTIFY OR VRING_USED_F_NO_NOTIFY\<rparr> else vq)
        \<lparr>last_avail_idx := last_avail_idx vq + 1\<rparr>, b2)"
      unfolding assms [symmetric] using a np ne n h c
      by (cases "last_avail_idx vq = nv_idx2 nv") (simp_all add: vqueue_get_avail_buf_def Let_def buf_reset_def)
    then have q: "vq' = (if last_avail_idx vq = nv_idx2 nv
        then vq\<lparr>avail_event := True, used_flags := used_flags vq AND NOT VRING_USED_F_NO_NOTIFY OR VRING_USED_F_NO_NOTIFY\<rparr> else vq)
        \<lparr>last_avail_idx := last_avail_idx vq + 1\<rparr>" and r: "(r, buf') = (r2, b2)" by simp_all
    have "\<exists>e f. vq' = vq\<lparr>avail_event := e, used_flags := f, last_avail_idx := last_avail_idx vq + 1\<rparr>"
    proof (cases "last_avail_idx vq = nv_idx2 nv")
      case False
      then have "vq' = vq\<lparr>avail_event := avail_event vq, used_flags := used_flags vq, last_avail_idx := last_avail_idx vq + 1\<rparr>"
        using q by simp
      then show ?thesis by blast
    qed (use q in auto)
    then show ?thesis using a n h c r that(3) by metis
  qed
qed

lemma buf_reset_simps [simp]:
  "vb_head (buf_reset h b) = h" "vi_cnt (in_iovs (buf_reset h b)) = vi_cnt (in_iovs b)"
  "vi_cnt (out_iovs (buf_reset h b)) = vi_cnt (out_iovs b)" "buf_used (buf_reset h b) = 0"
  "buf_wf b \<Longrightarrow> buf_wf (buf_reset h b)"
  by (simp_all add: buf_reset_def buf_used_def buf_wf_def iovs_wf_def)

text \<open>C33: Taking a buffer from a ring that the non-secure world controls ends after at most as many
  descriptors as the caller has room for, plus one, and never loads a descriptor or a ring slot
  whose index is not below the size of the ring: two views that agree on those loads give the
  same result, however the descriptors are chained.
\<close>

theorem vqueue_reads_bounded:
  assumes "\<forall>k \<le> vi_cnt (in_iovs buf) + vi_cnt (out_iovs buf). \<forall>i < unat (vr_num (vq_vring vq)). nv_desc nv k i = nv_desc nv' k i"
    "\<forall>i < unat (vr_num (vq_vring vq)). nv_ring nv i = nv_ring nv' i"
    "nv_idx nv = nv_idx nv'" "nv_idx2 nv = nv_idx2 nv'" "nv_idx3 nv = nv_idx3 nv'"
  shows "vqueue_get_avail_buf nv vq buf = vqueue_get_avail_buf nv' vq buf"
proof (cases "vr_num (vq_vring vq) = 0")
  case True
  then show ?thesis using assms(3-5) by (auto simp: vqueue_get_avail_buf_def Let_def)
next
  case False
  let ?num = "vr_num (vq_vring vq)"
  let ?i = "unat (last_avail_idx vq) mod unat ?num"
  have "unat ?num \<noteq> 0" using False by (simp add: unat_eq_0)
  then have r: "nv_ring nv ?i = nv_ring nv' ?i" using assms(2) by simp
  have "vqueue_chain (nv_desc nv) ?num 0 h (buf_reset h buf) = vqueue_chain (nv_desc nv') ?num 0 h (buf_reset h buf)" for h
    using assms(1) by (intro vqueue_chain_reads) (auto simp: iovs_room_def)
  note chain = this [unfolded buf_reset_def]
  show ?thesis unfolding vqueue_get_avail_buf_def Let_def by (simp only: r chain assms(3-5))
qed

text \<open>C34: A buffer that was taken has its head inside the ring and at least one segment, its segments
  fit the caller's arrays, and exactly one entry of the avail ring was consumed.
\<close>

theorem vqueue_get_avail_buf_ok:
  assumes "vqueue_get_avail_buf nv vq buf = Done (NO_ERROR, vq', buf')" "buf_wf buf"
  shows "buf_wf buf' \<and> 0 < buf_used buf' \<and> unat (vb_head buf') < unat (vr_num (vq_vring vq)) \<and>
    last_avail_idx vq' = last_avail_idx vq + 1 \<and> vi_cnt (in_iovs buf') = vi_cnt (in_iovs buf) \<and>
    vi_cnt (out_iovs buf') = vi_cnt (out_iovs buf)"
  using assms(1)
proof (cases rule: get_avail_cases)
  case (taken f e h)
  then show ?thesis using vqueue_chain_wf [OF taken(6) [symmetric]] assms(2) by auto
qed auto

text \<open>A ring of four entries whose counter is about to wrap around, and a descriptor chained to itself.\<close>

definition demo_vq :: vqueue where
  "demo_vq = \<lparr>vq_id = 7, vq_vring = vring_init 4 0x100000 4096, vring_addr = 0x100000, vring_sz = 0x1026,
     last_avail_idx = 0xFFFE, avail_event = True, vq_notify = True, used_flags = 1, used_idx = 0xFFFF,
     used_ring = (\<lambda>_. (0, 0))\<rparr>"

definition demo_iovs :: vqueue_iovs where
  "demo_iovs = \<lparr>vi_cnt = 1, vi_used = 0, vi_len = 0, vi_phys = [0], vi_iovs = [\<lparr>iov_base = 0, iov_len = 0\<rparr>]\<rparr>"

definition demo_buf :: vqueue_buf where
  "demo_buf = \<lparr>vb_head = 0, in_iovs = demo_iovs, out_iovs = demo_iovs\<lparr>vi_cnt := 0, vi_phys := [], vi_iovs := []\<rparr>\<rparr>"

definition demo_desc :: "u16 \<Rightarrow> u32 \<Rightarrow> desc_loads" where
  "demo_desc flags len = \<lparr>dl_flags = flags, dl_len = len, dl_addr = 0x80001000, dl_len2 = len, dl_next = 0, dl_flags2 = flags\<rparr>"

definition demo_view :: "(nat \<Rightarrow> nat \<Rightarrow> desc_loads) \<Rightarrow> ns_view" where
  "demo_view d = \<lparr>nv_idx = 1, nv_idx2 = 1, nv_idx3 = 1, nv_ring = (\<lambda>i. word_of_nat (3 - i)), nv_desc = d\<rparr>"

lemmas demo_vq_defs = demo_vq_def demo_iovs_def demo_buf_def demo_desc_def demo_view_def vring_init_def

lemma demo_buf_wf: "buf_wf demo_buf"
  by (simp add: demo_vq_defs buf_wf_def iovs_wf_def)

theorem vqueue_reads_bounded_witness:
  "vqueue_get_avail_buf (demo_view (\<lambda>_ _. demo_desc VRING_DESC_F_NEXT 64)) demo_vq demo_buf =
   vqueue_get_avail_buf (demo_view (\<lambda>k i. if k \<le> 1 \<and> i < 4 then demo_desc VRING_DESC_F_NEXT 64 else demo_desc 0 0)) demo_vq demo_buf \<and>
   (\<exists>vq' buf'. vqueue_get_avail_buf (demo_view (\<lambda>_ _. demo_desc VRING_DESC_F_NEXT 64)) demo_vq demo_buf =
      Done (Inl ERR_TOO_BIG, vq', buf'))"
proof
  show "vqueue_get_avail_buf (demo_view (\<lambda>_ _. demo_desc VRING_DESC_F_NEXT 64)) demo_vq demo_buf =
    vqueue_get_avail_buf (demo_view (\<lambda>k i. if k \<le> 1 \<and> i < 4 then demo_desc VRING_DESC_F_NEXT 64 else demo_desc 0 0)) demo_vq demo_buf"
    by (rule vqueue_reads_bounded) (simp_all add: demo_vq_defs)
qed (simp add: demo_vq_defs vqueue_get_avail_buf_def vqueue_chain.simps iovs_add_def)

theorem vqueue_get_avail_buf_ok_witness:
  "\<exists>vq' buf'. vqueue_get_avail_buf (demo_view (\<lambda>_ _. demo_desc 0 64)) demo_vq demo_buf = Done (NO_ERROR, vq', buf') \<and>
     buf_wf buf' \<and> unat (vb_head buf') < 4 \<and> last_avail_idx vq' = 0xFFFF"
proof -
  obtain vq' buf' where g: "vqueue_get_avail_buf (demo_view (\<lambda>_ _. demo_desc 0 64)) demo_vq demo_buf = Done (NO_ERROR, vq', buf')"
    by (simp add: demo_vq_defs vqueue_get_avail_buf_def vqueue_chain.simps iovs_add_def)
  show ?thesis using vqueue_get_avail_buf_ok [OF g demo_buf_wf] g by (auto simp: demo_vq_def vring_init_def)
qed

end
