(* ===== verification/Vqueue_Ring.thy ===== *)
theory Vqueue_Ring
  imports Vqueue
begin

text \<open>
  What the virtqueues of \<^verbatim>\<open>vqueue.c\<close> give their users: buffers are taken and returned in ring order
  across the wrap-around of the 16-bit counters, mappings are undone, the accesses stay in the
  mapped ring; and where the code does not keep this up.
\<close>

section \<open>Buffers in order\<close>

text \<open>Take a buffer and return it, once for every length of the list.\<close>

fun vq_serve :: "ns_view \<Rightarrow> u32 list \<Rightarrow> vqueue \<Rightarrow> vqueue_buf \<Rightarrow> vqueue outcome" where
  "vq_serve nv [] vq buf = Done vq"
| "vq_serve nv (len # lens) vq buf =
     bind_outcome (vqueue_get_avail_buf nv vq buf) (\<lambda>(r, vq1, buf1). vq_serve nv lens (snd (vqueue_add_buf vq1 buf1 len)) buf1)"

lemma unat_add_lt: "unat (a :: u16) + n < 65536 \<Longrightarrow> unat (a + word_of_nat n) = unat a + n"
  by (simp add: unat_word_ariths unat_of_nat)

lemma unat_wrap_mod:
  assumes "m dvd 65536"
  shows "unat (a + word_of_nat n :: u16) mod m = (unat a + n) mod m"
proof -
  have "unat (a + word_of_nat n) = (unat a + n) mod 65536"
    by (simp add: unat_word_ariths unat_of_nat mod_add_right_eq)
  then show ?thesis using assms by (simp add: mod_mod_cancel)
qed

lemma u16_Suc: "(1 :: u16) + word_of_nat n = word_of_nat (Suc n)"
  by simp

text \<open>One round on a ring in a stable state with a pending entry.\<close>

lemma get_avail_pending:
  assumes "vring_addr vq \<noteq> 0" "nv_idx2 nv = nv_idx nv" "nv_idx nv - last_avail_idx vq = word_of_nat (Suc n)"
    "Suc n \<le> unat num" "unat num < 65536" "num = vr_num (vq_vring vq)"
    "h = nv_ring nv (unat (last_avail_idx vq) mod unat num)" "unat h < unat num"
  shows "\<exists>r vq' buf'. vqueue_get_avail_buf nv vq buf = Done (r, vq', buf') \<and>
    vq' = vq\<lparr>last_avail_idx := last_avail_idx vq + 1\<rparr> \<and> vb_head buf' = h"
proof -
  obtain r b where c: "vqueue_chain (nv_desc nv) num 0 h (buf_reset h buf) = (r, b)" by force
  have num: "unat (ucast num :: u16) = unat num" using assms(5) by (simp add: unsigned_ucast_eq take_bit_nat_eq_self)
  have "\<not> (ucast num :: u16) < nv_idx nv - last_avail_idx vq"
    unfolding word_less_nat_alt num assms(3) using assms(4,5) by (simp add: unat_of_nat del: of_nat_Suc)
  moreover have "last_avail_idx vq \<noteq> nv_idx2 nv"
  proof
    assume "last_avail_idx vq = nv_idx2 nv"
    then have "unat (word_of_nat (Suc n) :: u16) = unat (0 :: u16)" using assms(2,3) by simp
    then show False using assms(4,5) by (simp add: unat_of_nat del: of_nat_Suc)
  qed
  moreover have "num \<noteq> 0" using assms(8) by auto
  ultimately have "vqueue_get_avail_buf nv vq buf = Done (r, vq\<lparr>last_avail_idx := last_avail_idx vq + 1\<rparr>, b)"
    using assms(1,6-8) c by (simp add: vqueue_get_avail_buf_def Let_def buf_reset_def)
  moreover have "vb_head b = h" using chain_head [OF c] by simp
  ultimately show ?thesis by blast
qed

lemma vq_serve_run:
  assumes "vring_addr vq \<noteq> 0" "nv_idx2 nv = nv_idx nv" "nv_idx nv - last_avail_idx vq = word_of_nat (length lens)"
    "length lens \<le> unat num" "unat num < 65536" "unat num dvd 65536" "num = vr_num (vq_vring vq)"
    "\<forall>i < unat num. unat (nv_ring nv i) < unat num"
  shows "\<exists>vq'. vq_serve nv lens vq buf = Done vq' \<and> last_avail_idx vq' = nv_idx nv \<and> vring_addr vq' = vring_addr vq \<and>
    used_idx vq' = used_idx vq + word_of_nat (length lens) \<and> vq_vring vq' = vq_vring vq \<and>
    (\<forall>j < length lens. used_ring vq' ((unat (used_idx vq) + j) mod unat num) =
       (ucast (nv_ring nv ((unat (last_avail_idx vq) + j) mod unat num)), lens ! j)) \<and>
    (\<forall>s. (\<forall>j < length lens. s \<noteq> (unat (used_idx vq) + j) mod unat num) \<longrightarrow> used_ring vq' s = used_ring vq s)"
  using assms
proof (induction lens arbitrary: vq buf)
  case Nil
  then show ?case by auto
next
  case (Cons len lens)
  let ?h = "nv_ring nv (unat (last_avail_idx vq) mod unat num)"
  let ?u = "unat (used_idx vq) mod unat num"
  have pos: "0 < unat num" using Cons(5) by simp
  have h: "unat ?h < unat num" using Cons(9) pos by simp
  obtain r vq1 buf1 where g: "vqueue_get_avail_buf nv vq buf = Done (r, vq1, buf1)"
    "vq1 = vq\<lparr>last_avail_idx := last_avail_idx vq + 1\<rparr>" "vb_head buf1 = ?h"
    using get_avail_pending [OF Cons(2,3) _ _ Cons(6,8) refl h, where n = "length lens" and buf = buf] Cons(4,5)
    by (metis length_Cons)
  let ?vq = "snd (vqueue_add_buf vq1 buf1 len)"
  have v: "?vq = vq\<lparr>last_avail_idx := last_avail_idx vq + 1,
      used_ring := (used_ring vq)(?u := (ucast ?h, len)), used_idx := used_idx vq + 1\<rparr>"
    using g h Cons(2,8) by (simp add: vqueue_add_buf_def Let_def)
  have i: "nv_idx nv - last_avail_idx ?vq = word_of_nat (length lens)" using Cons(4) v by (simp add: algebra_simps)
  have "\<exists>vq'. vq_serve nv lens ?vq buf1 = Done vq' \<and> last_avail_idx vq' = nv_idx nv \<and> vring_addr vq' = vring_addr ?vq \<and>
    used_idx vq' = used_idx ?vq + word_of_nat (length lens) \<and> vq_vring vq' = vq_vring ?vq \<and>
    (\<forall>j < length lens. used_ring vq' ((unat (used_idx ?vq) + j) mod unat num) =
       (ucast (nv_ring nv ((unat (last_avail_idx ?vq) + j) mod unat num)), lens ! j)) \<and>
    (\<forall>s. (\<forall>j < length lens. s \<noteq> (unat (used_idx ?vq) + j) mod unat num) \<longrightarrow> used_ring vq' s = used_ring ?vq s)"
    using Cons(2-9) v i by (intro Cons(1)) simp_all
  then obtain vq' where q: "vq_serve nv lens ?vq buf1 = Done vq'" "last_avail_idx vq' = nv_idx nv" "vring_addr vq' = vring_addr ?vq"
    "used_idx vq' = used_idx ?vq + word_of_nat (length lens)" "vq_vring vq' = vq_vring ?vq"
    "\<forall>j < length lens. used_ring vq' ((unat (used_idx ?vq) + j) mod unat num) =
       (ucast (nv_ring nv ((unat (last_avail_idx ?vq) + j) mod unat num)), lens ! j)"
    "\<forall>s. (\<forall>j < length lens. s \<noteq> (unat (used_idx ?vq) + j) mod unat num) \<longrightarrow> used_ring vq' s = used_ring ?vq s" by blast
  have f: "vring_addr ?vq = vring_addr vq" "used_idx ?vq = used_idx vq + 1" "last_avail_idx ?vq = last_avail_idx vq + 1"
    "vq_vring ?vq = vq_vring vq" "used_ring ?vq = (used_ring vq)(?u := (ucast ?h, len))" by (simp_all add: v)
  have q6: "used_ring vq' ((unat (used_idx vq + 1) + j) mod unat num) =
      (ucast (nv_ring nv ((unat (last_avail_idx vq + 1) + j) mod unat num)), lens ! j)" if "j < length lens" for j
    using q(6) that unfolding f by blast
  have q7: "used_ring vq' s = ((used_ring vq)(?u := (ucast ?h, len))) s"
    if "\<And>j. j < length lens \<Longrightarrow> s \<noteq> (unat (used_idx vq + 1) + j) mod unat num" for s
    using q(7) that unfolding f by blast
  have m: "(unat (a + 1) + j) mod unat num = (unat a + Suc j) mod unat num" for a :: u16 and j
  proof -
    have "unat (a + 1) mod unat num = (unat a + 1) mod unat num" using unat_wrap_mod [OF Cons(7), of a 1] by simp
    from mod_add_cong [OF this refl, of j] show ?thesis by simp
  qed
  have fresh: "?u \<noteq> (unat (used_idx vq) + Suc j) mod unat num" if "j < length lens" for j
  proof
    assume "?u = (unat (used_idx vq) + Suc j) mod unat num"
    then have "unat num dvd Suc j" using mod_eq_dvd_iff_nat [of "unat (used_idx vq)" "unat (used_idx vq) + Suc j" "unat num"] by simp
    then show False using that Cons(5) dvd_imp_le [of "unat num" "Suc j"] by simp
  qed
  have "used_ring vq' ?u = (ucast ?h, len)" using q7 [of ?u] fresh by (simp add: m)
  then have "used_ring vq' ((unat (used_idx vq) + j) mod unat num) =
       (ucast (nv_ring nv ((unat (last_avail_idx vq) + j) mod unat num)), (len # lens) ! j)" if "j < length (len # lens)" for j
    using that q6 [of "j - 1"] by (cases j) (simp_all add: m)
  moreover have "used_ring vq' s = used_ring vq s" if "\<forall>j < length (len # lens). s \<noteq> (unat (used_idx vq) + j) mod unat num" for s
  proof -
    have "s \<noteq> ?u" using that [rule_format, of 0] by simp
    moreover have "s \<noteq> (unat (used_idx vq + 1) + j) mod unat num" if "j < length lens" for j
      using \<open>\<forall>j < length (len # lens). _\<close> [rule_format, of "Suc j"] that by (simp add: m)
    ultimately show ?thesis using q7 [of s] by simp
  qed
  moreover have "vq_serve nv (len # lens) vq buf = Done vq'" using g(1) q(1) by simp
  moreover have "used_idx vq' = used_idx vq + word_of_nat (length (len # lens))" using q(4) unfolding f by simp
  ultimately show ?case using q(2,3,5) unfolding f by blast
qed

text \<open>C35: On a ring that is at rest, with \<open>n\<close> entries pending and every head inside the ring, \<open>n\<close> rounds of
  taking a buffer and returning it serve the entries in ring order: the \<open>j\<close>th used element carries
  the head of the \<open>j\<close>th pending entry and the length it was returned with, across the wrap-around of
  both counters; and the ring is then empty.
\<close>

theorem vqueue_serves_in_order:
  assumes "vring_addr vq \<noteq> 0" "nv_idx2 nv = nv_idx nv" "nv_idx3 nv = nv_idx nv" "num = vr_num (vq_vring vq)"
    "nv_idx nv - last_avail_idx vq = word_of_nat (length lens)" "length lens \<le> unat num"
    "unat num < 65536" "unat num dvd 65536" "\<forall>i < unat num. unat (nv_ring nv i) < unat num"
  shows "\<exists>vq' vq''. vq_serve nv lens vq buf = Done vq' \<and> last_avail_idx vq' = nv_idx nv \<and>
    used_idx vq' = used_idx vq + word_of_nat (length lens) \<and>
    (\<forall>j < length lens. used_ring vq' ((unat (used_idx vq) + j) mod unat num) =
       (ucast (nv_ring nv ((unat (last_avail_idx vq) + j) mod unat num)), lens ! j)) \<and>
    vqueue_get_avail_buf nv vq' buf = Done (Inl ERR_NOT_ENOUGH_BUFFER, vq'', buf)"
proof -
  obtain vq' where q: "vq_serve nv lens vq buf = Done vq'" "last_avail_idx vq' = nv_idx nv" "vring_addr vq' = vring_addr vq"
    "used_idx vq' = used_idx vq + word_of_nat (length lens)"
    "\<forall>j < length lens. used_ring vq' ((unat (used_idx vq) + j) mod unat num) =
       (ucast (nv_ring nv ((unat (last_avail_idx vq) + j) mod unat num)), lens ! j)"
    using vq_serve_run [OF assms(1,2,5,6,7,8,4,9)] by blast
  obtain vq'' where "vqueue_get_avail_buf nv vq' buf = Done (Inl ERR_NOT_ENOUGH_BUFFER, vq'', buf)"
    using q(2,3) assms(1-3) by (simp add: vqueue_get_avail_buf_def Let_def)
  then show ?thesis using q by blast
qed

theorem vqueue_serves_in_order_witness:
  "\<exists>vq'. vq_serve (demo_view (\<lambda>_ _. demo_desc 0 64)) [10, 20, 30] demo_vq demo_buf = Done vq' \<and>
     last_avail_idx vq' = 1 \<and> used_idx vq' = 2 \<and>
     used_ring vq' 3 = (1, 10) \<and> used_ring vq' 0 = (0, 20) \<and> used_ring vq' 1 = (3, 30)"
proof -
  let ?nv = "demo_view (\<lambda>_ _. demo_desc 0 64)"
  have p: "vring_addr demo_vq \<noteq> 0" "nv_idx2 ?nv = nv_idx ?nv" "nv_idx3 ?nv = nv_idx ?nv" "4 = vr_num (vq_vring demo_vq)"
    "nv_idx ?nv - last_avail_idx demo_vq = word_of_nat (length [10 :: u32, 20, 30])"
    "length [10 :: u32, 20, 30] \<le> unat (4 :: u32)" "unat (4 :: u32) < 65536" "unat (4 :: u32) dvd 65536"
    by (simp_all add: demo_vq_defs)
  have ring: "\<forall>i < unat (4 :: u32). unat (nv_ring ?nv i) < unat (4 :: u32)"
    by (auto simp: demo_view_def unat_of_nat simp del: of_nat_diff)
  obtain vq' where q: "vq_serve ?nv [10, 20, 30] demo_vq demo_buf = Done vq'" "last_avail_idx vq' = nv_idx ?nv"
    "used_idx vq' = used_idx demo_vq + word_of_nat (length [10 :: u32, 20, 30])"
    "\<forall>j < length [10 :: u32, 20, 30]. used_ring vq' ((unat (used_idx demo_vq) + j) mod unat (4 :: u32)) =
       (ucast (nv_ring ?nv ((unat (last_avail_idx demo_vq) + j) mod unat (4 :: u32))), [10, 20, 30] ! j)"
    using vqueue_serves_in_order [OF p ring, of demo_buf] by blast
  have "last_avail_idx vq' = 1" "used_idx vq' = 2" using q(2,3) by (simp_all add: demo_vq_defs)
  moreover have "used_ring vq' 3 = (1, 10)" using q(4) [rule_format, of 0] by (simp add: demo_vq_defs)
  moreover have "used_ring vq' 0 = (0, 20)" using q(4) [rule_format, of 1] by (simp add: demo_vq_defs)
  moreover have "used_ring vq' 1 = (3, 30)" using q(4) [rule_format, of 2] by (simp add: demo_vq_defs)
  ultimately show ?thesis using q(1) by blast
qed

section \<open>Mappings are undone\<close>

definition region_ok :: "region \<Rightarrow> bool" where
  "region_ok r \<longleftrightarrow> r_base r \<noteq> 0 \<and> r_size r \<noteq> 0 \<and> unat (r_base r) + unat (r_size r) \<le> 2 ^ 32"

definition apart :: "region \<Rightarrow> region \<Rightarrow> bool" where
  "apart r s \<longleftrightarrow> unat (r_base r) + unat (r_size r) \<le> unat (r_base s) \<or> unat (r_base s) + unat (r_size s) \<le> unat (r_base r)"

fun regions_ok :: "region list \<Rightarrow> bool" where
  "regions_ok [] = True"
| "regions_ok (r # rs) = (region_ok r \<and> (\<forall>s \<in> set rs. apart r s) \<and> regions_ok rs)"

lemma regions_ok_append:
  "regions_ok (rs @ ss) \<longleftrightarrow> regions_ok rs \<and> regions_ok ss \<and> (\<forall>r \<in> set rs. \<forall>s \<in> set ss. apart r s)"
  by (induction rs) auto

lemma regions_ok_region: "regions_ok rs \<Longrightarrow> r \<in> set rs \<Longrightarrow> region_ok r"
  by (induction rs) auto

lemma in_region_unat:
  assumes "region_ok r"
  shows "in_region va r \<longleftrightarrow> unat (r_base r) \<le> unat va \<and> unat va < unat (r_base r) + unat (r_size r)"
proof -
  have s: "1 \<le> unat (r_size r)" using assms by (simp add: region_ok_def Suc_le_eq unat_gt_0)
  have e: "r_base r + r_size r - 1 = word_of_nat (unat (r_base r) + unat (r_size r) - 1)"
    using s by (simp add: of_nat_diff)
  have "unat (r_base r + r_size r - 1) = unat (r_base r) + unat (r_size r) - 1"
    unfolding e by (subst unat_of_nat, rule mod_less) (use assms s in \<open>auto simp: region_ok_def\<close>)
  then show ?thesis using s by (auto simp: in_region_def word_le_nat_alt)
qed

lemma free_own:
  assumes "regions_ok (xs @ r # ys)" "vm_regions vm = xs @ r # ys"
  shows "snd (vmm_free_region (r_base r) vm) = vm\<lparr>vm_regions := xs @ ys\<rparr>"
proof -
  have r: "region_ok r" using assms by (simp add: regions_ok_append)
  then have i: "in_region (r_base r) r" by (simp add: in_region_unat) (simp add: region_ok_def unat_gt_0)
  have "\<not> in_region (r_base r) x" if "x \<in> set xs" for x
  proof -
    have "region_ok x" "apart x r" using assms that regions_ok_region by (auto simp: regions_ok_append)
    moreover have "0 < unat (r_size r)" using r by (simp add: region_ok_def unat_gt_0)
    ultimately show ?thesis by (auto simp: in_region_unat apart_def)
  qed
  then have "remove_first (in_region (r_base r)) (xs @ r # ys) = xs @ ys" using i by (induction xs) auto
  then show ?thesis using i assms(2) by (simp add: vmm_free_region_def)
qed

lemma free_null:
  assumes "regions_ok (vm_regions vm)"
  shows "snd (vmm_free_region 0 vm) = vm"
proof -
  have "\<not> in_region 0 r" if "r \<in> set (vm_regions vm)" for r
    using regions_ok_region [OF assms that] by (auto simp: in_region_def region_ok_def)
  then show ?thesis by (simp add: vmm_free_region_def)
qed

lemma alloc_cases:
  assumes "vmm_alloc_physical sz pa vm = (r, vm')" "regions_ok (vm_regions vm)"
  obtains (zero) "sz = 0" "r = Inr 0" "vm' = vm"
  | (fail) e where "r = Inl e" "vm_regions vm' = vm_regions vm"
  | (placed) va where "sz \<noteq> 0" "r = Inr va" "vm_regions vm' = \<lparr>r_base = va, r_size = sz, r_paddr = pa\<rparr> # vm_regions vm"
      "regions_ok (vm_regions vm')"
proof (cases "sz = 0")
  case True
  then have "r = Inr 0 \<and> vm' = vm" using assms(1) by (auto simp: vmm_alloc_physical_def)
  then show ?thesis using zero True by blast
next
  case False
  show ?thesis
  proof (cases r)
    case (Inl e)
    then have "vm_regions vm' = vm_regions vm"
      using assms(1) by (auto simp: vmm_alloc_physical_def split: if_splits list.splits)
    then show ?thesis using fail Inl by blast
  next
    case (Inr va)
    then have f: "free_spot (vm_regions vm) va sz"
        "vm_regions vm' = \<lparr>r_base = va, r_size = sz, r_paddr = pa\<rparr> # vm_regions vm"
      using assms(1) False by (auto simp: vmm_alloc_physical_def split: if_splits list.splits)
    then have "regions_ok (vm_regions vm')"
      using assms(2) False by (auto simp: region_ok_def apart_def free_spot_def)
    then show ?thesis using placed Inr False f by blast
  qed
qed

text \<open>The regions that belong to a list of segments and their physical addresses.\<close>

definition seg_region :: "u32 \<Rightarrow> iovec_kern \<Rightarrow> region list" where
  "seg_region p v = (let sz = ROUNDUP (iov_len v) PAGE_SIZE
     in if sz = 0 then [] else [\<lparr>r_base = iov_base v, r_size = sz, r_paddr = p\<rparr>])"

definition seg_regions :: "u32 list \<Rightarrow> iovec_kern list \<Rightarrow> region list" where
  "seg_regions ps vs = concat (map (\<lambda>(p, v). seg_region p v) (zip ps vs))"

definition null_segs :: "iovec_kern list \<Rightarrow> bool" where
  "null_segs vs \<longleftrightarrow> (\<forall>v \<in> set vs. ROUNDUP (iov_len v) PAGE_SIZE = 0 \<longrightarrow> iov_base v = 0)"

lemma seg_regions_simps [simp]:
  "seg_regions [] [] = []" "seg_regions (p # ps) (v # vs) = seg_region p v @ seg_regions ps vs"
  "length ps = length vs \<Longrightarrow> seg_regions (ps @ [p]) (vs @ [v]) = seg_regions ps vs @ seg_region p v"
  by (simp_all add: seg_regions_def)

text \<open>Freeing the region of a segment, wherever it is in the list.\<close>

lemma free_seg:
  assumes "regions_ok (vm_regions vm)" "vm_regions vm = xs @ seg_region p v @ ys" "null_segs [v]"
  shows "vm_regions (snd (vmm_free_region (iov_base v) vm)) = xs @ ys"
proof (cases "ROUNDUP (iov_len v) PAGE_SIZE = 0")
  case True
  then show ?thesis using assms free_null [of vm] by (simp add: null_segs_def seg_region_def)
next
  case False
  let ?r = "\<lparr>r_base = iov_base v, r_size = ROUNDUP (iov_len v) PAGE_SIZE, r_paddr = p\<rparr>"
  have "vm_regions vm = xs @ ?r # ys" using assms(2) False by (simp add: seg_region_def Let_def)
  then show ?thesis using free_own [of xs ?r ys vm] assms(1) by simp
qed

lemma regions_ok_drop: "regions_ok (xs @ ys @ zs) \<Longrightarrow> regions_ok (xs @ zs)"
  by (auto simp: regions_ok_append)

lemma map_undo_regions:
  assumes "regions_ok (vm_regions vm)" "vm_regions vm = rev (seg_regions (take i ps) (take i vs)) @ R"
    "null_segs (take i vs)" "i \<le> length vs" "i \<le> length ps"
  shows "vm_regions (snd (vqueue_map_undo i vs vm)) = R"
  using assms
proof (induction i arbitrary: vs vm)
  case 0
  then show ?case by (simp add: seg_regions_def)
next
  case (Suc i)
  let ?vm = "snd (vmm_free_region (iov_base (vs ! i)) vm)"
  have t: "take (Suc i) vs = take i vs @ [vs ! i]" "take (Suc i) ps = take i ps @ [ps ! i]"
    using Suc.prems(4,5) by (simp_all add: take_Suc_conv_app_nth)
  have r: "vm_regions vm = [] @ seg_region (ps ! i) (vs ! i) @ rev (seg_regions (take i ps) (take i vs)) @ R"
    using Suc.prems(2,4,5) t by (simp add: seg_region_def Let_def)
  have n: "null_segs [vs ! i]" "null_segs (take i vs)" using Suc.prems(3) t by (auto simp: null_segs_def)
  have f: "vm_regions ?vm = rev (seg_regions (take i ps) (take i vs)) @ R"
    using free_seg [OF Suc.prems(1) r n(1)] by simp
  moreover have "regions_ok (vm_regions ?vm)"
    using regions_ok_drop [of "[]"] Suc.prems(1) unfolding f r by simp
  ultimately have "vm_regions (snd (vqueue_map_undo i (vs[i := (vs ! i)\<lparr>iov_base := 0\<rparr>]) ?vm)) = R"
    using n Suc.prems(4,5) by (intro Suc.IH) simp_all
  then show ?case by simp
qed

lemma unmap_regions:
  assumes "regions_ok (vm_regions vm)" "vm_regions vm = rev (seg_regions ps vs) @ R" "null_segs vs" "length ps = length vs"
  shows "vm_regions (snd (vqueue_unmap_loop vs vm)) = R"
  using assms
proof (induction vs arbitrary: ps vm)
  case Nil
  then show ?case by simp
next
  case (Cons v vs)
  let ?vm = "snd (vmm_free_region (iov_base v) vm)"
  obtain p ps' where ps: "ps = p # ps'" using Cons.prems(4) by (cases ps) auto
  have r: "vm_regions vm = rev (seg_regions ps' vs) @ seg_region p v @ R"
    using Cons.prems(2) ps by (simp add: seg_region_def Let_def)
  have n: "null_segs [v]" "null_segs vs" using Cons.prems(3) by (auto simp: null_segs_def)
  have f: "vm_regions ?vm = rev (seg_regions ps' vs) @ R" using free_seg [OF Cons.prems(1) r n(1)] .
  moreover have "regions_ok (vm_regions ?vm)" using regions_ok_drop Cons.prems(1) unfolding f r by blast
  ultimately show ?case using Cons.IH [of ?vm ps'] n Cons.prems(4) ps by (simp add: split_beta)
qed

section \<open>Rounding to pages\<close>

lemma and_not_page: "unat ((w :: u32) AND NOT 4095) = unat w div 4096 * 4096"
proof -
  have lt: "unat w < 2 ^ 32" using unsigned_less [of w, where ?'a = nat] by simp
  have m: "(4095 :: u32) = mask 12" by (simp add: mask_eq_exp_minus_1)
  have "w AND NOT 4095 = push_bit 12 (drop_bit 12 w)"
    unfolding m by (rule bit_eqI) (auto simp: bit_simps)
  then have "unat (w AND NOT 4095) = take_bit 32 (push_bit 12 (drop_bit 12 (unat w)))"
    using lt by (simp add: unsigned_push_bit_eq unsigned_drop_bit_eq take_bit_nat_eq_self)
  also have "\<dots> = unat w div 4096 * 4096 mod 2 ^ 32"
    by (simp add: take_bit_eq_mod push_bit_eq_mult drop_bit_eq_div)
  also have "\<dots> = unat w div 4096 * 4096"
  proof (rule mod_less)
    show "unat w div 4096 * 4096 < 2 ^ 32" using lt by (meson div_times_less_eq_dividend le_less_trans)
  qed
  finally show ?thesis .
qed
lemma unat_roundup:
  assumes "unat a + 4095 < 2 ^ 32"
  shows "unat (ROUNDUP a PAGE_SIZE) = (unat a + 4095) div 4096 * 4096"
proof -
  have "unat (a + 4095) = unat a + 4095" using assms by (subst unat_plus_simple [THEN iffD1]) (simp_all add: no_olen_add_nat)
  then show ?thesis using and_not_page [of "a + 4095"] by (simp add: ROUNDUP_def PAGE_SIZE_def)
qed

lemma roundup_ge:
  assumes "unat a + 4095 < 2 ^ 32"
  shows "unat a \<le> unat (ROUNDUP a PAGE_SIZE)"
proof -
  have "unat a + 4095 < (unat a + 4095) div 4096 * 4096 + 4096"
    using div_mult_mod_eq [of "unat a + 4095" 4096] mod_less_divisor [of 4096 "unat a + 4095"] by linarith
  then show ?thesis using unat_roundup [OF assms] by linarith
qed

lemma roundup_zero: "4294963200 < unat a \<Longrightarrow> ROUNDUP a PAGE_SIZE = 0"
proof -
  assume a: "4294963200 < unat a"
  have "unat (a + 4095) = (unat a + 4095) mod 2 ^ 32" by (simp add: unat_word_ariths)
  also have "\<dots> = unat a + 4095 - 2 ^ 32" using a unat32_less [of a] by (simp add: mod_if)
  finally have "unat (a + 4095) < 4096" using unat32_less [of a] by simp
  then have "unat ((a + 4095) AND NOT 4095) = 0" using and_not_page [of "a + 4095"] by simp
  then show ?thesis by (simp add: ROUNDUP_def PAGE_SIZE_def unat_eq_0)
qed

section \<open>Mapping a buffer and giving it back\<close>

lemma take_Suc_update: "i < length vs \<Longrightarrow> take (Suc i) (vs[i := v]) = take i vs @ [v]"
  by (simp add: take_Suc_conv_app_nth)

lemma length_map_undo: "length (fst (vqueue_map_undo n vs vm)) = length vs"
  by (induction n arbitrary: vs vm) simp_all

lemma map_loop_regions:
  assumes "vqueue_map_loop i used ps vs vm = (r, vs', vm')" "regions_ok (vm_regions vm)"
    "vm_regions vm = rev (seg_regions (take i ps) (take i vs)) @ R" "null_segs (take i vs)"
    "used \<le> length vs" "used \<le> length ps" "i \<le> used"
  shows "length vs' = length vs \<and> (case r of Inl _ \<Rightarrow> vm_regions vm' = R
    | Inr _ \<Rightarrow> vm_regions vm' = rev (seg_regions (take used ps) (take used vs')) @ R \<and> regions_ok (vm_regions vm') \<and>
        null_segs (take used vs') \<and> map iov_len vs' = map iov_len vs)"
  using assms
proof (induction i used ps vs vm rule: vqueue_map_loop.induct)
  case (1 i used ps vs vm)
  show ?case
  proof (cases "used \<le> i")
    case True
    then have "i = used" using 1(8) by simp
    then show ?thesis using 1(2-8) by (auto simp: vqueue_map_loop.simps)
  next
    case False
    then have i: "i < length vs" "i < length ps" using 1(6,7) by auto
    let ?sz = "ROUNDUP (iov_len (vs ! i)) PAGE_SIZE"
    obtain a vm1 where a: "vmm_alloc_physical ?sz (ps ! i) vm = (a, vm1)" by force
    note unf = 1(2) [unfolded vqueue_map_loop.simps [of i used ps vs vm]]
    have tp: "take (Suc i) ps = take i ps @ [ps ! i]" using i by (simp add: take_Suc_conv_app_nth)
    have next': "?thesis" if va: "a = Inr va" "regions_ok (vm_regions vm1)"
      "vm_regions vm1 = rev (seg_region (ps ! i) ((vs ! i)\<lparr>iov_base := va\<rparr>)) @ vm_regions vm" "?sz = 0 \<longrightarrow> va = 0" for va
    proof -
      let ?vs = "vs[i := (vs ! i)\<lparr>iov_base := va\<rparr>]"
      have m: "vqueue_map_loop (Suc i) used ps ?vs vm1 = (r, vs', vm')" using unf False a va(1) by simp
      have ts: "take (Suc i) ?vs = take i vs @ [(vs ! i)\<lparr>iov_base := va\<rparr>]" using i by (simp add: take_Suc_update)
      have "map iov_len ?vs = map iov_len vs" using i by (simp add: map_update list_update_same_conv)
      moreover have "null_segs (take (Suc i) ?vs)" using 1(5) va(4) ts by (auto simp: null_segs_def)
      moreover have "vm_regions vm1 = rev (seg_regions (take (Suc i) ps) (take (Suc i) ?vs)) @ R"
        unfolding ts tp using va(3) 1(4) i by simp
      ultimately show ?thesis using 1(1) [OF False a [symmetric] va(1) m va(2)] 1(6,7) False
        by (cases r) auto
    qed
    from a 1(3) show ?thesis
    proof (cases rule: alloc_cases)
      case zero
      then show ?thesis using 1(3) by (intro next' [of 0]) (simp_all add: seg_region_def)
    next
      case (fail e)
      let ?vs = "vs[i := (vs ! i)\<lparr>iov_base := 0\<rparr>]"
      have "vm_regions (snd (vqueue_map_undo i ?vs vm1)) = R"
        using 1(3-7) fail(2) i by (intro map_undo_regions [where ps = ps]) simp_all
      moreover have "length (fst (vqueue_map_undo i ?vs vm1)) = length vs" by (simp add: length_map_undo)
      moreover have "r = Inl e" "vs' = fst (vqueue_map_undo i ?vs vm1)" "vm' = snd (vqueue_map_undo i ?vs vm1)"
        using unf False a fail(1) by auto
      ultimately show ?thesis by simp
    next
      case (placed va)
      then show ?thesis by (intro next' [of va]) (simp_all add: seg_region_def Let_def)
    qed
  qed
qed

lemma map_iovs_spec:
  assumes "vqueue_map_iovs l vm = (r, l', vm')" "regions_ok (vm_regions vm)" "iovs_wf l"
  shows "regions_ok (vm_regions vm') \<and> iovs_wf l' \<and> vi_used l' = vi_used l \<and> (case r of Inl _ \<Rightarrow> vm_regions vm' = vm_regions vm
    | Inr _ \<Rightarrow> vm_regions (snd (vqueue_unmap_iovs l' vm')) = vm_regions vm \<and> map iov_len (vi_iovs l') = map iov_len (vi_iovs l) \<and>
        (\<forall>i < vi_used l'. iov_len (vi_iovs l' ! i) \<noteq> 0 \<and> unat (iov_len (vi_iovs l' ! i)) \<le> 0xFFFFF000 \<longrightarrow>
           mapped vm' (iov_base (vi_iovs l' ! i)) (unat (iov_len (vi_iovs l' ! i)))))"
proof -
  let ?n = "vi_used l"
  obtain vs where m: "vqueue_map_loop 0 ?n (vi_phys l) (vi_iovs l) vm = (r, vs, vm')" and l': "l' = l\<lparr>vi_iovs := vs\<rparr>"
    using assms(1) by (auto simp: vqueue_map_iovs_def split: prod.splits)
  have len: "?n \<le> length (vi_iovs l)" "?n \<le> length (vi_phys l)" using assms(3) by (auto simp: iovs_wf_def)
  have s: "length vs = length (vi_iovs l)" "case r of Inl _ \<Rightarrow> vm_regions vm' = vm_regions vm
    | Inr _ \<Rightarrow> vm_regions vm' = rev (seg_regions (take ?n (vi_phys l)) (take ?n vs)) @ vm_regions vm \<and>
        regions_ok (vm_regions vm') \<and> null_segs (take ?n vs) \<and> map iov_len vs = map iov_len (vi_iovs l)"
    using map_loop_regions [OF m assms(2) _ _ len] by (simp_all add: null_segs_def)
  show ?thesis
  proof (cases r)
    case (Inl e)
    then show ?thesis using s l' assms(2,3) by (simp add: iovs_wf_def)
  next
    case (Inr u)
    note q = s(2) [unfolded Inr sum.case]
    have "vm_regions (snd (vqueue_unmap_loop (take ?n vs) vm')) = vm_regions vm"
      using q len s(1) by (intro unmap_regions [where ps = "take ?n (vi_phys l)"]) auto
    then have "vm_regions (snd (vqueue_unmap_iovs l' vm')) = vm_regions vm"
      using l' by (simp add: vqueue_unmap_iovs_def split_beta Let_def)
    moreover have "mapped vm' (iov_base (vs ! i)) (unat (iov_len (vs ! i)))"
      if i: "i < ?n" "iov_len (vs ! i) \<noteq> 0" "unat (iov_len (vs ! i)) \<le> 0xFFFFF000" for i
    proof -
      let ?sz = "ROUNDUP (iov_len (vs ! i)) PAGE_SIZE"
      have g: "unat (iov_len (vs ! i)) \<le> unat ?sz" using i(3) by (intro roundup_ge) simp
      then have "?sz \<noteq> 0" using i(2) by (auto simp: unat_eq_0)
      moreover have "(vi_phys l ! i, vs ! i) \<in> set (zip (take ?n (vi_phys l)) (take ?n vs))"
        using i(1) len s(1) by (auto simp: in_set_zip intro!: exI [of _ i])
      ultimately have "\<lparr>r_base = iov_base (vs ! i), r_size = ?sz, r_paddr = vi_phys l ! i\<rparr> \<in> set (vm_regions vm')"
        using q by (force simp: seg_regions_def seg_region_def Let_def)
      then show ?thesis using g unfolding mapped_def by (intro bexI) auto
    qed
    ultimately show ?thesis using Inr l' q s(1) assms(3) by (auto simp: iovs_wf_def)
  qed
qed

text \<open>C36: Mapping the segments of a buffer either fails and leaves the kernel address space as it was, or
  succeeds so that unmapping them restores it; in between every segment whose length can be
  rounded up to pages is mapped over its whole length.
\<close>

theorem vqueue_map_balanced:
  assumes "vqueue_map_iovs l vm = (r, l', vm')" "regions_ok (vm_regions vm)" "iovs_wf l"
  shows "case r of Inl _ \<Rightarrow> vm_regions vm' = vm_regions vm
    | Inr _ \<Rightarrow> vm_regions (snd (vqueue_unmap_iovs l' vm')) = vm_regions vm \<and>
        (\<forall>i < vi_used l'. iov_len (vi_iovs l' ! i) \<noteq> 0 \<and> unat (iov_len (vi_iovs l' ! i)) \<le> 0xFFFFF000 \<longrightarrow>
           mapped vm' (iov_base (vi_iovs l' ! i)) (unat (iov_len (vi_iovs l' ! i))))"
  using map_iovs_spec [OF assms] by (cases r) auto

definition demo_vmm :: vmm where
  "demo_vmm = \<lparr>vm_spots = [0x200000, 0x300000], vm_regions = [\<lparr>r_base = 0x100000, r_size = 0x2000, r_paddr = 0x80000000\<rparr>]\<rparr>"

definition demo_seg :: vqueue_iovs where
  "demo_seg = demo_iovs\<lparr>vi_used := 1, vi_phys := [0x80001000], vi_iovs := [\<lparr>iov_base = 0, iov_len = 64\<rparr>]\<rparr>"

lemma demo_vmm_ok: "regions_ok (vm_regions demo_vmm)"
  by (simp add: demo_vmm_def region_ok_def)

lemma demo_map:
  "vqueue_map_iovs demo_seg demo_vmm = (NO_ERROR, demo_seg\<lparr>vi_iovs := [\<lparr>iov_base = 0x200000, iov_len = 64\<rparr>]\<rparr>,
     \<lparr>vm_spots = [0x300000], vm_regions = \<lparr>r_base = 0x200000, r_size = 0x1000, r_paddr = 0x80001000\<rparr> # vm_regions demo_vmm\<rparr>)"
  by (simp add: vqueue_map_iovs_def demo_seg_def demo_iovs_def demo_vmm_def vqueue_map_loop.simps vmm_alloc_physical_def
      ROUNDUP_def PAGE_SIZE_def free_spot_def)

theorem vqueue_map_balanced_witness:
  "\<exists>l' vm'. vqueue_map_iovs demo_seg demo_vmm = (NO_ERROR, l', vm') \<and> mapped vm' 0x200000 64 \<and>
     vm_regions (snd (vqueue_unmap_iovs l' vm')) = vm_regions demo_vmm"
proof -
  have "iovs_wf demo_seg" by (simp add: iovs_wf_def demo_seg_def demo_iovs_def)
  from vqueue_map_balanced [OF demo_map demo_vmm_ok this] show ?thesis
    using demo_map by (auto simp: demo_seg_def)
qed

section \<open>The layout of the ring\<close>

lemma unat_of_small: "n < 4294967296 \<Longrightarrow> unat (word_of_nat n :: u32) = n"
  by (simp add: unat_of_nat)

lemma page_sum:
  assumes "unat (p :: u32) mod 4096 = 0" "unat p + m < 2 ^ 32"
  shows "unat ((p + word_of_nat m) AND NOT 4095) = unat p + m div 4096 * 4096"
proof -
  have "unat (p + word_of_nat m) = unat p + m" using assms(2) by (simp add: unat_word_ariths unat_of_nat)
  moreover have "(unat p + m) div 4096 = unat p div 4096 + m div 4096" using assms(1)
    by (simp add: div_plus_div_distrib_dvd_left mod_eq_0_iff_dvd)
  moreover have "unat p div 4096 * 4096 = unat p" using assms(1) by (simp add: dvd_div_mult_self mod_eq_0_iff_dvd)
  ultimately show ?thesis unfolding and_not_page by (simp add: algebra_simps)
qed

lemma vring_words:
  assumes "unat num \<le> 32768"
  shows "16 * num + 2 * (3 + num) + 4096 - 1 = word_of_nat (18 * unat num + 4101)"
    "p + num * 16 + 4 + 2 * num + 2 + 4096 - 1 = p + word_of_nat (18 * unat num + 4101)"
  by (simp_all add: algebra_simps)

text \<open>C37: For a ring of at most 32768 entries mapped at a page boundary, the descriptor table, the avail
  ring and the used ring follow each other without overlap inside the mapped \<open>vring_size\<close> bytes.
\<close>

theorem vring_layout:
  assumes "unat num \<le> 32768" "unat p mod 4096 = 0" "unat p + unat (vring_size num 4096) \<le> 2 ^ 32"
  shows "unat (vr_desc (vring_init num p 4096)) = unat p \<and>
    unat (vr_avail (vring_init num p 4096)) = unat p + 16 * unat num \<and>
    unat (vr_avail (vring_init num p 4096)) + 4 + 2 * unat num + 2 \<le> unat (vr_used (vring_init num p 4096)) \<and>
    unat (vr_used (vring_init num p 4096)) + 4 + 8 * unat num + 2 = unat p + unat (vring_size num 4096)"
proof -
  let ?n = "unat num"
  let ?u = "(18 * ?n + 4101) div 4096 * 4096"
  have u: "18 * ?n + 6 \<le> ?u" "?u \<le> 18 * ?n + 4101"
    using div_mult_mod_eq [of "18 * ?n + 4101" 4096] mod_less_divisor [of 4096 "18 * ?n + 4101"] by linarith+
  have "unat ((0 + word_of_nat (18 * ?n + 4101) :: u32) AND NOT 4095) = unat (0 :: u32) + ?u"
    using assms(1) by (intro page_sum) simp_all
  then have s0: "unat ((word_of_nat (18 * ?n + 4101) :: u32) AND NOT 4095) = ?u" by simp
  have s: "unat (vring_size num 4096) = ?u + 6 + 8 * ?n"
  proof -
    have e: "vring_size num 4096 = word_of_nat (?u + 6 + 8 * ?n)"
      unfolding vring_size_def vring_words [OF assms(1)] using arg_cong [OF s0, of "word_of_nat :: nat \<Rightarrow> u32"] by simp
    have "?u + 6 + 8 * ?n < 4294967296" using assms(1) u by linarith
    then show ?thesis unfolding e by (rule unat_of_small)
  qed
  obtain k where k: "unat p = 4096 * k" using assms(2) by (auto simp: mod_eq_0_iff_dvd dvd_def)
  have "4096 * (k + (18 * ?n + 4101) div 4096) < 4096 * 1048576" using assms(3) s k by (simp add: algebra_simps)
  then have "k + (18 * ?n + 4101) div 4096 < 1048576" by (simp only: mult_less_cancel1)
  then have "k + (18 * ?n + 4101) div 4096 \<le> 1048575" by simp
  then have "unat p + ?u \<le> 1048575 * 4096" using k by (simp add: algebra_simps)
  moreover have "18 * ?n + 4101 < ?u + 4096"
    using div_mult_mod_eq [of "18 * ?n + 4101" 4096] mod_less_divisor [of 4096 "18 * ?n + 4101"] by linarith
  ultimately have "unat p + (18 * ?n + 4101) < 4294967296" by linarith
  then have lt: "unat p + (18 * ?n + 4101) < 2 ^ 32" by simp
  have "unat (vr_used (vring_init num p 4096)) = unat p + ?u"
    unfolding vring_init_def Let_def vring.simps vring_words(2) [OF assms(1), of p] using page_sum [OF assms(2) lt] by simp
  moreover have "unat (p + num * 16) = unat p + 16 * ?n"
  proof -
    have "unat (p + word_of_nat (16 * ?n)) = unat p + 16 * ?n" using lt by (simp add: unat_word_ariths unat_of_nat)
    then show ?thesis by (simp add: mult.commute)
  qed
  ultimately show ?thesis using s u by (simp add: vring_init_def Let_def)
qed

theorem vring_layout_witness:
  "unat (vr_used (vring_init 256 0x100000 4096)) + 4 + 8 * 256 + 2 = unat (0x100000 :: u32) + unat (vring_size 256 4096)"
  using vring_layout [of 256 "0x100000"] by (simp add: vring_size_def)

section \<open>What is not checked\<close>

text \<open>The number of ring entries is taken from the non-secure world without a bound. With 0x80008000
  entries the ring size wraps around and only 0xD2000 bytes are mapped, while a chain may start at
  descriptor 0xFFFF, which lies behind them.
\<close>

theorem vring_size_unchecked:
  "\<exists>vq vm nv vq' buf'. vqueue_init 1 0x80000000 0x80008000 4096 True demo_vq demo_vmm = (NO_ERROR, vq, vm, False) \<and>
     vqueue_get_avail_buf nv (vq\<lparr>last_avail_idx := 0\<rparr>) demo_buf = Done (NO_ERROR, vq', buf') \<and> vb_head buf' = 0xFFFF \<and>
     \<not> mapped vm (vr_desc (vq_vring vq) + 16 * 0xFFFF) 16"
proof -
  obtain vq vm where i: "vqueue_init 1 0x80000000 0x80008000 4096 True demo_vq demo_vmm = (NO_ERROR, vq, vm, False)"
    "vq_vring vq = vring_init 0x80008000 0x200000 4096" "vring_addr vq = 0x200000"
    "vm_regions vm = \<lparr>r_base = 0x200000, r_size = 0xD2000, r_paddr = 0x80000000\<rparr> # vm_regions demo_vmm"
    by (simp add: vqueue_init_def vring_size_def vmm_alloc_physical_def ROUNDUP_def PAGE_SIZE_def demo_vmm_def free_spot_def)
  let ?nv = "(demo_view (\<lambda>_ _. demo_desc 0 64))\<lparr>nv_ring := \<lambda>_. 0xFFFF\<rparr>"
  obtain vq' buf' where "vqueue_get_avail_buf ?nv (vq\<lparr>last_avail_idx := 0\<rparr>) demo_buf = Done (NO_ERROR, vq', buf')" "vb_head buf' = 0xFFFF"
    using i(2,3) by (simp add: vqueue_get_avail_buf_def demo_vq_defs vqueue_chain.simps iovs_add_def)
  moreover have "\<not> mapped vm (vr_desc (vq_vring vq) + 16 * 0xFFFF) 16"
    using i(2,4) by (simp add: mapped_def vring_init_def demo_vmm_def)
  ultimately show ?thesis using i(1) by blast
qed

text \<open>A queue that is torn down and set up again keeps its position in the avail ring: when it had
  taken a buffer before, the first look at a new ring, whose counter starts at zero, stops the
  kernel.
\<close>

theorem vqueue_restart_panics:
  assumes "vqueue_init ident pa num align cb (fst (vqueue_destroy vq vm)) (snd (vqueue_destroy vq vm)) = (NO_ERROR, vq', vm', f)"
    "vring_addr vq' \<noteq> 0" "nv_idx nv = 0" "unat (ucast num :: u16) + unat (last_avail_idx vq) < 65536" "last_avail_idx vq \<noteq> 0"
  shows "vqueue_get_avail_buf nv vq' buf = Panic"
proof -
  have q: "last_avail_idx vq' = last_avail_idx vq" "vr_num (vq_vring vq') = num"
    using assms(1) by (auto simp: vqueue_init_def vqueue_destroy_def vring_init_def Let_def split: prod.splits sum.splits)
  have "unat (0 - last_avail_idx vq) = 65536 - unat (last_avail_idx vq)"
    unfolding unat_sub_if' using assms(5) by (simp add: unat_eq_0)
  then have "(ucast num :: u16) < 0 - last_avail_idx vq"
    using assms(4) by (simp only: word_less_nat_alt)
  then show ?thesis using assms(2,3) q by (simp add: vqueue_get_avail_buf_def)
qed

definition demo_old :: vqueue where
  "demo_old = demo_vq\<lparr>last_avail_idx := 5\<rparr>"

theorem vqueue_restart_panics_witness:
  "\<exists>vq' vm' f. vqueue_init 7 0x80000000 256 4096 True (fst (vqueue_destroy demo_old demo_vmm)) (snd (vqueue_destroy demo_old demo_vmm)) =
       (NO_ERROR, vq', vm', f) \<and> vqueue_get_avail_buf ((demo_view (\<lambda>_ _. demo_desc 0 64))\<lparr>nv_idx := 0\<rparr>) vq' demo_buf = Panic"
proof -
  obtain vq' vm' where i: "vqueue_init 7 0x80000000 256 4096 True (fst (vqueue_destroy demo_old demo_vmm))
      (snd (vqueue_destroy demo_old demo_vmm)) = (NO_ERROR, vq', vm', False)" "vring_addr vq' \<noteq> 0"
    by (simp add: vqueue_init_def vqueue_destroy_def vring_size_def vmm_alloc_physical_def ROUNDUP_def PAGE_SIZE_def
        demo_vmm_def free_spot_def demo_old_def demo_vq_def vmm_free_region_def in_region_def)
  have "vqueue_get_avail_buf ((demo_view (\<lambda>_ _. demo_desc 0 64))\<lparr>nv_idx := 0\<rparr>) vq' demo_buf = Panic"
    by (rule vqueue_restart_panics [OF i]) (simp_all add: demo_old_def)
  then show ?thesis using i(1) by blast
qed

end
