(* ===== verification/Tipc_Dev.thy ===== *)
theory Tipc_Dev
  imports Vqueue_Ring Uctx
begin

text \<open>
  The TIPC device (\<^verbatim>\<open>lk/trusty/lib/trusty/tipc_dev.c\<close>): it connects the non-secure world to ports of
  the secure world. A receive thread takes messages from one virtqueue and turns them into
  connections, disconnections and channel messages; a transmit thread waits on the channels and
  forwards what they have to say through the other. A table of 256 endpoints gives every
  channel a local address. A handler works on the device, the IPC objects, the kernel's address
  space and memory together.
\<close>

section \<open>The device\<close>

definition TIPC_CTRL_ADDR :: u32 where "TIPC_CTRL_ADDR = 53"
definition TIPC_ADDR_MAX_NUM :: nat where "TIPC_ADDR_MAX_NUM = 256"
definition TIPC_ADDR_BASE :: u32 where "TIPC_ADDR_BASE = 1000"
definition TIPC_MAX_SRV_NAME_LEN :: nat where "TIPC_MAX_SRV_NAME_LEN = 256"

record tipc_ept =
  ept_remote :: u32
  ept_chan :: "addr option"

datatype vdev_state = VDEV_STATE_RESET | VDEV_STATE_ACTIVE

record tipc_dev =
  td_state :: vdev_state
  td_devid :: u32
  td_uuid :: uuid_ptr
  td_descr :: "u8 list"
  vq_tx :: vqueue
  vq_rx :: vqueue
  epts :: "tipc_ept list"
  td_inuse :: "u32 list"
  have_handles :: bool
  td_hlist :: handle_list
  tx_stop :: bool
  rx_stop :: bool

record tipc_world =
  tw_dev :: tipc_dev
  tw_k :: kst
  tw_vmm :: vmm
  tw_mem :: kmem

definition upd_dev :: "(tipc_dev \<Rightarrow> tipc_dev) \<Rightarrow> tipc_world \<Rightarrow> tipc_world" where
  "upd_dev f s = s\<lparr>tw_dev := f (tw_dev s)\<rparr>"

text \<open>
  The structures on the wire: \<^verbatim>\<open>struct tipc_hdr\<close> and \<^verbatim>\<open>struct tipc_ctrl_msg_hdr\<close>, packed and little-endian.
\<close>

definition tipc_hdr_bytes :: "u32 \<Rightarrow> u32 \<Rightarrow> u16 \<Rightarrow> u8 list" where
  "tipc_hdr_bytes src dst len = enc32 src @ enc32 dst @ enc32 0 @ enc16 len @ enc16 0"

definition hdr_src :: "u8 list \<Rightarrow> u32" where "hdr_src bs = le32 bs"
definition hdr_dst :: "u8 list \<Rightarrow> u32" where "hdr_dst bs = le32 (drop 4 bs)"
definition hdr_len :: "u8 list \<Rightarrow> u16" where "hdr_len bs = le16 (drop 12 bs)"

abbreviation TIPC_CTRL_MSGTYPE_GO_ONLINE :: u32 where "TIPC_CTRL_MSGTYPE_GO_ONLINE \<equiv> 1"
abbreviation TIPC_CTRL_MSGTYPE_CONN_REQ :: u32 where "TIPC_CTRL_MSGTYPE_CONN_REQ \<equiv> 3"
abbreviation TIPC_CTRL_MSGTYPE_CONN_RSP :: u32 where "TIPC_CTRL_MSGTYPE_CONN_RSP \<equiv> 4"
abbreviation TIPC_CTRL_MSGTYPE_DISC_REQ :: u32 where "TIPC_CTRL_MSGTYPE_DISC_REQ \<equiv> 5"

section \<open>The endpoint table\<close>

definition addr_to_slot :: "u32 \<Rightarrow> u32" where
  "addr_to_slot a = a - TIPC_ADDR_BASE"

definition slot_to_addr :: "u32 \<Rightarrow> u32" where
  "slot_to_addr slot = slot + TIPC_ADDR_BASE"

definition alloc_local_addr :: "tipc_dev \<Rightarrow> u32 \<Rightarrow> addr \<Rightarrow> u32 \<times> tipc_dev" where
  "alloc_local_addr dev remote chan = (case bitmap_ffz (td_inuse dev) TIPC_ADDR_MAX_NUM of
     Some slot \<Rightarrow>
       (slot_to_addr (word_of_nat slot),
        dev\<lparr>td_inuse := fst (bitmap_set (td_inuse dev) slot),
            epts := (epts dev)[slot := \<lparr>ept_remote = remote, ept_chan = Some chan\<rparr>]\<rparr>)
   | None \<Rightarrow> (0, dev))"

text \<open>A pointer to an endpoint is the index of its slot, and a null pointer is \<open>None\<close>.\<close>

definition lookup_ept :: "tipc_dev \<Rightarrow> u32 \<Rightarrow> nat option" where
  "lookup_ept dev local =
     (let slot = addr_to_slot local in
      if unat slot < TIPC_ADDR_MAX_NUM \<and> bitmap_test (td_inuse dev) (unat slot) then Some (unat slot) else None)"

definition ept_to_addr :: "nat \<Rightarrow> u32" where
  "ept_to_addr ept = slot_to_addr (word_of_nat ept)"

definition free_local_addr :: "tipc_dev \<Rightarrow> u32 \<Rightarrow> tipc_dev" where
  "free_local_addr dev local =
     (let slot = addr_to_slot local in
      if unat slot < TIPC_ADDR_MAX_NUM
      then dev\<lparr>td_inuse := fst (bitmap_clear (td_inuse dev) (unat slot)),
               epts := (epts dev)[unat slot := \<lparr>ept_remote = 0, ept_chan = None\<rparr>]\<rparr>
      else dev)"

text \<open>The cookie of a channel is a pointer to its endpoint; 0 is null.\<close>

definition ept_cookie :: "nat option \<Rightarrow> nat" where
  "ept_cookie p = (case p of None \<Rightarrow> 0 | Some slot \<Rightarrow> Suc slot)"

definition cookie_ept :: "nat \<Rightarrow> nat option" where
  "cookie_ept c = (case c of 0 \<Rightarrow> None | Suc slot \<Rightarrow> Some slot)"

section \<open>Sending to the non-secure world\<close>

text \<open>
  A return of \<^verbatim>\<open>event_wait\<close> on the transmit queue: what other threads did in the meantime, and what
  the next look at the ring loads.
\<close>

type_synonym tx_wake = "(tipc_world \<Rightarrow> tipc_world) \<times> ns_view"

definition tx_buf0 :: vqueue_buf where
  "tx_buf0 = \<lparr>vb_head = 0,
     in_iovs = \<lparr>vi_cnt = 0, vi_used = 0, vi_len = 0, vi_phys = [], vi_iovs = []\<rparr>,
     out_iovs = \<lparr>vi_cnt = 1, vi_used = 0, vi_len = 0, vi_phys = [0], vi_iovs = [\<lparr>iov_base = 0, iov_len = 0\<rparr>]\<rparr>\<rparr>"

fun tx_get_buf :: "bool \<Rightarrow> ns_view \<Rightarrow> tx_wake list \<Rightarrow> vqueue_buf \<Rightarrow> tipc_world \<Rightarrow> (vqueue_buf res \<times> tipc_world) outcome" where
  "tx_get_buf wt nv wks buf s =
     (case vqueue_get_avail_buf nv (vq_tx (tw_dev s)) buf of
        Blocked \<Rightarrow> Blocked | Panic \<Rightarrow> Panic | Fault \<Rightarrow> Fault
      | Done (r, vq, buf1) \<Rightarrow>
          (let s1 = upd_dev (\<lambda>d. d\<lparr>vq_tx := vq\<rparr>) s in
           case r of
             Inr _ \<Rightarrow> Done (Inr buf1, s1)
           | Inl e \<Rightarrow>
               if e \<noteq> ERR_NOT_ENOUGH_BUFFER \<or> \<not> wt then Done (Inl e, s1)
               else (case wks of
                 [] \<Rightarrow> Blocked
               | (others, nv1) # wks1 \<Rightarrow>
                   (let s2 = others s1 in
                    if tx_stop (tw_dev s2) then Done (Inl ERR_CHANNEL_CLOSED, s2)
                    else tx_get_buf wt nv1 wks1 buf1 s2))))"

text \<open>The \<^verbatim>\<open>int\<close> that a handler's result is, as the unsigned length of a used element.\<close>

definition res_code :: "nat res \<Rightarrow> u32" where
  "res_code r = (case r of Inl e \<Rightarrow> word_of_int (err_code e) | Inr n \<Rightarrow> word_of_nat n)"

definition tx_done :: "nat res \<Rightarrow> vqueue_buf \<Rightarrow> tipc_world \<Rightarrow> (unit res \<times> tipc_world) outcome" where
  "tx_done ret buf s =
     (let (r, vq) = vqueue_add_buf (vq_tx (tw_dev s)) buf (res_code ret)
      in Done (r, upd_dev (\<lambda>d. d\<lparr>vq_tx := vq\<rparr>) s))"

type_synonym data_cb = "u32 \<Rightarrow> nat \<Rightarrow> tipc_world \<Rightarrow> nat res \<times> tipc_world"

definition tx_fill :: "u32 \<Rightarrow> u32 \<Rightarrow> data_cb \<Rightarrow> u16 \<Rightarrow> iovec_kern \<Rightarrow> tipc_world \<Rightarrow> (nat res \<times> tipc_world) outcome" where
  "tx_fill local remote cb data_len iov s =
     (let s1 = s\<lparr>tw_mem := kwrite (tw_mem s) (iov_base iov) (tipc_hdr_bytes local remote data_len)\<rparr>;
          n = (if 16 + unat data_len > unat (iov_len iov) then unat (iov_len iov) - 16 else unat data_len)
      in if \<not> mapped (tw_vmm s) (iov_base iov) 16 \<or> 0 < n \<and> \<not> mapped (tw_vmm s) (iov_base iov + 16) n then Fault
         else (case cb (iov_base iov + 16) n s1 of
                 (Inl e, s2) \<Rightarrow> Done (Inl e, s2)
               | (Inr m, s2) \<Rightarrow> Done (Inr (m + 16), s2)))"

definition tx_send ::
    "u32 \<Rightarrow> u32 \<Rightarrow> data_cb \<Rightarrow> u16 \<Rightarrow> vqueue_buf \<Rightarrow> tipc_world \<Rightarrow> (unit res \<times> tipc_world) outcome" where
  "tx_send local remote cb data_len buf s =
     (if vi_used (out_iovs buf) = 0 then tx_done (Inl ERR_NOT_ENOUGH_BUFFER) buf s
      else if unat (iov_len (vi_iovs (out_iovs buf) ! 0)) < 16 then tx_done (Inl ERR_NOT_ENOUGH_BUFFER) buf s
      else case vqueue_map_iovs (out_iovs buf) (tw_vmm s) of
          (Inl e, out1, vm1) \<Rightarrow> tx_done (Inl e) (buf\<lparr>out_iovs := out1\<rparr>) (s\<lparr>tw_vmm := vm1\<rparr>)
        | (Inr _, out1, vm1) \<Rightarrow>
            bind_outcome (tx_fill local remote cb data_len (vi_iovs out1 ! 0) (s\<lparr>tw_vmm := vm1\<rparr>)) (\<lambda>(ret, s1).
              let (out2, vm2) = vqueue_unmap_iovs out1 (tw_vmm s1)
              in tx_done ret (buf\<lparr>out_iovs := out2\<rparr>) (s1\<lparr>tw_vmm := vm2\<rparr>)))"

definition tipc_send_data ::
    "u32 \<Rightarrow> u32 \<Rightarrow> data_cb option \<Rightarrow> u16 \<Rightarrow> bool \<Rightarrow> ns_view \<Rightarrow> tx_wake list \<Rightarrow> tipc_world \<Rightarrow>
     (unit res \<times> tipc_world) outcome" where
  "tipc_send_data local remote cb data_len wt nv wks s = (case cb of
     None \<Rightarrow> Done (Inl ERR_INVALID_ARGS, s)
   | Some f \<Rightarrow>
       bind_outcome (tx_get_buf wt nv wks tx_buf0 s) (\<lambda>(r, s1).
         case r of
           Inl e \<Rightarrow> Done (Inl e, s1)
         | Inr buf \<Rightarrow> tx_send local remote f data_len buf s1))"

definition send_buf_cb :: "u8 list \<Rightarrow> data_cb" where
  "send_buf_cb data dst sz s = (Inr sz, s\<lparr>tw_mem := kwrite (tw_mem s) dst (take sz data)\<rparr>)"

definition tipc_send_buf ::
    "u32 \<Rightarrow> u32 \<Rightarrow> u8 list \<Rightarrow> bool \<Rightarrow> ns_view \<Rightarrow> tx_wake list \<Rightarrow> tipc_world \<Rightarrow> (unit res \<times> tipc_world) outcome" where
  "tipc_send_buf local remote data wt nv wks s =
     tipc_send_data local remote (Some (send_buf_cb data)) (word_of_nat (length data)) wt nv wks s"

definition ctrl_msg :: "u32 \<Rightarrow> u8 list \<Rightarrow> u8 list" where
  "ctrl_msg type body = enc32 type @ enc32 (word_of_nat (length body)) @ body"

definition go_online :: "ns_view \<Rightarrow> tx_wake list \<Rightarrow> tipc_world \<Rightarrow> (unit res \<times> tipc_world) outcome" where
  "go_online nv wks s = tipc_send_buf TIPC_CTRL_ADDR TIPC_CTRL_ADDR (ctrl_msg TIPC_CTRL_MSGTYPE_GO_ONLINE []) True nv wks s"

definition send_conn_rsp ::
    "u32 \<Rightarrow> u32 \<Rightarrow> u32 \<Rightarrow> u32 \<Rightarrow> u32 \<Rightarrow> ns_view \<Rightarrow> tx_wake list \<Rightarrow> tipc_world \<Rightarrow> (unit res \<times> tipc_world) outcome" where
  "send_conn_rsp local remote status msg_sz msg_cnt nv wks s =
     tipc_send_buf TIPC_CTRL_ADDR TIPC_CTRL_ADDR
       (ctrl_msg TIPC_CTRL_MSGTYPE_CONN_RSP (enc32 remote @ enc32 status @ enc32 local @ enc32 msg_sz @ enc32 msg_cnt)) True nv wks s"

definition send_disc_req :: "u32 \<Rightarrow> u32 \<Rightarrow> ns_view \<Rightarrow> tx_wake list \<Rightarrow> tipc_world \<Rightarrow> (unit res \<times> tipc_world) outcome" where
  "send_disc_req local remote nv wks s =
     tipc_send_buf local TIPC_CTRL_ADDR (ctrl_msg TIPC_CTRL_MSGTYPE_DISC_REQ (enc32 remote)) True nv wks s"

section \<open>Messages from the non-secure world\<close>

text \<open>
  \<open>ns_req\<close> is the address of the message body in the mapped buffer. The name is copied up to its
  terminator and padded.
\<close>

definition conn_req_opened :: "u32 \<Rightarrow> u32 \<Rightarrow> tipc_world \<Rightarrow> u32 \<times> addr option \<times> tipc_world" where
  "conn_req_opened remote ns_req s =
     (let name = takeWhile (\<lambda>b. b \<noteq> 0) (kread (tw_mem s) ns_req TIPC_MAX_SRV_NAME_LEN) in
      case ipc_port_connect_async (Some (td_uuid (tw_dev s))) name TIPC_MAX_SRV_NAME_LEN 0 (tw_k s) of
        (Inl e, k1) \<Rightarrow> (0, None, s\<lparr>tw_k := k1\<rparr>)
      | (Inr chan, k1) \<Rightarrow>
          (case alloc_local_addr (tw_dev s) remote chan of
             (local, dev1) \<Rightarrow>
               if local = 0 then (local, None, s\<lparr>tw_dev := dev1, tw_k := handle_close chan k1\<rparr>)
               else (local, Some chan, s\<lparr>tw_dev := dev1, tw_k := k1\<rparr>)))"

definition conn_req_listed :: "u32 \<Rightarrow> addr \<Rightarrow> tipc_world \<Rightarrow> tipc_world" where
  "conn_req_listed local chan s =
     (let k1 = handle_set_cookie chan (ept_cookie (lookup_ept (tw_dev s) local)) (tw_k s);
          (hl, k2) = handle_list_add (td_hlist (tw_dev s)) chan k1
      in upd_dev (\<lambda>d. d\<lparr>td_hlist := hl, have_handles := True\<rparr>) (s\<lparr>tw_k := k2\<rparr>))"

definition handle_conn_req :: "u32 \<Rightarrow> u32 \<Rightarrow> ns_view \<Rightarrow> tx_wake list \<Rightarrow> tipc_world \<Rightarrow> (unit res \<times> tipc_world) outcome" where
  "handle_conn_req remote ns_req nv wks s = (case conn_req_opened remote ns_req s of
     (local, Some chan, s1) \<Rightarrow> Done (NO_ERROR, conn_req_listed local chan s1)
   | (local, None, s1) \<Rightarrow> send_conn_rsp local remote (word_of_int (err_code ERR_NO_RESOURCES)) 0 0 nv wks s1)"

text \<open>The search of \<^verbatim>\<open>handle_disc_req\<close> over the whole table.\<close>

definition find_ept_by_remote :: "tipc_dev \<Rightarrow> u32 \<Rightarrow> nat option" where
  "find_ept_by_remote dev remote =
     find (\<lambda>slot. bitmap_test (td_inuse dev) slot \<and> ept_remote (epts dev ! slot) = remote) [0..<TIPC_ADDR_MAX_NUM]"

definition disc_target :: "tipc_dev \<Rightarrow> u32 \<Rightarrow> u32 \<Rightarrow> nat option" where
  "disc_target dev remote target = (case lookup_ept dev target of
     Some ept \<Rightarrow> if ept_remote (epts dev ! ept) \<noteq> remote then find_ept_by_remote dev remote else Some ept
   | None \<Rightarrow> find_ept_by_remote dev remote)"

text \<open>What \<^verbatim>\<open>handle_disc_req\<close>, \<^verbatim>\<open>handle_hup\<close> and \<^verbatim>\<open>tipc_dev_reset\<close> do with a channel that goes away.\<close>

definition drop_chan :: "addr \<Rightarrow> tipc_world \<Rightarrow> tipc_world" where
  "drop_chan chan s =
     (let (hl, k1) = handle_list_del (td_hlist (tw_dev s)) chan (tw_k s);
          k2 = handle_set_cookie chan 0 k1
      in upd_dev (\<lambda>d. d\<lparr>td_hlist := hl\<rparr>) (s\<lparr>tw_k := handle_close chan k2\<rparr>))"

definition handle_disc_req :: "u32 \<Rightarrow> u32 \<Rightarrow> tipc_world \<Rightarrow> unit res \<times> tipc_world" where
  "handle_disc_req remote ns_req s =
     (let target = le32 (kread (tw_mem s) ns_req 4) in
      case disc_target (tw_dev s) remote target of
        None \<Rightarrow> (NO_ERROR, s)
      | Some ept \<Rightarrow>
          (let s1 = (case ept_chan (epts (tw_dev s) ! ept) of None \<Rightarrow> s | Some chan \<Rightarrow> drop_chan chan s)
           in (NO_ERROR, upd_dev (\<lambda>d. free_local_addr d (ept_to_addr ept)) s1)))"

definition handle_ctrl_msg ::
    "u32 \<Rightarrow> u32 \<Rightarrow> nat \<Rightarrow> ns_view \<Rightarrow> tx_wake list \<Rightarrow> tipc_world \<Rightarrow> (unit res \<times> tipc_world) outcome" where
  "handle_ctrl_msg remote ns_data msg_len nv wks s =
     (if msg_len < 8 then Done (Inl ERR_NOT_VALID, s)
      else if \<not> mapped (tw_vmm s) ns_data 8 then Fault
      else
        (let msg_type = le32 (kread (tw_mem s) ns_data 4);
             body_len = le32 (kread (tw_mem s) (ns_data + 4) 4);
             body = ns_data + 8
         in if 8 + body_len \<noteq> word_of_nat msg_len then Done (Inl ERR_NOT_VALID, s)
            else if msg_type = TIPC_CTRL_MSGTYPE_CONN_REQ \<and> unat body_len = TIPC_MAX_SRV_NAME_LEN
            then (if \<not> mapped (tw_vmm s) body TIPC_MAX_SRV_NAME_LEN then Fault else handle_conn_req remote body nv wks s)
            else if msg_type = TIPC_CTRL_MSGTYPE_DISC_REQ \<and> body_len = 4
            then (if \<not> mapped (tw_vmm s) body 4 then Fault else Done (handle_disc_req remote body s))
            else Done (Inl ERR_NOT_VALID, s)))"

definition no_umem :: umem where
  "no_umem = \<lparr>um_bytes = Map.empty, um_writable = (\<lambda>_. False)\<rparr>"

definition handle_chan_msg :: "u32 \<Rightarrow> u32 \<Rightarrow> u32 \<Rightarrow> nat \<Rightarrow> tipc_world \<Rightarrow> (nat res \<times> tipc_world) outcome" where
  "handle_chan_msg remote local ns_data len s =
     (let dev = tw_dev s;
          msg = \<lparr>k_num_iov = 1, k_iov = Some [\<lparr>iov_base = ns_data, iov_len = word_of_nat len\<rparr>], k_num_handles = 0\<rparr>
      in case lookup_ept dev local of
           None \<Rightarrow> Done (Inl ERR_NOT_FOUND, s)
         | Some ept \<Rightarrow>
             if ept_remote (epts dev ! ept) \<noteq> remote then Done (Inl ERR_NOT_FOUND, s)
             else (case ept_chan (epts dev ! ept) of
               None \<Rightarrow> Done (Inl ERR_NOT_FOUND, s)
             | Some chan \<Rightarrow>
                 if 0 < len \<and> \<not> mapped (tw_vmm s) ns_data len then Fault
                 else (case ipc_send_msg (tw_mem s) no_umem (Some chan) (Some msg) (tw_k s) of
                         (r, k1) \<Rightarrow> Done (r, s\<lparr>tw_k := k1\<rparr>))))"

text \<open>A message in the first mapped segment; the header is loaded once.\<close>

definition rx_dispatch :: "iovec_kern \<Rightarrow> ns_view \<Rightarrow> tx_wake list \<Rightarrow> tipc_world \<Rightarrow> (nat res \<times> tipc_world) outcome" where
  "rx_dispatch iov nv wks s =
     (if unat (iov_len iov) < 16 then Done (Inl ERR_INVALID_ARGS, s)
      else if \<not> mapped (tw_vmm s) (iov_base iov) 16 then Fault
      else
        (let hdr = kread (tw_mem s) (iov_base iov) 16;
             ns_data = iov_base iov + 16;
             ns_data_len = unat (hdr_len hdr)
         in if ns_data_len + 16 \<noteq> unat (iov_len iov) then Done (Inl ERR_INVALID_ARGS, s)
            else if hdr_dst hdr = TIPC_CTRL_ADDR
            then bind_outcome (handle_ctrl_msg (hdr_src hdr) ns_data ns_data_len nv wks s)
                   (\<lambda>(r, s1). Done (case r of Inl e \<Rightarrow> Inl e | Inr _ \<Rightarrow> Inr 0, s1))
            else handle_chan_msg (hdr_src hdr) (hdr_dst hdr) ns_data ns_data_len s))"

definition handle_rx_msg ::
    "vqueue_buf \<Rightarrow> ns_view \<Rightarrow> tx_wake list \<Rightarrow> tipc_world \<Rightarrow> (nat res \<times> vqueue_buf \<times> tipc_world) outcome" where
  "handle_rx_msg buf nv wks s =
     (if vi_used (in_iovs buf) = 0 then Done (Inl ERR_INVALID_ARGS, buf, s)
      else case vqueue_map_iovs (in_iovs buf) (tw_vmm s) of
          (Inl e, in1, vm1) \<Rightarrow> Done (Inl e, buf\<lparr>in_iovs := in1\<rparr>, s\<lparr>tw_vmm := vm1\<rparr>)
        | (Inr _, in1, vm1) \<Rightarrow>
            bind_outcome (rx_dispatch (vi_iovs in1 ! 0) nv wks (s\<lparr>tw_vmm := vm1\<rparr>)) (\<lambda>(ret, s1).
              let (in2, vm2) = vqueue_unmap_iovs in1 (tw_vmm s1)
              in Done (ret, buf\<lparr>in_iovs := in2\<rparr>, s1\<lparr>tw_vmm := vm2\<rparr>)))"

text \<open>
  One pass of the receive thread, from the return of \<^verbatim>\<open>event_wait\<close>: the last component says whether
  the thread goes on.
\<close>

definition rx_buf0 :: vqueue_buf where
  "rx_buf0 = \<lparr>vb_head = 0,
     in_iovs = \<lparr>vi_cnt = 1, vi_used = 0, vi_len = 0, vi_phys = [0], vi_iovs = [\<lparr>iov_base = 0, iov_len = 0\<rparr>]\<rparr>,
     out_iovs = \<lparr>vi_cnt = 0, vi_used = 0, vi_len = 0, vi_phys = [], vi_iovs = []\<rparr>\<rparr>"

definition rx_return :: "nat res \<Rightarrow> vqueue_buf \<Rightarrow> tipc_world \<Rightarrow> (vqueue_buf \<times> tipc_world \<times> bool) outcome" where
  "rx_return ret buf s = (case vqueue_add_buf (vq_rx (tw_dev s)) buf (res_code ret) of
     (Inl ERR_CHANNEL_CLOSED, vq) \<Rightarrow> Done (buf, upd_dev (\<lambda>d. d\<lparr>vq_rx := vq\<rparr>) s, False)
   | (Inl _, vq) \<Rightarrow> Panic
   | (Inr _, vq) \<Rightarrow> Done (buf, upd_dev (\<lambda>d. d\<lparr>vq_rx := vq\<rparr>) s, True))"

definition rx_pass ::
    "ns_view \<Rightarrow> ns_view \<Rightarrow> tx_wake list \<Rightarrow> vqueue_buf \<Rightarrow> tipc_world \<Rightarrow> (vqueue_buf \<times> tipc_world \<times> bool) outcome" where
  "rx_pass rv nv wks buf s =
     bind_outcome (vqueue_get_avail_buf rv (vq_rx (tw_dev s)) buf) (\<lambda>(r, vq, buf1).
       let s1 = upd_dev (\<lambda>d. d\<lparr>vq_rx := vq\<rparr>) s in
       case r of
         Inl ERR_CHANNEL_CLOSED \<Rightarrow> Done (buf1, s1, False)
       | Inl ERR_NOT_ENOUGH_BUFFER \<Rightarrow> Done (buf1, s1, True)
       | Inl e \<Rightarrow> rx_return (Inl e) buf1 s1
       | Inr _ \<Rightarrow> bind_outcome (handle_rx_msg buf1 nv wks s1) (\<lambda>(ret, buf2, s2). rx_return ret buf2 s2))"

fun tipc_rx_thread :: "((tipc_world \<Rightarrow> tipc_world) \<times> ns_view \<times> ns_view \<times> tx_wake list) list \<Rightarrow> vqueue_buf \<Rightarrow> tipc_world \<Rightarrow> tipc_world outcome" where
  "tipc_rx_thread [] buf s = (if rx_stop (tw_dev s) then Done s else Blocked)"
| "tipc_rx_thread ((others, rv, nv, wks) # ps) buf s =
     (if rx_stop (tw_dev s) then Done s
      else (case rx_pass rv nv wks buf (others s) of
              Blocked \<Rightarrow> Blocked | Panic \<Rightarrow> Panic | Fault \<Rightarrow> Fault
            | Done (buf1, s1, go) \<Rightarrow> if go then tipc_rx_thread ps buf1 s1 else Done s1))"

section \<open>Events of the channels\<close>

definition tx_data_cb :: "addr \<Rightarrow> u32 \<Rightarrow> data_cb" where
  "tx_data_cb chan mid buf buf_len s =
     (let msg = \<lparr>k_num_iov = 1, k_iov = Some [\<lparr>iov_base = buf, iov_len = word_of_nat buf_len\<rparr>], k_num_handles = 0\<rparr>;
          (km, um, r, k1) = ipc_read_msg (tw_mem s) no_umem (Some chan) mid 0 (Some msg) (tw_k s)
      in (r, s\<lparr>tw_mem := km, tw_k := k1\<rparr>))"

text \<open>The loop of \<^verbatim>\<open>handle_tx_msg\<close>; one element of the list serves the transmission of one message.\<close>

fun tx_msg_loop :: "addr \<Rightarrow> u32 \<Rightarrow> (ns_view \<times> tx_wake list) list \<Rightarrow> tipc_world \<Rightarrow> tipc_world outcome" where
  "tx_msg_loop chan remote envs s =
     (case ipc_get_msg (Some chan) (tw_k s) of
        (Inl ERR_NO_MSG, k1) \<Rightarrow> Done (s\<lparr>tw_k := k1\<rparr>)
      | (Inl _, k1) \<Rightarrow> Panic
      | (Inr info, k1) \<Rightarrow>
          (case envs of
             [] \<Rightarrow> Blocked
           | (nv, wks) # envs1 \<Rightarrow>
               (case tipc_send_data 0 remote (Some (tx_data_cb chan (info_id info))) (ucast (info_len info)) True nv wks (s\<lparr>tw_k := k1\<rparr>) of
                  Blocked \<Rightarrow> Blocked | Panic \<Rightarrow> Panic | Fault \<Rightarrow> Fault
                | Done (_, s1) \<Rightarrow>
                    tx_msg_loop chan remote envs1 (s1\<lparr>tw_k := snd (ipc_put_msg (Some chan) (info_id info) (tw_k s1))\<rparr>))))"

definition handle_tx_msg :: "addr \<Rightarrow> (ns_view \<times> tx_wake list) list \<Rightarrow> tipc_world \<Rightarrow> tipc_world outcome" where
  "handle_tx_msg chan envs s = (case cookie_ept (handle_get_cookie (tw_k s) chan) of
     None \<Rightarrow> Done s
   | Some ept \<Rightarrow> tx_msg_loop chan (ept_remote (epts (tw_dev s) ! ept)) envs s)"

definition handle_hup :: "addr \<Rightarrow> ns_view \<Rightarrow> tx_wake list \<Rightarrow> tipc_world \<Rightarrow> tipc_world outcome" where
  "handle_hup chan nv wks s = (case cookie_ept (handle_get_cookie (tw_k s) chan) of
     None \<Rightarrow> Done s
   | Some ept \<Rightarrow>
       (let remote = ept_remote (epts (tw_dev s) ! ept);
            local = ept_to_addr ept;
            s1 = upd_dev (\<lambda>d. free_local_addr d local) (drop_chan chan s)
        in bind_outcome (send_disc_req local remote nv wks s1) (\<lambda>(_, s2). Done s2)))"

definition handle_ready :: "addr \<Rightarrow> ns_view \<Rightarrow> tx_wake list \<Rightarrow> tipc_world \<Rightarrow> tipc_world outcome" where
  "handle_ready chan nv wks s = (case cookie_ept (handle_get_cookie (tw_k s) chan) of
     None \<Rightarrow> Done s
   | Some ept \<Rightarrow>
       bind_outcome (send_conn_rsp (ept_to_addr ept) (ept_remote (epts (tw_dev s) ! ept)) 0
                       (word_of_nat IPC_CHAN_MAX_BUF_SIZE) 1 nv wks s) (\<lambda>(_, s1). Done s1))"

definition tx_event :: "addr \<Rightarrow> u32 \<Rightarrow> ns_view \<Rightarrow> tx_wake list \<Rightarrow> (ns_view \<times> tx_wake list) list \<Rightarrow> tipc_world \<Rightarrow> tipc_world outcome" where
  "tx_event chan event nv wks envs s =
     bind_outcome
       (if event AND IPC_HANDLE_POLL_READY \<noteq> 0 then handle_ready chan nv wks s
        else if event AND IPC_HANDLE_POLL_MSG \<noteq> 0 then handle_tx_msg chan envs s
        else if event AND IPC_HANDLE_POLL_HUP \<noteq> 0 then handle_hup chan nv wks s
        else Done s)
       (\<lambda>s1. Done (s1\<lparr>tw_k := handle_decref chan (tw_k s1)\<rparr>))"

text \<open>
  One round of the loop of \<^verbatim>\<open>handle_tx\<close>: the wake-ups of its wait, what happened to the rest of the device
  meanwhile, and the rings that the handlers see.
\<close>

record tx_round =
  tr_event :: nat
  tr_wakes :: "(handle_list \<times> kst) wake list"
  tr_others :: "tipc_dev \<Rightarrow> tipc_dev"
  tr_view :: ns_view
  tr_tx_wakes :: "tx_wake list"
  tr_envs :: "(ns_view \<times> tx_wake list) list"

fun handle_tx :: "tx_round list \<Rightarrow> tipc_world \<Rightarrow> tipc_world outcome" where
  "handle_tx [] s = Blocked"
| "handle_tx (rd # rds) s =
     (case handle_list_wait (td_hlist (tw_dev s)) (tr_event rd) (tr_wakes rd) (tw_k s) of
        None \<Rightarrow> Blocked
      | Some (ret, found, hl, k1) \<Rightarrow>
          (let s1 = upd_dev (\<lambda>d. (tr_others rd d)\<lparr>td_hlist := hl\<rparr>) (s\<lparr>tw_k := k1\<rparr>) in
           if ret = err_code ERR_NOT_FOUND then Done s1
           else if ret < 0 then Panic
           else (case found of
             None \<Rightarrow> Fault
           | Some (chan, event) \<Rightarrow>
               (case tx_event chan event (tr_view rd) (tr_tx_wakes rd) (tr_envs rd) s1 of
                  Blocked \<Rightarrow> Blocked | Panic \<Rightarrow> Panic | Fault \<Rightarrow> Fault
                | Done s2 \<Rightarrow> handle_tx rds s2))))"

text \<open>
  The transmit thread; one element of the list is a return of \<^verbatim>\<open>event_wait\<close> on \<^verbatim>\<open>have_handles\<close>, an event that
  resets itself.
\<close>

fun tipc_tx_thread :: "((tipc_world \<Rightarrow> tipc_world) \<times> tx_round list) list \<Rightarrow> tipc_world \<Rightarrow> tipc_world outcome" where
  "tipc_tx_thread [] s = (if tx_stop (tw_dev s) then Done s else Blocked)"
| "tipc_tx_thread ((others, rds) # ps) s =
     (if tx_stop (tw_dev s) then Done s
      else
        (let s1 = others s in
         if \<not> have_handles (tw_dev s1) then Blocked
         else (case handle_tx rds (upd_dev (\<lambda>d. d\<lparr>have_handles := False\<rparr>) s1) of
                 Blocked \<Rightarrow> Blocked | Panic \<Rightarrow> Panic | Fault \<Rightarrow> Fault
               | Done s2 \<Rightarrow> tipc_tx_thread ps s2)))"

section \<open>The device on the virtio bus\<close>

text \<open>The device descriptor \<^verbatim>\<open>struct tipc_vdev_descr\<close> in the resource table, packed and little-endian.\<close>

abbreviation RSC_VDEV :: u32 where "RSC_VDEV \<equiv> 3"
abbreviation VIRTIO_ID_TIPC :: u32 where "VIRTIO_ID_TIPC \<equiv> 13"
abbreviation TIPC_VQ_NUM :: u8 where "TIPC_VQ_NUM \<equiv> 2"

definition descr_type :: "u8 list \<Rightarrow> u32" where "descr_type d = le32 d"
definition descr_id :: "u8 list \<Rightarrow> u32" where "descr_id d = le32 (drop 4 d)"
definition descr_status :: "u8 list \<Rightarrow> u8" where "descr_status d = d ! 24"
definition descr_num_of_vrings :: "u8 list \<Rightarrow> u8" where "descr_num_of_vrings d = d ! 25"

definition vring_descr :: "u8 list \<Rightarrow> nat \<Rightarrow> nat \<Rightarrow> u32" where
  "vring_descr d i field = le32 (drop (28 + 20 * i + 4 * field) d)"

definition tipc_descr_size :: "tipc_dev \<Rightarrow> nat" where
  "tipc_descr_size dev = length (td_descr dev)"

definition tipc_get_vdev_descr :: "tipc_dev \<Rightarrow> u8 list" where
  "tipc_get_vdev_descr dev = take 8 (td_descr dev) @ enc32 (td_devid dev) @ drop 12 (td_descr dev)"

definition validate_descr :: "u8 list \<Rightarrow> unit res" where
  "validate_descr d =
     (if descr_type d \<noteq> RSC_VDEV then Inl ERR_INVALID_ARGS
      else if descr_id d \<noteq> VIRTIO_ID_TIPC then Inl ERR_INVALID_ARGS
      else if descr_num_of_vrings d \<noteq> TIPC_VQ_NUM then Inl ERR_INVALID_ARGS
      else if descr_status d \<noteq> 7 then Inl ERR_INVALID_ARGS
      else NO_ERROR)"

definition init_vq :: "u8 list \<Rightarrow> nat \<Rightarrow> vqueue \<Rightarrow> vmm \<Rightarrow> unit res \<times> vqueue \<times> vmm \<times> bool" where
  "init_vq d i vq vm = vqueue_init (vring_descr d i 3) (vring_descr d i 0) (vring_descr d i 2) (vring_descr d i 1) True vq vm"

text \<open>
  The descriptor has been checked to announce two rings, so the loop over them is two steps. The last
  component says that a queue, which is a part of the device, has been passed to \<^verbatim>\<open>free\<close>.
\<close>

definition tipc_dev_probe ::
    "u8 list \<Rightarrow> ns_view \<Rightarrow> tx_wake list \<Rightarrow> tipc_world \<Rightarrow> (unit res \<times> tipc_world \<times> bool) outcome" where
  "tipc_dev_probe d nv wks s =
     (if td_state (tw_dev s) \<noteq> VDEV_STATE_RESET then Done (Inl ERR_BAD_STATE, s, False)
      else case validate_descr d of
        Inl e \<Rightarrow> Done (Inl e, s, False)
      | Inr _ \<Rightarrow>
          (case init_vq d 0 (vq_tx (tw_dev s)) (tw_vmm s) of
             (Inl e, tx, vm1, freed) \<Rightarrow> Done (Inl e, upd_dev (\<lambda>d. d\<lparr>vq_tx := tx\<rparr>) (s\<lparr>tw_vmm := vm1\<rparr>), freed)
           | (Inr _, tx, vm1, _) \<Rightarrow>
               (case init_vq d 1 (vq_rx (tw_dev s)) vm1 of
                  (Inl e, rx, vm2, freed) \<Rightarrow>
                    (let (tx1, vm3) = vqueue_destroy tx vm2
                     in Done (Inl e, upd_dev (\<lambda>d. d\<lparr>vq_tx := tx1, vq_rx := rx\<rparr>) (s\<lparr>tw_vmm := vm3\<rparr>), freed))
                | (Inr _, rx, vm2, _) \<Rightarrow>
                    bind_outcome (go_online nv wks (upd_dev (\<lambda>d. d\<lparr>vq_tx := tx, vq_rx := rx\<rparr>) (s\<lparr>tw_vmm := vm2\<rparr>)))
                      (\<lambda>(r, s1). Done (r, if r = NO_ERROR then upd_dev (\<lambda>d. d\<lparr>td_state := VDEV_STATE_ACTIVE\<rparr>) s1 else s1, False)))))"

fun close_chans :: "nat list \<Rightarrow> tipc_world \<Rightarrow> tipc_world" where
  "close_chans [] s = s"
| "close_chans (slot # slots) s =
     (if \<not> bitmap_test (td_inuse (tw_dev s)) slot then close_chans slots s
      else case ept_chan (epts (tw_dev s) ! slot) of
          None \<Rightarrow> close_chans slots s
        | Some chan \<Rightarrow> close_chans slots (upd_dev (\<lambda>d. free_local_addr d (ept_to_addr slot)) (drop_chan chan s)))"

text \<open>\<open>rx_join\<close> and \<open>tx_join\<close> are the results of joining the two threads, and what these did until then.\<close>

definition tipc_dev_reset ::
    "unit res \<times> (tipc_world \<Rightarrow> tipc_world) \<Rightarrow> unit res \<times> (tipc_world \<Rightarrow> tipc_world) \<Rightarrow> tipc_world \<Rightarrow>
     (unit res \<times> tipc_world) outcome" where
  "tipc_dev_reset rx_join tx_join s =
     (if td_state (tw_dev s) = VDEV_STATE_RESET then Done (NO_ERROR, s)
      else
        (let s1 = snd rx_join (upd_dev (\<lambda>d. d\<lparr>rx_stop := True, vq_rx := vqueue_signal_avail (vq_rx d)\<rparr>) s) in
         if fst rx_join \<noteq> NO_ERROR then Panic
         else
           (let s2 = close_chans [0..<TIPC_ADDR_MAX_NUM] (upd_dev (\<lambda>d. d\<lparr>rx_stop := False, tx_stop := True\<rparr>) s1);
                s3 = snd tx_join (upd_dev (\<lambda>d. d\<lparr>have_handles := True, vq_tx := vqueue_signal_avail (vq_tx d)\<rparr>) s2)
            in if fst tx_join \<noteq> NO_ERROR then Panic
               else
                 (let (rx, vm1) = vqueue_destroy (vq_rx (tw_dev s3)) (tw_vmm s3);
                      (tx, vm2) = vqueue_destroy (vq_tx (tw_dev s3)) vm1
                  in Done (NO_ERROR, upd_dev (\<lambda>d. d\<lparr>tx_stop := False, vq_rx := rx, vq_tx := tx, td_state := VDEV_STATE_RESET\<rparr>)
                       (s3\<lparr>tw_vmm := vm2\<rparr>))))))"

text \<open>Both notification callbacks signal their queue.\<close>

definition tipc_vdev_kick_vq :: "tipc_dev \<Rightarrow> u32 \<Rightarrow> unit res \<times> tipc_dev" where
  "tipc_vdev_kick_vq dev vqid =
     (if vqid = vq_id (vq_tx dev) then (NO_ERROR, dev\<lparr>vq_tx := vqueue_notify (vq_tx dev) vqueue_signal_avail\<rparr>)
      else if vqid = vq_id (vq_rx dev) then (NO_ERROR, dev\<lparr>vq_rx := vqueue_notify (vq_rx dev) vqueue_signal_avail\<rparr>)
      else (Inl ERR_NOT_FOUND, dev))"

definition zero_vq :: vqueue where
  "zero_vq = \<lparr>vq_id = 0, vq_vring = \<lparr>vr_num = 0, vr_desc = 0, vr_avail = 0, vr_used = 0\<rparr>, vring_addr = 0, vring_sz = 0,
     last_avail_idx = 0, avail_event = False, vq_notify = False, used_flags = 0, used_idx = 0, used_ring = (\<lambda>_. (0, 0))\<rparr>"

text \<open>The device before it is registered with the bus, which gives it its number.\<close>

definition create_tipc_device :: "u8 list \<Rightarrow> uuid_ptr \<Rightarrow> kst \<Rightarrow> tipc_dev res \<times> kst" where
  "create_tipc_device descr uuid w =
     (let (ok, w1) = kalloc w in
      if \<not> ok then (Inl ERR_NO_MEMORY, w1)
      else (Inr \<lparr>td_state = VDEV_STATE_RESET, td_devid = 0, td_uuid = uuid, td_descr = descr, vq_tx = zero_vq, vq_rx = zero_vq,
                 epts = replicate TIPC_ADDR_MAX_NUM \<lparr>ept_remote = 0, ept_chan = None\<rparr>,
                 td_inuse = replicate (BITMAP_NUM_WORDS TIPC_ADDR_MAX_NUM) 0, have_handles = False,
                 td_hlist = handle_list_init, tx_stop = False, rx_stop = False\<rparr>, w1))"

declare tx_get_buf.simps [simp del] tx_msg_loop.simps [simp del]

end
