(* ===== verification/Tipc_Ept.thy ===== *)
theory Tipc_Ept
  imports Tipc_Dev
begin

text \<open>
  The endpoint table of the TIPC device (\<^verbatim>\<open>tipc_dev.c\<close>) is a finite map from local addresses to
  channels with their remote addresses. Slots are allocated by the bitmap contract of the
  theory \<open>Bitmap\<close>, specialised to 256 bits.
\<close>

section \<open>The table\<close>

abbreviation dchans :: "tipc_dev \<Rightarrow> addr list" where
  "dchans dev \<equiv> somes (map ept_chan (epts dev))"

definition table_wf :: "tipc_dev \<Rightarrow> bool" where
  "table_wf dev \<longleftrightarrow>
     length (td_inuse dev) = BITMAP_NUM_WORDS TIPC_ADDR_MAX_NUM \<and> length (epts dev) = TIPC_ADDR_MAX_NUM \<and>
     (\<forall>i < TIPC_ADDR_MAX_NUM. bitmap_test (td_inuse dev) i \<longleftrightarrow> ept_chan (epts dev ! i) \<noteq> None) \<and>
     distinct (dchans dev)"

text \<open>The slot of a channel.\<close>

definition dslot :: "tipc_dev \<Rightarrow> addr \<Rightarrow> nat option" where
  "dslot dev c = find (\<lambda>s. ept_chan (epts dev ! s) = Some c) [0..<TIPC_ADDR_MAX_NUM]"

text \<open>The abstract table: the endpoint that stands for a local address.\<close>

definition etab :: "tipc_dev \<Rightarrow> u32 \<Rightarrow> (u32 \<times> addr) option" where
  "etab dev a = (case lookup_ept dev a of
     None \<Rightarrow> None
   | Some s \<Rightarrow> map_option (\<lambda>c. (ept_remote (epts dev ! s), c)) (ept_chan (epts dev ! s)))"

lemma ept_addr_slot: "s < TIPC_ADDR_MAX_NUM \<Longrightarrow> unat (addr_to_slot (ept_to_addr s)) = s"
  by (simp add: addr_to_slot_def ept_to_addr_def slot_to_addr_def unat_of_nat TIPC_ADDR_MAX_NUM_def)

lemma ept_addr_bounds:
  assumes "s < TIPC_ADDR_MAX_NUM"
  shows "unat (ept_to_addr s) = s + 1000" "ept_to_addr s \<noteq> 0"
proof -
  have "ept_to_addr s = word_of_nat (s + 1000)" by (simp add: ept_to_addr_def slot_to_addr_def TIPC_ADDR_BASE_def)
  moreover have "unat (word_of_nat (s + 1000) :: u32) = s + 1000"
    by (subst unat_of_nat, rule mod_less) (use assms in \<open>simp add: TIPC_ADDR_MAX_NUM_def\<close>)
  ultimately show "unat (ept_to_addr s) = s + 1000" by simp
  then show "ept_to_addr s \<noteq> 0" by auto
qed

lemma lookup_ept_iff:
  "lookup_ept dev a = Some s \<longleftrightarrow> s < TIPC_ADDR_MAX_NUM \<and> a = ept_to_addr s \<and> bitmap_test (td_inuse dev) s"
proof -
  have "a = ept_to_addr s" if "unat (addr_to_slot a) = s"
    using that by (auto simp: addr_to_slot_def ept_to_addr_def slot_to_addr_def)
  then show ?thesis using ept_addr_slot [of s] by (auto simp: lookup_ept_def Let_def)
qed

lemma dslot_SomeD: "dslot dev c = Some s \<Longrightarrow> s < TIPC_ADDR_MAX_NUM \<and> ept_chan (epts dev ! s) = Some c"
  by (auto simp: dslot_def find_Some_iff)

lemma somes_distinct_nth:
  assumes "distinct (somes xs)" "i < length xs" "j < length xs" "xs ! i = Some c" "xs ! j = Some c"
  shows "i = j"
  using assms
proof (induction xs arbitrary: i j rule: somes.induct)
  case (2 xs)
  then show ?case by (cases i; cases j) auto
next
  case (3 y xs)
  then show ?case by (cases i; cases j) (auto simp: set_somes)
qed simp

lemma dslot_iff:
  assumes "table_wf dev"
  shows "dslot dev c = Some s \<longleftrightarrow> s < TIPC_ADDR_MAX_NUM \<and> ept_chan (epts dev ! s) = Some c"
proof
  assume s: "s < TIPC_ADDR_MAX_NUM \<and> ept_chan (epts dev ! s) = Some c"
  have l: "length (epts dev) = TIPC_ADDR_MAX_NUM" "distinct (dchans dev)" using assms by (auto simp: table_wf_def)
  have "dslot dev c \<noteq> None" using s by (auto simp: dslot_def find_None_iff)
  then obtain t where t: "dslot dev c = Some t" by blast
  then have "t = s" using s dslot_SomeD [OF t] somes_distinct_nth [OF l(2), of t s c] l(1) by simp
  then show "dslot dev c = Some s" using t by simp
qed (rule dslot_SomeD)

lemma dslot_None: "table_wf dev \<Longrightarrow> dslot dev c = None \<longleftrightarrow> c \<notin> set (dchans dev)"
  by (auto simp: dslot_def find_None_iff set_somes table_wf_def)

section \<open>Allocating and freeing an address\<close>

lemma alloc_cases_ept:
  assumes wf: "table_wf dev" and n: "chan \<notin> set (dchans dev)" and e: "alloc_local_addr dev remote chan = (a, dev')"
  obtains (full) "a = 0" "dev' = dev" "\<And>i. i < TIPC_ADDR_MAX_NUM \<Longrightarrow> ept_chan (epts dev ! i) \<noteq> None"
  | (ok) s b where "s < TIPC_ADDR_MAX_NUM" "ept_chan (epts dev ! s) = None" "a = ept_to_addr s" "a \<noteq> 0"
      "dev' = dev\<lparr>td_inuse := b, epts := (epts dev)[s := \<lparr>ept_remote = remote, ept_chan = Some chan\<rparr>]\<rparr>" "table_wf dev'"
      "mset (dchans dev') = add_mset chan (mset (dchans dev))" "dslot dev' = (dslot dev)(chan \<mapsto> s)"
proof (cases "bitmap_ffz (td_inuse dev) TIPC_ADDR_MAX_NUM")
  case None
  have l: "length (td_inuse dev) = BITMAP_NUM_WORDS TIPC_ADDR_MAX_NUM" using wf by (simp add: table_wf_def)
  have "ept_chan (epts dev ! i) \<noteq> None" if "i < TIPC_ADDR_MAX_NUM" for i
    using bits.first_free_None [OF l None that] wf that by (simp add: table_wf_def)
  then show ?thesis using full e None by (simp add: alloc_local_addr_def)
next
  case (Some s)
  let ?b = "fst (bitmap_set (td_inuse dev) s)"
  let ?es = "(epts dev)[s := \<lparr>ept_remote = remote, ept_chan = Some chan\<rparr>]"
  have l: "length (td_inuse dev) = BITMAP_NUM_WORDS TIPC_ADDR_MAX_NUM" "length (epts dev) = TIPC_ADDR_MAX_NUM"
    using wf by (simp_all add: table_wf_def)
  have s: "s < TIPC_ADDR_MAX_NUM" "ept_chan (epts dev ! s) = None"
    using bits.first_free_Some [OF l(1) Some] wf by (auto simp: table_wf_def)
  have d: "dev' = dev\<lparr>td_inuse := ?b, epts := ?es\<rparr>" "a = ept_to_addr s"
    using e Some by (auto simp: alloc_local_addr_def ept_to_addr_def)
  have m: "mset (dchans dev') = add_mset chan (mset (dchans dev))"
    using mset_somes_set [of s "map ept_chan (epts dev)" chan] s l d(1) by (simp add: map_update)
  have "distinct (dchans dev')" using mset_eq_imp_distinct_iff [of "dchans dev'" "chan # dchans dev"] m wf n by (simp add: table_wf_def)
  moreover have "bitmap_test ?b j \<longleftrightarrow> ept_chan (?es ! j) \<noteq> None" if "j < TIPC_ADDR_MAX_NUM" for j
    using bits.test_mark [OF l(1) s(1) that] wf that l s by (auto simp: table_wf_def nth_list_update)
  ultimately have wf': "table_wf dev'" using l d(1) by (simp add: table_wf_def)
  have "dslot dev' c = ((dslot dev)(chan \<mapsto> s)) c" for c
  proof (cases "c = chan")
    case True
    then show ?thesis using dslot_iff [OF wf', of chan s] s l d(1) by simp
  next
    case False
    have "dslot dev' c = Some t \<longleftrightarrow> dslot dev c = Some t" for t
      unfolding dslot_iff [OF wf'] dslot_iff [OF wf] using False s l d(1) by (auto simp: nth_list_update)
    then show ?thesis using False by (metis fun_upd_other not_None_eq)
  qed
  then have "dslot dev' = (dslot dev)(chan \<mapsto> s)" by (rule ext)
  moreover have "a \<noteq> 0" using ept_addr_bounds(2) [OF s(1)] d(2) by simp
  ultimately show ?thesis using ok [of s ?b] s d m wf' by blast
qed

lemma free_local_spec:
  assumes wf: "table_wf dev" and s: "s < TIPC_ADDR_MAX_NUM" "ept_chan (epts dev ! s) = Some c"
  obtains b where "free_local_addr dev (ept_to_addr s) = dev\<lparr>td_inuse := b, epts := (epts dev)[s := \<lparr>ept_remote = 0, ept_chan = None\<rparr>]\<rparr>"
    "table_wf (free_local_addr dev (ept_to_addr s))" "mset (dchans dev) = add_mset c (mset (dchans (free_local_addr dev (ept_to_addr s))))"
    "dslot (free_local_addr dev (ept_to_addr s)) = (dslot dev)(c := None)"
proof -
  let ?b = "fst (bitmap_clear (td_inuse dev) s)"
  let ?es = "(epts dev)[s := \<lparr>ept_remote = 0, ept_chan = None\<rparr>]"
  let ?dev = "free_local_addr dev (ept_to_addr s)"
  have l: "length (td_inuse dev) = BITMAP_NUM_WORDS TIPC_ADDR_MAX_NUM" "length (epts dev) = TIPC_ADDR_MAX_NUM"
    using wf by (simp_all add: table_wf_def)
  have d: "?dev = dev\<lparr>td_inuse := ?b, epts := ?es\<rparr>" using ept_addr_slot [OF s(1)] s(1) by (simp add: free_local_addr_def)
  have m: "mset (dchans dev) = add_mset c (mset (dchans ?dev))"
    using mset_somes_clear [of s "map ept_chan (epts dev)" c] s l d by (simp add: map_update)
  have dd: "distinct (c # dchans ?dev)" using mset_eq_imp_distinct_iff [of "dchans dev" "c # dchans ?dev"] m wf by (simp add: table_wf_def)
  have "bitmap_test ?b j \<longleftrightarrow> ept_chan (?es ! j) \<noteq> None" if "j < TIPC_ADDR_MAX_NUM" for j
    using bits.test_clear [OF l(1) s(1) that] wf that l s by (auto simp: table_wf_def nth_list_update)
  then have wf': "table_wf ?dev" using l d dd by (simp add: table_wf_def)
  have "dslot ?dev x = ((dslot dev)(c := None)) x" for x
  proof (cases "x = c")
    case True
    then show ?thesis using dslot_None [OF wf', of c] dd by simp
  next
    case False
    have "dslot ?dev x = Some t \<longleftrightarrow> dslot dev x = Some t" for t
      unfolding dslot_iff [OF wf'] dslot_iff [OF wf] using False s l d by (auto simp: nth_list_update)
    then show ?thesis using False by (metis fun_upd_other not_None_eq)
  qed
  then have "dslot ?dev = (dslot dev)(c := None)" by (rule ext)
  then show ?thesis using that [of ?b] d m wf' by blast
qed

lemma etab_eq:
  assumes "table_wf dev" "s < TIPC_ADDR_MAX_NUM"
  shows "etab dev (ept_to_addr s) = map_option (\<lambda>c. (ept_remote (epts dev ! s), c)) (ept_chan (epts dev ! s))"
proof (cases "bitmap_test (td_inuse dev) s")
  case True
  then show ?thesis using assms(2) lookup_ept_iff [of dev "ept_to_addr s" s] by (simp add: etab_def)
next
  case False
  then have "ept_chan (epts dev ! s) = None" using assms by (simp add: table_wf_def)
  moreover have "lookup_ept dev (ept_to_addr s) = None"
  proof (rule ccontr)
    assume "lookup_ept dev (ept_to_addr s) \<noteq> None"
    then obtain t where t: "lookup_ept dev (ept_to_addr s) = Some t" by blast
    then have e: "ept_to_addr s = ept_to_addr t" and b: "t < TIPC_ADDR_MAX_NUM" "bitmap_test (td_inuse dev) t"
      unfolding lookup_ept_iff by blast+
    have "s = t" using ept_addr_slot [OF assms(2)] ept_addr_slot [OF b(1)] unfolding e by simp
    then show False using False b(2) by blast
  qed
  ultimately show ?thesis by (simp add: etab_def)
qed

lemma etab_outside:
  assumes "\<And>s. s < TIPC_ADDR_MAX_NUM \<Longrightarrow> a \<noteq> ept_to_addr s"
  shows "etab dev a = None"
proof -
  have "lookup_ept dev a = None" using assms lookup_ept_iff [of dev a] by (metis not_None_eq)
  then show ?thesis by (simp add: etab_def)
qed

lemma etab_update:
  assumes "table_wf dev" "table_wf dev'" "s < TIPC_ADDR_MAX_NUM" "epts dev' = (epts dev)[s := e]"
  shows "etab dev' = (etab dev)(ept_to_addr s := map_option (\<lambda>c. (ept_remote e, c)) (ept_chan e))"
proof
  fix a
  have l: "length (epts dev) = TIPC_ADDR_MAX_NUM" using assms(1) by (simp add: table_wf_def)
  show "etab dev' a = ((etab dev)(ept_to_addr s := map_option (\<lambda>c. (ept_remote e, c)) (ept_chan e))) a"
  proof (cases "\<exists>t < TIPC_ADDR_MAX_NUM. a = ept_to_addr t")
    case True
    then obtain t where t: "t < TIPC_ADDR_MAX_NUM" "a = ept_to_addr t" by blast
    moreover have "ept_to_addr t = ept_to_addr s \<longleftrightarrow> t = s" using ept_addr_slot [of s] ept_addr_slot [of t] t(1) assms(3) by metis
    ultimately show ?thesis using etab_eq [OF assms(1), of t] etab_eq [OF assms(2), of t] l assms(3,4) by (simp add: nth_list_update)
  next
    case False
    then show ?thesis using etab_outside [of a dev] etab_outside [of a dev'] assms(3) by auto
  qed
qed

text \<open>C38: The endpoint table is a finite map. Allocating an address for a channel fails, without effect, only
  when all 256 are taken; otherwise it gives a free address between 1000 and 1255 that stands for
  the channel and the remote address from then on, every other address keeps its meaning,
  and freeing the address restores the table.
\<close>

theorem ept_table_roundtrip:
  assumes "table_wf dev" "chan \<notin> set (dchans dev)" "alloc_local_addr dev remote chan = (a, dev')"
  shows "(a = 0 \<and> dev' = dev \<and> (\<forall>b. 1000 \<le> unat b \<and> unat b < 1256 \<longrightarrow> etab dev b \<noteq> None)) \<or>
    (1000 \<le> unat a \<and> unat a < 1256 \<and> etab dev a = None \<and> etab dev' = (etab dev)(a \<mapsto> (remote, chan)) \<and>
     etab (free_local_addr dev' a) = etab dev)"
  using assms
proof (cases rule: alloc_cases_ept)
  case full
  have "etab dev b \<noteq> None" if "1000 \<le> unat b" "unat b < 1256" for b
  proof -
    let ?s = "unat b - 1000"
    have "?s < TIPC_ADDR_MAX_NUM" using that by (simp add: TIPC_ADDR_MAX_NUM_def)
    moreover have "b = ept_to_addr ?s" using that by (simp add: ept_to_addr_def slot_to_addr_def TIPC_ADDR_BASE_def of_nat_diff)
    ultimately show ?thesis using etab_eq [OF assms(1), of ?s] full(3) [of ?s] by auto
  qed
  then show ?thesis using full by blast
next
  case (ok s b)
  have e: "etab dev a = None" using etab_eq [OF assms(1) ok(1)] ok(2,3) by simp
  have u: "etab dev' = (etab dev)(a \<mapsto> (remote, chan))"
    using etab_update [OF assms(1) ok(6,1), of "\<lparr>ept_remote = remote, ept_chan = Some chan\<rparr>"] ok(3,5) by simp
  have c: "ept_chan (epts dev' ! s) = Some chan" using ok(1,5) assms(1) by (simp add: table_wf_def)
  obtain b' where f: "free_local_addr dev' (ept_to_addr s) = dev'\<lparr>td_inuse := b', epts := (epts dev')[s := \<lparr>ept_remote = 0, ept_chan = None\<rparr>]\<rparr>"
    "table_wf (free_local_addr dev' (ept_to_addr s))" using free_local_spec [OF ok(6,1) c] by metis
  have "etab (free_local_addr dev' (ept_to_addr s)) = (etab dev')(ept_to_addr s := None)"
    using etab_update [OF ok(6) f(2) ok(1), of "\<lparr>ept_remote = 0, ept_chan = None\<rparr>"] f(1) by simp
  then have "etab (free_local_addr dev' a) = etab dev" using u e ok(3) by (simp add: fun_upd_idem)
  then show ?thesis using e u ept_addr_bounds(1) [OF ok(1)] ok(1,3) by (auto simp: TIPC_ADDR_MAX_NUM_def)
qed

text \<open>C39: While no two endpoints have the same remote address, the endpoint that a disconnect request is
  for does not depend on the local address it names: the shortcut through that address
  finds the same endpoint as the search of the whole table.
\<close>

theorem disc_target_is_search:
  assumes "table_wf dev"
    "\<forall>s < TIPC_ADDR_MAX_NUM. \<forall>t < TIPC_ADDR_MAX_NUM. ept_chan (epts dev ! s) \<noteq> None \<and> ept_chan (epts dev ! t) \<noteq> None \<and>
       ept_remote (epts dev ! s) = ept_remote (epts dev ! t) \<longrightarrow> s = t"
  shows "disc_target dev remote target = find_ept_by_remote dev remote"
proof (cases "lookup_ept dev target")
  case (Some s)
  then have s: "s < TIPC_ADDR_MAX_NUM" "bitmap_test (td_inuse dev) s" by (auto simp: lookup_ept_iff)
  show ?thesis
  proof (cases "ept_remote (epts dev ! s) = remote")
    case True
    have "find_ept_by_remote dev remote \<noteq> None" using s True by (auto simp: find_ept_by_remote_def find_None_iff)
    then obtain t where t: "find_ept_by_remote dev remote = Some t" by blast
    then have "t < TIPC_ADDR_MAX_NUM" "bitmap_test (td_inuse dev) t" "ept_remote (epts dev ! t) = remote"
      by (auto simp: find_ept_by_remote_def find_Some_iff)
    then have "t = s" using assms s True by (auto simp: table_wf_def)
    then show ?thesis using t Some True by (simp add: disc_target_def)
  qed (use Some in \<open>simp add: disc_target_def\<close>)
qed (simp add: disc_target_def)

section \<open>A device\<close>

definition new_dev :: tipc_dev where
  "new_dev = (case create_tipc_device (replicate 108 0) ZERO_UUID init_kst of (Inr dev, _) \<Rightarrow> dev)"

lemma somes_none: "somes (replicate n None) = []"
  by (induction n) auto

lemma created_wf:
  assumes "create_tipc_device descr uuid w = (Inr dev, w')"
  shows "table_wf dev" "dchans dev = []" "hl_handles (td_hlist dev) = []"
proof -
  have t: "bitmap_test (replicate n 0) i = False" if "i div 32 < n" for n i using that by (simp add: bitmap_test_def)
  show "table_wf dev" "dchans dev = []" "hl_handles (td_hlist dev) = []" using assms
    by (auto simp: create_tipc_device_def table_wf_def handle_list_init_def somes_none t slot_div_bound split: prod.splits if_splits)
qed

lemma new_dev_created: "\<exists>w. create_tipc_device (replicate 108 0) ZERO_UUID init_kst = (Inr new_dev, w)"
  by (simp add: new_dev_def create_tipc_device_def kalloc_def init_kst_def)

lemma new_dev_wf: "table_wf new_dev" "dchans new_dev = []" "hl_handles (td_hlist new_dev) = []"
  using new_dev_created created_wf by blast+

lemma new_dev_free: "i < TIPC_ADDR_MAX_NUM \<Longrightarrow> ept_chan (epts new_dev ! i) = None"
proof (rule ccontr)
  assume i: "i < TIPC_ADDR_MAX_NUM" "ept_chan (epts new_dev ! i) \<noteq> None"
  then obtain c where "ept_chan (epts new_dev ! i) = Some c" by blast
  then have "c \<in> set (dchans new_dev)" using i(1) new_dev_wf(1) unfolding set_somes by (auto simp: table_wf_def)
  then show False using new_dev_wf(2) by simp
qed

theorem ept_table_roundtrip_witness:
  "\<exists>a dev'. alloc_local_addr new_dev 77 5 = (a, dev') \<and> 1000 \<le> unat a \<and> etab dev' a = Some (77, 5) \<and>
     etab (free_local_addr dev' a) a = None"
proof -
  obtain a dev' where d: "alloc_local_addr new_dev 77 5 = (a, dev')" by force
  have z: "(0 :: nat) < TIPC_ADDR_MAX_NUM" by (simp add: TIPC_ADDR_MAX_NUM_def)
  have "etab new_dev (ept_to_addr 0) = None" using etab_eq [OF new_dev_wf(1) z] new_dev_free [OF z] by simp
  then have "\<not> (\<forall>b. 1000 \<le> unat b \<and> unat b < 1256 \<longrightarrow> etab new_dev b \<noteq> None)"
    using ept_addr_bounds(1) [OF z] by (intro notI) (drule spec [of _ "ept_to_addr 0"], simp)
  then have "1000 \<le> unat a \<and> etab dev' = (etab new_dev)(a \<mapsto> (77, 5)) \<and> etab new_dev a = None \<and>
      etab (free_local_addr dev' a) = etab new_dev"
    using ept_table_roundtrip [OF new_dev_wf(1) _ d] new_dev_wf(2) by auto
  then show ?thesis using d by simp
qed

definition one_dev :: tipc_dev where
  "one_dev = snd (alloc_local_addr new_dev 77 5)"

theorem disc_target_is_search_witness:
  "disc_target one_dev 77 5000 = find_ept_by_remote one_dev 77 \<and> find_ept_by_remote one_dev 77 \<noteq> None"
proof -
  obtain a where d: "alloc_local_addr new_dev 77 5 = (a, one_dev)" unfolding one_dev_def by (metis prod.collapse)
  have z: "(0 :: nat) < TIPC_ADDR_MAX_NUM" by (simp add: TIPC_ADDR_MAX_NUM_def)
  note e = new_dev_free
  have "5 \<notin> set (dchans new_dev)" using new_dev_wf(2) by simp
  from new_dev_wf(1) this d show ?thesis
  proof (cases rule: alloc_cases_ept)
    case full
    then show ?thesis using e [OF z] full(3) [OF z] by simp
  next
    case (ok s b)
    have l: "length (epts new_dev) = TIPC_ADDR_MAX_NUM" using new_dev_wf(1) by (simp add: table_wf_def)
    have ep: "epts one_dev = (epts new_dev)[s := \<lparr>ept_remote = 77, ept_chan = Some 5\<rparr>]" using arg_cong [OF ok(5), of epts] by simp
    have "\<forall>s < TIPC_ADDR_MAX_NUM. \<forall>t < TIPC_ADDR_MAX_NUM. ept_chan (epts one_dev ! s) \<noteq> None \<and> ept_chan (epts one_dev ! t) \<noteq> None \<and>
       ept_remote (epts one_dev ! s) = ept_remote (epts one_dev ! t) \<longrightarrow> s = t"
      unfolding ep using e l ok(1) by (auto simp: nth_list_update split: if_splits)
    moreover have "find_ept_by_remote one_dev 77 \<noteq> None"
    proof -
      have "bitmap_test (td_inuse one_dev) s" "ept_remote (epts one_dev ! s) = 77" using ok(1,6) ep l by (auto simp: table_wf_def)
      then show ?thesis using ok(1) by (auto simp: find_ept_by_remote_def find_None_iff)
    qed
    ultimately show ?thesis using disc_target_is_search [OF ok(6)] by blast
  qed
qed

end
