(* ===== verification/Tipc_Safe.thy ===== *)
theory Tipc_Safe
  imports Tipc_Ept
begin

text \<open>
  The TIPC device keeps its invariant, and the invariant of the IPC objects, whatever the non-secure
  world puts in the rings and in the buffers. The device holds two references on the channel of every
  endpoint, its own and that of its handle list, and the cookie of the channel leads back to the
  endpoint.
\<close>

section \<open>Buffers from the rings\<close>

text \<open>A length up to the last page boundary can be rounded up to pages.\<close>

abbreviation len_ok :: "u32 \<Rightarrow> bool" where
  "len_ok n \<equiv> unat n \<le> 0xFFFFF000"

definition view_ok :: "ns_view \<Rightarrow> bool" where
  "view_ok nv \<longleftrightarrow> (\<forall>k i. len_ok (dl_len (nv_desc nv k i)))"

definition iovs_len_ok :: "vqueue_iovs \<Rightarrow> bool" where
  "iovs_len_ok l \<longleftrightarrow> (\<forall>i < vi_used l. len_ok (iov_len (vi_iovs l ! i)))"

definition buf_len_ok :: "vqueue_buf \<Rightarrow> bool" where
  "buf_len_ok b \<longleftrightarrow> iovs_len_ok (in_iovs b) \<and> iovs_len_ok (out_iovs b)"

lemma iovs_add_len_ok:
  assumes "iovs_len_ok l" "iovs_wf l" "vi_used l < vi_cnt l" "len_ok (dl_len d)"
  shows "iovs_len_ok (iovs_add d l)"
proof -
  have l: "vi_used l < length (vi_iovs l)" using assms(2,3) by (simp add: iovs_wf_def)
  have "len_ok (iov_len (vi_iovs (iovs_add d l) ! i))" if "i < Suc (vi_used l)" for i
    using that l assms(1,4) by (cases "i = vi_used l") (auto simp: iovs_add_def Let_def iovs_len_ok_def)
  then show ?thesis by (simp add: iovs_len_ok_def)
qed

text \<open>What holds of a buffer and survives the addition of a descriptor holds when the chain is read.\<close>

lemma chain_invariant:
  assumes "vqueue_chain desc num k i buf = (r, buf')" "I buf"
    "\<And>b k i. I b \<Longrightarrow> vi_used (in_iovs b) < vi_cnt (in_iovs b) \<Longrightarrow> I (b\<lparr>in_iovs := iovs_add (desc k i) (in_iovs b)\<rparr>)"
    "\<And>b k i. I b \<Longrightarrow> vi_used (out_iovs b) < vi_cnt (out_iovs b) \<Longrightarrow> I (b\<lparr>out_iovs := iovs_add (desc k i) (out_iovs b)\<rparr>)"
  shows "I buf'"
  using assms
proof (induction desc num k i buf rule: vqueue_chain.induct)
  case (1 desc num k i buf)
  let ?d = "desc k (unat i)"
  let ?wr = "dl_flags ?d AND VRING_DESC_F_WRITE \<noteq> 0"
  let ?l = "if ?wr then out_iovs buf else in_iovs buf"
  let ?buf = "if ?wr then buf\<lparr>out_iovs := iovs_add ?d ?l\<rparr> else buf\<lparr>in_iovs := iovs_add ?d ?l\<rparr>"
  have b: "I ?buf" if "vi_used ?l < vi_cnt ?l" using that 1(3-5) by (cases ?wr) simp_all
  show ?case
  proof (cases "\<not> unat num \<le> unat i \<and> vi_used ?l < vi_cnt ?l \<and> dl_flags2 ?d AND VRING_DESC_F_NEXT \<noteq> 0")
    case True
    then have t: "\<not> unat num \<le> unat i" "vi_used ?l < vi_cnt ?l" "dl_flags2 ?d AND VRING_DESC_F_NEXT \<noteq> 0" by auto
    have "vqueue_chain desc num (Suc k) (dl_next ?d) ?buf = (r, buf')"
      using 1(2) t by (simp add: vqueue_chain.simps [of desc num k] Let_def)
    from 1(1) [OF t(1) refl refl refl t(2) refl t(3) this b [OF t(2)]] show ?thesis using 1(4,5) by blast
  next
    case False
    then have "buf' = buf \<or> buf' = ?buf \<and> vi_used ?l < vi_cnt ?l"
      using 1(2) by (auto simp: vqueue_chain.simps [of desc num k] Let_def split: if_splits)
    then show ?thesis using b 1(3) by blast
  qed
qed

lemma get_avail_buf_inv:
  assumes "vqueue_get_avail_buf nv vq buf = Done (r, vq', buf')" "buf_wf buf" "view_ok nv"
  shows "buf_wf buf' \<and> (r = NO_ERROR \<longrightarrow> buf_len_ok buf') \<and> vq_vring vq' = vq_vring vq \<and> vring_addr vq' = vring_addr vq"
  using assms(1)
proof (cases rule: get_avail_cases)
  case (taken f e h)
  have z: "buf_wf (buf_reset h buf) \<and> buf_len_ok (buf_reset h buf)"
    using assms(2) by (simp add: buf_len_ok_def iovs_len_ok_def buf_reset_def buf_wf_def iovs_wf_def)
  have "buf_wf buf' \<and> buf_len_ok buf'"
    by (rule chain_invariant [OF taken(6) [symmetric], of "\<lambda>b. buf_wf b \<and> buf_len_ok b"], rule z)
      (use assms(3) in \<open>auto simp: buf_wf_def buf_len_ok_def view_ok_def intro: iovs_wf_add iovs_add_len_ok\<close>)
  then show ?thesis using taken(3) by simp
qed (use assms in auto)

text \<open>A ring that is set up has entries.\<close>

definition ring_ok :: "vqueue \<Rightarrow> bool" where
  "ring_ok vq \<longleftrightarrow> (vring_addr vq \<noteq> 0 \<longrightarrow> vr_num (vq_vring vq) \<noteq> 0)"

lemma get_avail_no_fault: "ring_ok vq \<Longrightarrow> vqueue_get_avail_buf nv vq buf \<noteq> Fault"
  by (simp add: vqueue_get_avail_buf_def Let_def ring_ok_def split: prod.split)

lemma add_buf_ring [simp]: "ring_ok (snd (vqueue_add_buf vq buf len)) = ring_ok vq"
  by (simp add: vqueue_add_buf_def Let_def ring_ok_def)

section \<open>Mapped memory\<close>

lemma regions_ok_remove: "regions_ok rs \<Longrightarrow> regions_ok (remove_first p rs)"
proof (induction rs)
  case (Cons r rs)
  have "set (remove_first p rs) \<subseteq> set rs" by (induction rs) auto
  then show ?case using Cons by auto
qed simp

lemma regions_ok_free: "regions_ok (vm_regions vm) \<Longrightarrow> regions_ok (vm_regions (snd (vmm_free_region va vm)))"
  by (simp add: vmm_free_region_def regions_ok_remove)

lemma regions_ok_unmap: "regions_ok (vm_regions vm) \<Longrightarrow> regions_ok (vm_regions (snd (vqueue_unmap_loop vs vm)))"
  by (induction vs arbitrary: vm) (simp_all add: split_beta Let_def regions_ok_free)

lemma regions_ok_unmap_iovs: "regions_ok (vm_regions vm) \<Longrightarrow> regions_ok (vm_regions (snd (vqueue_unmap_iovs l vm)))"
  by (simp add: vqueue_unmap_iovs_def split_beta Let_def regions_ok_unmap)

lemma mapped_part:
  assumes "mapped vm a n" "regions_ok (vm_regions vm)" "k + m \<le> n" "0 < m"
  shows "mapped vm (a + word_of_nat k) m"
proof -
  obtain r where r: "r \<in> set (vm_regions vm)" "unat (r_base r) \<le> unat a" "unat a + n \<le> unat (r_base r) + unat (r_size r)"
    using assms(1) by (auto simp: mapped_def)
  have b: "unat (r_base r) + unat (r_size r) \<le> 2 ^ 32" using regions_ok_region [OF assms(2) r(1)] by (simp add: region_ok_def)
  have "unat a + k < 2 ^ 32" using r(3) b assms(3,4) by linarith
  then have "unat (a + word_of_nat k) = unat a + k" by (simp add: unat_word_ariths unat_of_nat)
  then show ?thesis using r assms(3) by (auto simp: mapped_def intro!: bexI [OF _ r(1)])
qed

section \<open>The invariant\<close>

text \<open>The references of the device, and the channels whose cookie or queue somebody relies on.\<close>

definition drefs :: "tipc_dev \<Rightarrow> addr multiset" where
  "drefs dev = mset (dchans dev) + mset (dchans dev)"

definition known :: "tipc_dev \<Rightarrow> addr set \<Rightarrow> known_chans" where
  "known dev C c = (case dslot dev c of
     Some s \<Rightarrow> Some (Suc s, False) | None \<Rightarrow> if c \<in> C then Some (0, True) else None)"

text \<open>
  \<open>H\<close> are the references that are not the device's, \<open>C\<close> the channels that a thread is working on.
\<close>

definition world_at :: "addr multiset \<Rightarrow> addr set \<Rightarrow> tipc_world \<Rightarrow> bool" where
  "world_at H C s \<longleftrightarrow> table_wf (tw_dev s) \<and>
     mset (hl_handles (td_hlist (tw_dev s))) = mset (dchans (tw_dev s)) \<and> set (dchans (tw_dev s)) \<subseteq> hlinked (tw_k s) \<and>
     kreach (tw_k s) (drefs (tw_dev s) + H) \<and> chan_keep (known (tw_dev s) C) (tw_k s) \<and>
     regions_ok (vm_regions (tw_vmm s)) \<and> ring_ok (vq_tx (tw_dev s)) \<and> ring_ok (vq_rx (tw_dev s))"

text \<open>\<open>P\<close> are the references of the thread, whatever the others hold.\<close>

definition world_inv :: "addr multiset \<Rightarrow> addr set \<Rightarrow> tipc_world \<Rightarrow> bool" where
  "world_inv P C s \<longleftrightarrow> (\<exists>H. world_at (P + H) C s)"

definition calm :: "addr multiset \<Rightarrow> addr set \<Rightarrow> (tipc_world \<Rightarrow> tipc_world) \<Rightarrow> bool" where
  "calm P C f \<longleftrightarrow> (\<forall>s. world_inv P C s \<longrightarrow> world_inv P C (f s))"

definition wakes_ok :: "addr multiset \<Rightarrow> addr set \<Rightarrow> tx_wake list \<Rightarrow> bool" where
  "wakes_ok P C wks \<longleftrightarrow> (\<forall>(f, nv) \<in> set wks. calm P C f \<and> view_ok nv)"

text \<open>An operation that ends well keeps the invariant, and none ends in a fault.\<close>

definition safe :: "addr multiset \<Rightarrow> addr set \<Rightarrow> ('a \<Rightarrow> tipc_world) \<Rightarrow> 'a outcome \<Rightarrow> bool" where
  "safe P C st o' \<longleftrightarrow> (case o' of Done x \<Rightarrow> world_inv P C (st x) | Fault \<Rightarrow> False | _ \<Rightarrow> True)"

lemma safe_simps [simp]:
  "safe P C st (Done x) = world_inv P C (st x)" "safe P C st Blocked" "safe P C st Panic" "\<not> safe P C st Fault"
  by (simp_all add: safe_def)

lemma safe_bind:
  assumes "safe P C st x" "\<And>y. x = Done y \<Longrightarrow> world_inv P C (st y) \<Longrightarrow> safe P' C' st' (f y)"
  shows "safe P' C' st' (bind_outcome x f)"
  using assms by (cases x) auto

lemma known_cong: "epts dev' = epts dev \<Longrightarrow> known dev' C = known dev C"
  by (rule ext) (simp add: known_def dslot_def)

lemma world_atD:
  assumes "world_at H C s"
  shows "table_wf (tw_dev s)" "mset (hl_handles (td_hlist (tw_dev s))) = mset (dchans (tw_dev s))"
    "set (dchans (tw_dev s)) \<subseteq> hlinked (tw_k s)" "kreach (tw_k s) (drefs (tw_dev s) + H)"
    "chan_keep (known (tw_dev s) C) (tw_k s)" "regions_ok (vm_regions (tw_vmm s))" "ring_ok (vq_tx (tw_dev s))" "ring_ok (vq_rx (tw_dev s))"
  using assms by (simp_all add: world_at_def)

lemma world_invE:
  assumes "world_inv P C s"
  obtains H where "world_at (P + H) C s"
  using assms by (auto simp: world_inv_def)

lemma world_invI [intro]: "world_at (P + H) C s \<Longrightarrow> world_inv P C s"
  by (auto simp: world_inv_def)

lemma world_invD:
  assumes "world_inv P C s"
  shows "table_wf (tw_dev s)" "regions_ok (vm_regions (tw_vmm s))" "ring_ok (vq_tx (tw_dev s))" "ring_ok (vq_rx (tw_dev s))"
  using world_invE [OF assms] world_atD by metis+

text \<open>Changes elsewhere in the device and in the address space.\<close>

lemma world_inv_dev:
  assumes "world_inv P C s" "tw_k s' = tw_k s" "epts (tw_dev s') = epts (tw_dev s)" "td_inuse (tw_dev s') = td_inuse (tw_dev s)"
    "hl_handles (td_hlist (tw_dev s')) = hl_handles (td_hlist (tw_dev s))" "regions_ok (vm_regions (tw_vmm s'))"
    "ring_ok (vq_tx (tw_dev s'))" "ring_ok (vq_rx (tw_dev s'))"
  shows "world_inv P C s'"
proof (rule world_invE [OF assms(1)])
  fix H assume "world_at (P + H) C s"
  then have "world_at (P + H) C s'" using assms(2-) known_cong [OF assms(3)] by (simp add: world_at_def table_wf_def drefs_def)
  then show ?thesis ..
qed

lemma inv_mem [simp]:
  "world_inv P C (s\<lparr>tw_mem := m\<rparr>) = world_inv P C s" "world_inv P C (s\<lparr>tw_mem := m, tw_k := k\<rparr>) = world_inv P C (s\<lparr>tw_k := k\<rparr>)"
  by (simp_all add: world_inv_def world_at_def)

lemma inv_vmm: "world_inv P C s \<Longrightarrow> regions_ok (vm_regions vm) \<Longrightarrow> world_inv P C (s\<lparr>tw_vmm := vm\<rparr>)"
  by (auto simp: world_inv_def world_at_def)

lemma inv_tx: "world_inv P C s \<Longrightarrow> ring_ok vq \<Longrightarrow> world_inv P C (upd_dev (\<lambda>d. d\<lparr>vq_tx := vq\<rparr>) s)"
  by (rule world_inv_dev [of P C s]) (auto simp: upd_dev_def dest: world_invD)

lemma inv_rx: "world_inv P C s \<Longrightarrow> ring_ok vq \<Longrightarrow> world_inv P C (upd_dev (\<lambda>d. d\<lparr>vq_rx := vq\<rparr>) s)"
  by (rule world_inv_dev [of P C s]) (auto simp: upd_dev_def dest: world_invD)

section \<open>Sending\<close>

lemma tx_get_buf_safe:
  assumes "world_inv P C s" "wakes_ok P C wks" "view_ok nv" "buf_wf buf"
  shows "safe P C snd (tx_get_buf wt nv wks buf s) \<and>
    (\<forall>b s'. tx_get_buf wt nv wks buf s = Done (Inr b, s') \<longrightarrow> buf_wf b \<and> buf_len_ok b)"
  using assms
proof (induction wt nv wks buf s rule: tx_get_buf.induct)
  case (1 wt nv wks buf s)
  show ?case
  proof (cases "vqueue_get_avail_buf nv (vq_tx (tw_dev s)) buf")
    case (Done x)
    obtain r vq buf1 where x: "x = (r, vq, buf1)" by (metis prod_cases3)
    let ?s1 = "upd_dev (\<lambda>d. d\<lparr>vq_tx := vq\<rparr>) s"
    have g: "buf_wf buf1" "r = NO_ERROR \<longrightarrow> buf_len_ok buf1" "vq_vring vq = vq_vring (vq_tx (tw_dev s))" "vring_addr vq = vring_addr (vq_tx (tw_dev s))"
      using get_avail_buf_inv [of nv "vq_tx (tw_dev s)" buf r vq buf1] Done x 1(4,5) by auto
    have s1: "world_inv P C ?s1" using 1(2) g(3,4) world_invD(3) [OF 1(2)] by (intro inv_tx) (simp_all add: ring_ok_def)
    show ?thesis
    proof (cases r)
      case (Inr u)
      then show ?thesis using Done x s1 g by (simp add: tx_get_buf.simps)
    next
      case (Inl e)
      show ?thesis
      proof (cases "e \<noteq> ERR_NOT_ENOUGH_BUFFER \<or> \<not> wt")
        case True
        then show ?thesis using Done x s1 Inl by (simp add: tx_get_buf.simps)
      next
        case w: False
        show ?thesis
        proof (cases wks)
          case Nil
          then show ?thesis using Done x Inl w by (simp add: tx_get_buf.simps)
        next
          case (Cons wk wks1)
          obtain f nv1 where wk: "wk = (f, nv1)" by force
          have ok: "calm P C f" "view_ok nv1" "wakes_ok P C wks1" using 1(3) Cons wk by (auto simp: wakes_ok_def)
          have s2: "world_inv P C (f ?s1)" using ok(1) s1 by (simp add: calm_def)
          show ?thesis
          proof (cases "tx_stop (tw_dev (f ?s1))")
            case True
            then show ?thesis using Done x Inl w Cons wk s2 by (simp add: tx_get_buf.simps)
          next
            case False
            note IH = 1(1) [OF Done x [symmetric] refl refl Inl w Cons wk [symmetric] refl False s2 ok(3,2) g(1)]
            moreover have "tx_get_buf wt nv wks buf s = tx_get_buf wt nv1 wks1 buf1 (f ?s1)"
              using Done x Inl w Cons wk False by (subst tx_get_buf.simps) simp
            ultimately show ?thesis by simp
          qed
        qed
      qed
    qed
  qed (use get_avail_no_fault [OF world_invD(3) [OF 1(2)], of nv buf] in \<open>simp_all add: tx_get_buf.simps\<close>)
qed

text \<open>A data callback that leaves the device and the mappings alone.\<close>

definition cb_ok :: "addr multiset \<Rightarrow> addr set \<Rightarrow> data_cb \<Rightarrow> bool" where
  "cb_ok P C cb \<longleftrightarrow> (\<forall>dst n s. world_inv P C s \<longrightarrow> world_inv P C (snd (cb dst n s)))"

lemma tx_done_safe:
  assumes "world_inv P C s"
  shows "safe P C snd (tx_done ret buf s)"
proof -
  obtain r vq where a: "vqueue_add_buf (vq_tx (tw_dev s)) buf (res_code ret) = (r, vq)" by force
  have "ring_ok vq" using add_buf_ring [of "vq_tx (tw_dev s)" buf "res_code ret"] world_invD(3) [OF assms] a by simp
  then show ?thesis using a inv_tx [OF assms] by (simp add: tx_done_def)
qed

lemma tx_fill_safe:
  assumes inv: "world_inv P C s" and cb: "cb_ok P C cb"
    and iov: "\<not> unat (iov_len iov) < 16" "mapped (tw_vmm s) (iov_base iov) (unat (iov_len iov))"
  shows "safe P C snd (tx_fill local remote cb dlen iov s)"
proof -
  let ?n = "if 16 + unat dlen > unat (iov_len iov) then unat (iov_len iov) - 16 else unat dlen"
  let ?s1 = "s\<lparr>tw_mem := kwrite (tw_mem s) (iov_base iov) (tipc_hdr_bytes local remote dlen)\<rparr>"
  note r = world_invD(2) [OF inv]
  have h: "mapped (tw_vmm s) (iov_base iov) 16"
    using mapped_part [OF iov(2) r, of 0 16] iov(1) by simp
  have d: "0 < ?n \<longrightarrow> mapped (tw_vmm s) (iov_base iov + 16) ?n"
    using mapped_part [OF iov(2) r, of 16 ?n] iov(1) by auto
  obtain m s2 where c: "cb (iov_base iov + 16) ?n ?s1 = (m, s2)" by force
  have "world_inv P C s2" using cb inv c unfolding cb_ok_def by (metis inv_mem(1) snd_conv)
  then show ?thesis using h d c by (cases m) (auto simp: tx_fill_def Let_def)
qed

lemma tx_send_safe:
  assumes inv: "world_inv P C s" and cb: "cb_ok P C cb" and buf: "buf_wf buf" "buf_len_ok buf"
  shows "safe P C snd (tx_send local remote cb dlen buf s)"
proof (cases "vi_used (out_iovs buf) = 0 \<or> unat (iov_len (vi_iovs (out_iovs buf) ! 0)) < 16")
  case True
  then show ?thesis using tx_done_safe [OF inv] by (auto simp: tx_send_def)
next
  case False
  obtain r out1 vm1 where m: "vqueue_map_iovs (out_iovs buf) (tw_vmm s) = (r, out1, vm1)" by (metis prod_cases3)
  have sp: "regions_ok (vm_regions vm1) \<and> iovs_wf out1 \<and> vi_used out1 = vi_used (out_iovs buf)"
    "r = NO_ERROR \<Longrightarrow> map iov_len (vi_iovs out1) = map iov_len (vi_iovs (out_iovs buf)) \<and>
       (\<forall>i < vi_used out1. iov_len (vi_iovs out1 ! i) \<noteq> 0 \<and> len_ok (iov_len (vi_iovs out1 ! i)) \<longrightarrow>
           mapped vm1 (iov_base (vi_iovs out1 ! i)) (unat (iov_len (vi_iovs out1 ! i))))"
    using map_iovs_spec [OF m world_invD(2) [OF inv]] buf(1) by (auto simp: buf_wf_def)
  have v: "world_inv P C (s\<lparr>tw_vmm := vm1\<rparr>)" using inv_vmm [OF inv] sp(1) by blast
  show ?thesis
  proof (cases r)
    case (Inl e)
    then show ?thesis using False m tx_done_safe [OF v] by (simp add: tx_send_def)
  next
    case (Inr u)
    have l: "0 < length (vi_iovs (out_iovs buf))" using buf(1) False by (auto simp: buf_wf_def iovs_wf_def)
    have e: "map iov_len (vi_iovs out1) = map iov_len (vi_iovs (out_iovs buf))" using sp(2) Inr by simp
    have "iov_len (vi_iovs out1 ! 0) = iov_len (vi_iovs (out_iovs buf) ! 0)"
      using arg_cong [OF e, of "\<lambda>xs. xs ! 0"] arg_cong [OF e, of length] l by simp
    moreover have "len_ok (iov_len (vi_iovs (out_iovs buf) ! 0))" using buf(2) False by (simp add: buf_len_ok_def iovs_len_ok_def)
    ultimately have i: "\<not> unat (iov_len (vi_iovs out1 ! 0)) < 16"
      "mapped (tw_vmm (s\<lparr>tw_vmm := vm1\<rparr>)) (iov_base (vi_iovs out1 ! 0)) (unat (iov_len (vi_iovs out1 ! 0)))"
      using sp Inr False by auto
    have f: "safe P C snd (tx_fill local remote cb dlen (vi_iovs out1 ! 0) (s\<lparr>tw_vmm := vm1\<rparr>))"
      by (rule tx_fill_safe [OF v cb i])
    have "safe P C snd (bind_outcome (tx_fill local remote cb dlen (vi_iovs out1 ! 0) (s\<lparr>tw_vmm := vm1\<rparr>)) (\<lambda>(ret, s1).
              let (out2, vm2) = vqueue_unmap_iovs out1 (tw_vmm s1)
              in tx_done ret (buf\<lparr>out_iovs := out2\<rparr>) (s1\<lparr>tw_vmm := vm2\<rparr>)))"
    proof (rule safe_bind [OF f])
      fix y :: "nat res \<times> tipc_world" assume y: "world_inv P C (snd y)"
      have "regions_ok (vm_regions (snd (vqueue_unmap_iovs out1 (tw_vmm (snd y)))))"
        by (rule regions_ok_unmap_iovs) (rule world_invD(2) [OF y])
      from tx_done_safe [OF inv_vmm [OF y this]]
      show "safe P C snd (case y of (ret, s1) \<Rightarrow> let (out2, vm2) = vqueue_unmap_iovs out1 (tw_vmm s1)
              in tx_done ret (buf\<lparr>out_iovs := out2\<rparr>) (s1\<lparr>tw_vmm := vm2\<rparr>))" by (simp add: split_beta)
    qed
    then show ?thesis using False m Inr by (simp add: tx_send_def)
  qed
qed

lemma tx_buf0_ok: "buf_wf tx_buf0" "buf_len_ok tx_buf0"
  by (simp_all add: tx_buf0_def buf_wf_def iovs_wf_def buf_len_ok_def iovs_len_ok_def)

lemma tipc_send_data_safe:
  assumes "world_inv P C s" "wakes_ok P C wks" "view_ok nv" "\<And>f. cb = Some f \<Longrightarrow> cb_ok P C f"
  shows "safe P C snd (tipc_send_data local remote cb dlen wt nv wks s)"
proof (cases cb)
  case (Some f)
  note g = tx_get_buf_safe [OF assms(1-3) tx_buf0_ok(1), of wt]
  have "safe P C snd (bind_outcome (tx_get_buf wt nv wks tx_buf0 s) (\<lambda>(r, s1).
         case r of Inl e \<Rightarrow> Done (Inl e, s1) | Inr buf \<Rightarrow> tx_send local remote f dlen buf s1))"
  proof (rule safe_bind [OF g [THEN conjunct1]])
    fix y :: "vqueue_buf res \<times> tipc_world" assume y: "tx_get_buf wt nv wks tx_buf0 s = Done y" "world_inv P C (snd y)"
    obtain r s1 where "y = (r, s1)" by force
    then show "safe P C snd (case y of (r, s1) \<Rightarrow> case r of Inl e \<Rightarrow> Done (Inl e, s1) | Inr buf \<Rightarrow> tx_send local remote f dlen buf s1)"
      using y g assms(4) [OF Some] by (cases r) (auto intro: tx_send_safe)
  qed
  then show ?thesis using Some by (simp add: tipc_send_data_def)
qed (use assms(1) in \<open>simp add: tipc_send_data_def\<close>)

lemma send_buf_safe:
  assumes "world_inv P C s" "wakes_ok P C wks" "view_ok nv"
  shows "safe P C snd (tipc_send_buf local remote data wt nv wks s)"
  unfolding tipc_send_buf_def
  by (rule tipc_send_data_safe [OF assms]) (auto simp: cb_ok_def send_buf_cb_def)

lemma ctrl_send_safe:
  assumes "world_inv P C s" "wakes_ok P C wks" "view_ok nv"
  shows "safe P C snd (go_online nv wks s)" "safe P C snd (send_conn_rsp local remote st sz cnt nv wks s)"
    "safe P C snd (send_disc_req local remote nv wks s)"
  unfolding go_online_def send_conn_rsp_def send_disc_req_def by (rule send_buf_safe [OF assms])+

section \<open>The handle list keeps cookies and queues\<close>

lemma chan_keep_events [simp]:
  "chan_keep K (event_reset ev w) = chan_keep K w" "chan_keep K (event_signal ev w) = chan_keep K w"
  by (simp_all add: chan_keep_def event_reset_def event_signal_def)

lemma chan_keep_finish: "chan_keep K w \<Longrightarrow> chan_keep K (finish_wait_handle h w)"
  by (simp add: finish_wait_handle_def client.Q_upd_handle)

lemma chan_keep_prepare: "chan_keep K w \<Longrightarrow> chan_keep K (snd (prepare_wait_handle ev h w))"
  by (auto simp: prepare_wait_handle_def client.Q_upd_handle client.Q_fault split: option.split)

lemma chan_keep_list_add: "chan_keep K w \<Longrightarrow> chan_keep K (snd (handle_list_add hl h w))"
  by (auto simp: handle_list_add_def Let_def client.Q_store client.Q_handle chan_keep_prepare split: option.split)

lemma chan_keep_list_del: "chan_keep K w \<Longrightarrow> chan_keep K (snd (handle_list_del_locked hl h w))"
  by (auto simp: handle_list_del_locked_def Let_def client.Q_store client.Q_decref chan_keep_finish split: option.split)

lemma handle_list_add_handles: "hl_handles (fst (handle_list_add hl h w)) = hl_handles hl @ [h]"
  by (simp add: handle_list_add_def Let_def split: option.split)

lemma cookie_reach [reach]: "kreach w H \<Longrightarrow> h \<in># H \<Longrightarrow> kreach (handle_set_cookie h ck w) H"
  by (blast intro: kreach.step kstep.cookie)

lemma known_alloc: "dslot dev' = (dslot dev)(c \<mapsto> s) \<Longrightarrow> known dev' C = (known dev C)(c \<mapsto> (Suc s, False))"
  by (rule ext) (simp add: known_def)

lemma known_free: "dslot dev' = (dslot dev)(c := None) \<Longrightarrow> known dev' C = (known dev C)(c := (if c \<in> C then Some (0, True) else None))"
  by (rule ext) (simp add: known_def)

text \<open>A channel that the client closes is quiet from then on.\<close>

lemma chan_keep_close:
  assumes k: "chan_keep K w" "K c = Some (ck, b)" and r: "kreach w (add_mset c H)"
  shows "chan_keep (K(c \<mapsto> (ck, True))) (handle_close c w)"
proof -
  have inv: "ipc_inv {} (add_mset c H) w" by (rule kreach_inv [OF r])
  have core: "ipc_core {} (add_mset c H) w" using inv by (simp add: ipc_inv_def)
  obtain x where x: "chans w c = Some x" "h_ops (c_handle x) = OPS_CHAN"
    using core by (rule holder_cases [of _ _ _ c]) (use chan_keepD(2) [OF k] in auto)
  have "c_state x = IPC_CHAN_STATE_WAITING_FOR_PORT \<Longrightarrow> c_node x = NodeWaiting"
    using ipc_core_chan(4) [OF core x(1)] by (simp add: phase_wf_def)
  from chan_shutdown_locked_inv [OF inv x(1) this]
  have q: "quiescent (chan_shutdown_locked c w) c" by (auto simp: shut_effect_def quiescent_def)
  have k1: "chan_keep K (chan_shutdown_locked c w)" by (rule client.Q_shutdown [OF k(1)])
  have "chan_keep (K(c \<mapsto> (ck, True))) (chan_shutdown_locked c w)"
    using k1 q chan_keepD [OF k1 k(2)] by (intro chan_keepI) (auto simp: quiescent_def dest: chan_keepD split: if_splits)
  from client.Q_decref [OF this] show ?thesis using x by (simp add: handle_close_def exec_simps)
qed

section \<open>Connecting\<close>

text \<open>A fresh channel that got an endpoint joins the list with a cookie that leads to it.\<close>

lemma conn_req_listed_at:
  assumes inv: "world_at H C s" and k1: "kreach k1 (add_mset chan (drefs (tw_dev s) + P))"
    "chan_keep ((known (tw_dev s) C)(chan \<mapsto> (0, False))) k1" "hlinked k1 = hlinked (tw_k s) - {chan}"
    and c: "chan \<notin># drefs (tw_dev s)" and a: "alloc_local_addr (tw_dev s) remote chan = (local, dev1)" "local \<noteq> 0"
  shows "world_at P C (conn_req_listed local chan (s\<lparr>tw_dev := dev1, tw_k := k1\<rparr>))"
proof -
  let ?dev = "tw_dev s"
  note wf = world_atD(1) [OF inv]
  have n: "chan \<notin> set (dchans ?dev)" using c by (simp add: drefs_def)
  from wf n a(1) obtain t b where t: "t < TIPC_ADDR_MAX_NUM" "local = ept_to_addr t"
    "dev1 = ?dev\<lparr>td_inuse := b, epts := (epts ?dev)[t := \<lparr>ept_remote = remote, ept_chan = Some chan\<rparr>]\<rparr>" "table_wf dev1"
    "mset (dchans dev1) = add_mset chan (mset (dchans ?dev))" "dslot dev1 = (dslot ?dev)(chan \<mapsto> t)"
    using a(2) by (cases rule: alloc_cases_ept) auto
  have f: "td_hlist dev1 = td_hlist ?dev" "vq_tx dev1 = vq_tx ?dev" "vq_rx dev1 = vq_rx ?dev" using t(3) by simp_all
  have "ept_chan (epts dev1 ! t) = Some chan" using dslot_SomeD [of dev1 chan t] t(6) by simp
  then have "bitmap_test (td_inuse dev1) t" using t(1,4) by (simp add: table_wf_def)
  then have lk: "lookup_ept dev1 local = Some t" using t(1,2) by (simp add: lookup_ept_iff)
  let ?k2 = "handle_set_cookie chan (Suc t) k1"
  let ?hl = "fst (handle_list_add (td_hlist ?dev) chan ?k2)"
  let ?k3 = "snd (handle_list_add (td_hlist ?dev) chan ?k2)"
  let ?dev2 = "dev1\<lparr>td_hlist := ?hl, have_handles := True\<rparr>"
  have eq: "conn_req_listed local chan (s\<lparr>tw_dev := dev1, tw_k := k1\<rparr>) = s\<lparr>tw_dev := ?dev2, tw_k := ?k3\<rparr>"
    using lk f by (simp add: conn_req_listed_def upd_dev_def ept_cookie_def split_beta Let_def)
  have r2: "kreach ?k2 (add_mset chan (drefs ?dev + P))" using k1(1) by (rule cookie_reach) simp
  have "chan \<notin> hlinked ?k2" using k1(3) by simp
  then have "kreach ?k3 (add_mset chan (add_mset chan (drefs ?dev + P)))" using handle_list_add_reach [OF r2] by simp
  then have r3: "kreach ?k3 (drefs ?dev2 + P)" using t(5) by (simp add: drefs_def)
  have "chan_keep (((known ?dev C)(chan \<mapsto> (0, False)))(chan \<mapsto> (Suc t, False))) ?k2" by (rule chan_keep_cookie [OF k1(2)]) simp
  then have "chan_keep (known dev1 C) ?k3" using known_alloc [OF t(6)] by (simp add: chan_keep_list_add)
  then have ck: "chan_keep (known ?dev2 C) ?k3" using known_cong [of ?dev2 dev1] by simp
  have m: "mset (hl_handles ?hl) = mset (dchans dev1)"
    using t(5) world_atD(2) [OF inv] by (simp add: handle_list_add_handles)
  have "set (dchans dev1) = insert chan (set (dchans ?dev))" using arg_cong [OF t(5), of set_mset] by simp
  then have h: "set (dchans dev1) \<subseteq> hlinked ?k3" using world_atD(3) [OF inv] k1(3) by auto
  show ?thesis unfolding eq world_at_def
    using t(4) m h r3 ck world_atD(6-8) [OF inv] f by (simp add: table_wf_def)
qed

lemma handle_conn_req_safe:
  assumes inv: "world_inv P C s" and w: "wakes_ok P C wks" "view_ok nv"
  shows "safe P C snd (handle_conn_req remote ns_req nv wks s)"
proof -
  obtain H where at: "world_at (P + H) C s" by (rule world_invE [OF inv])
  let ?name = "takeWhile (\<lambda>b. b \<noteq> 0) (kread (tw_mem s) ns_req TIPC_MAX_SRV_NAME_LEN)"
  let ?dev = "tw_dev s"
  obtain r k1 where c: "ipc_port_connect_async (Some (td_uuid ?dev)) ?name TIPC_MAX_SRV_NAME_LEN 0 (tw_k s) = (r, k1)" by force
  note k = world_atD(4) [OF at]
  note keep = connect_keep [OF world_atD(5) [OF at] fresh_addr(2) [OF kreach_core [OF k]] c]
  have hl: "hlinked k1 = (case r of Inl _ \<Rightarrow> hlinked (tw_k s) | Inr ch \<Rightarrow> hlinked (tw_k s) - {ch})"
    using hlinked_connect [of "Some (td_uuid ?dev)" ?name TIPC_MAX_SRV_NAME_LEN 0 "tw_k s"] c by simp
  show ?thesis
  proof (cases r)
    case (Inl e)
    have "kreach k1 (drefs ?dev + (P + H))" using kreach.step [OF k kstep.connect_fails] c Inl by blast
    then have "world_at (P + H) C (s\<lparr>tw_k := k1\<rparr>)" using at keep hl Inl by (simp add: world_at_def)
    then show ?thesis using ctrl_send_safe(2) [OF world_invI w] c Inl by (simp add: handle_conn_req_def conn_req_opened_def)
  next
    case (Inr chan)
    have ch: "chan = next_addr (tw_k s)" "chan_keep ((known ?dev C)(chan \<mapsto> (0, False))) k1" using keep unfolding Inr sum.case by (rule conjunct1, rule conjunct2)
    have nm: "chan \<notin># drefs ?dev + (P + H)" using fresh_addr(3) [OF kreach_core [OF k]] ch(1) by simp
    have k1: "kreach k1 (add_mset chan (drefs ?dev + (P + H)))" using kreach.step [OF k kstep.connect] c Inr by blast
    have hl1: "hlinked k1 = hlinked (tw_k s) - {chan}" using hl Inr by simp
    obtain local dev1 where a: "alloc_local_addr ?dev remote chan = (local, dev1)" by force
    show ?thesis
    proof (cases "local = 0")
      case False
      then have "world_at (P + H) C (conn_req_listed local chan (s\<lparr>tw_dev := dev1, tw_k := k1\<rparr>))"
        using conn_req_listed_at [OF at k1 ch(2) hl1 _ a] nm by simp
      then show ?thesis using c Inr a False by (auto simp add: handle_conn_req_def conn_req_opened_def)
    next
      case True
      have nd: "chan \<notin> set (dchans ?dev)" using nm by (simp add: drefs_def)
      from world_atD(1) [OF at] nd a have d: "dev1 = ?dev" by (cases rule: alloc_cases_ept) (use True in auto)
      have "chan \<notin> dom (known ?dev C)" using client.Q_fresh [OF world_atD(5) [OF at]] ch(1) by simp
      then have "known ?dev C \<subseteq>\<^sub>m (known ?dev C)(chan \<mapsto> (0, False))" by (auto simp: map_le_def)
      then have "chan_keep (known ?dev C) (handle_close chan k1)"
        using client.Q_close [OF ch(2)] chan_keep_mono by blast
      moreover have "kreach (handle_close chan k1) (drefs ?dev + (P + H))" by (rule close_reach [OF k1])
      moreover have "set (dchans ?dev) \<subseteq> hlinked (handle_close chan k1)" using world_atD(3) [OF at] hl1 nd by auto
      ultimately have "world_at (P + H) C (s\<lparr>tw_dev := dev1, tw_k := handle_close chan k1\<rparr>)" using at d by (simp add: world_at_def)
      then show ?thesis using ctrl_send_safe(2) [OF world_invI w] c Inr a True by (simp add: handle_conn_req_def conn_req_opened_def)
    qed
  qed
qed

section \<open>Disconnecting\<close>

text \<open>Closing the channel of an endpoint and freeing the endpoint gives both references back.\<close>

lemma drop_at:
  assumes inv: "world_at P C s" and t: "t < TIPC_ADDR_MAX_NUM" "ept_chan (epts (tw_dev s) ! t) = Some c"
  shows "world_at P C (upd_dev (\<lambda>d. free_local_addr d (ept_to_addr t)) (drop_chan c s))"
proof -
  let ?dev = "tw_dev s"
  obtain b where f: "free_local_addr ?dev (ept_to_addr t) = ?dev\<lparr>td_inuse := b, epts := (epts ?dev)[t := \<lparr>ept_remote = 0, ept_chan = None\<rparr>]\<rparr>"
    "table_wf (free_local_addr ?dev (ept_to_addr t))" "mset (dchans ?dev) = add_mset c (mset (dchans (free_local_addr ?dev (ept_to_addr t))))"
    "dslot (free_local_addr ?dev (ept_to_addr t)) = (dslot ?dev)(c := None)"
    by (rule free_local_spec [OF world_atD(1) [OF inv] t])
  let ?dev1 = "free_local_addr ?dev (ept_to_addr t)"
  let ?hl = "fst (handle_list_del (td_hlist ?dev) c (tw_k s))" and ?k1 = "snd (handle_list_del (td_hlist ?dev) c (tw_k s))"
  let ?k2 = "handle_set_cookie c 0 ?k1"
  let ?s = "s\<lparr>tw_dev := ?dev1\<lparr>td_hlist := ?hl\<rparr>, tw_k := handle_close c ?k2\<rparr>"
  have eq: "upd_dev (\<lambda>d. free_local_addr d (ept_to_addr t)) (drop_chan c s) = ?s"
    by (simp add: drop_chan_def upd_dev_def free_local_addr_def split_beta Let_def)
  have d: "set (dchans ?dev) = insert c (set (dchans ?dev1))" using arg_cong [OF f(3), of set_mset] by simp
  have "distinct (c # dchans ?dev1)" using mset_eq_imp_distinct_iff [of "dchans ?dev" "c # dchans ?dev1"] f(3) world_atD(1) [OF inv]
    by (simp add: table_wf_def)
  then have nc: "c \<notin> set (dchans ?dev1)" by simp
  have hc: "c \<in> hlinked (tw_k s)" using world_atD(3) [OF inv] d by auto
  have "kreach (tw_k s) (add_mset c (add_mset c (drefs ?dev1 + P)))" using world_atD(4) [OF inv] f(3) by (simp add: drefs_def)
  then have r1: "kreach ?k1 (add_mset c (drefs ?dev1 + P))" using handle_list_del_reach hc by (simp add: handle_list_del_def)
  have r2: "kreach ?k2 (add_mset c (drefs ?dev1 + P))" by (rule cookie_reach [OF r1]) simp
  note r = close_reach [OF r2]
  have "dslot ?dev c = Some t" using t dslot_iff [OF world_atD(1) [OF inv]] by blast
  then have cd: "known ?dev C c = Some (Suc t, False)" by (simp add: known_def)
  have "chan_keep (known ?dev C) ?k1" using world_atD(5) [OF inv] by (simp add: handle_list_del_def chan_keep_list_del)
  from chan_keep_close [OF chan_keep_cookie [OF this cd, of 0] _ r2, of 0 False]
  have "chan_keep ((known ?dev C)(c \<mapsto> (0, True))) (handle_close c ?k2)" by simp
  moreover have "known ?dev1 C \<subseteq>\<^sub>m (known ?dev C)(c \<mapsto> (0, True))" using known_free [OF f(4)] by (auto simp: map_le_def split: if_splits)
  ultimately have ck: "chan_keep (known ?dev1 C) (handle_close c ?k2)" by (rule chan_keep_mono)
  have h: "set (dchans ?dev1) \<subseteq> hlinked (handle_close c ?k2)" using world_atD(3) [OF inv] d nc by (auto simp: handle_list_del_def)
  have m: "mset (hl_handles ?hl) = mset (dchans ?dev1)" using world_atD(2) [OF inv] f(3) by (simp add: handle_list_del_def)
  have "known (?dev1\<lparr>td_hlist := ?hl\<rparr>) C = known ?dev1 C" by (rule known_cong) simp
  then show ?thesis unfolding eq world_at_def using f(1,2) m h r ck world_atD(6-8) [OF inv] by (simp add: table_wf_def drefs_def)
qed

lemma drop_inv:
  assumes "world_inv P C s" "t < TIPC_ADDR_MAX_NUM" "ept_chan (epts (tw_dev s) ! t) = Some c"
  shows "world_inv P C (upd_dev (\<lambda>d. free_local_addr d (ept_to_addr t)) (drop_chan c s))"
  using world_invE [OF assms(1)] drop_at [OF _ assms(2,3)] by blast

text \<open>What \<^verbatim>\<open>handle_disc_req\<close> finds is in use, so it has a channel.\<close>

lemma disc_target_used:
  assumes "table_wf dev" "disc_target dev remote target = Some t"
  obtains c where "t < TIPC_ADDR_MAX_NUM" "ept_chan (epts dev ! t) = Some c"
proof -
  have "t < TIPC_ADDR_MAX_NUM \<and> bitmap_test (td_inuse dev) t"
    using assms(2) lookup_ept_iff [of dev target]
    by (auto simp: disc_target_def find_ept_by_remote_def find_Some_iff split: option.splits if_splits)
  then show ?thesis using that assms(1) by (auto simp: table_wf_def)
qed

lemma disc_req_inv:
  assumes inv: "world_inv P C s"
  shows "world_inv P C (snd (handle_disc_req remote ns_req s))"
proof (cases "disc_target (tw_dev s) remote (le32 (kread (tw_mem s) ns_req 4))")
  case None
  then show ?thesis using inv by (simp add: handle_disc_req_def)
next
  case (Some t)
  obtain c where c: "t < TIPC_ADDR_MAX_NUM" "ept_chan (epts (tw_dev s) ! t) = Some c"
    by (rule disc_target_used [OF world_invD(1) [OF inv] Some])
  then show ?thesis using drop_inv [OF inv c] Some by (simp add: handle_disc_req_def)
qed

section \<open>Receiving\<close>

lemma inv_kernel:
  assumes "world_inv P C s" "\<And>H. kreach (tw_k s) H \<Longrightarrow> chan_keep (known (tw_dev s) C) (tw_k s) \<Longrightarrow> P \<subseteq># H \<Longrightarrow>
    kreach k H \<and> chan_keep (known (tw_dev s) C) k \<and> hlinked k = hlinked (tw_k s)"
  shows "world_inv P C (s\<lparr>tw_k := k\<rparr>)"
proof (rule world_invE [OF assms(1)])
  fix H assume at: "world_at (P + H) C s"
  have "P \<subseteq># drefs (tw_dev s) + (P + H)" by (simp add: add.left_commute)
  from assms(2) [OF world_atD(4,5) [OF at] this] have "world_at (P + H) C (s\<lparr>tw_k := k\<rparr>)" using at by (simp add: world_at_def)
  then show ?thesis ..
qed

lemma send_inv:
  assumes "world_inv P C s"
  shows "world_inv P C (s\<lparr>tw_k := snd (ipc_send_msg km um (Some chan) msg (tw_k s))\<rparr>)"
proof (cases msg)
  case None
  then show ?thesis using assms by (simp add: ipc_send_msg_def)
next
  case (Some m)
  let ?k = "snd (send_msg_locked km um (Some chan) (IPC_MSG_BUFFER_KERNEL m) (tw_k s))"
  have "kreach ?k H" if "kreach (tw_k s) H" for H by (rule kreach.step [OF that kstep.send]) (rule prod.collapse [symmetric])
  then have "world_inv P C (s\<lparr>tw_k := ?k\<rparr>)" by (intro inv_kernel [OF assms]) (simp add: client.Q_send)
  then show ?thesis using Some by (simp add: ipc_send_msg_def)
qed

lemma handle_chan_msg_safe:
  assumes inv: "world_inv P C s" and m: "0 < len \<Longrightarrow> mapped (tw_vmm s) ns_data len"
  shows "safe P C snd (handle_chan_msg remote local ns_data len s)"
proof -
  let ?msg = "\<lparr>k_num_iov = 1, k_iov = Some [\<lparr>iov_base = ns_data, iov_len = word_of_nat len\<rparr>], k_num_handles = 0\<rparr>"
  have "world_inv P C (s\<lparr>tw_k := snd (ipc_send_msg (tw_mem s) no_umem (Some c) (Some ?msg) (tw_k s))\<rparr>)" for c
    by (rule send_inv [OF inv])
  then show ?thesis using inv m by (auto simp: handle_chan_msg_def Let_def split_beta split: option.split)
qed

lemma handle_ctrl_msg_safe:
  assumes inv: "world_inv P C s" and w: "wakes_ok P C wks" "view_ok nv" and m: "0 < len \<Longrightarrow> mapped (tw_vmm s) ns_data len"
    and l: "len < 2 ^ 32"
  shows "safe P C snd (handle_ctrl_msg remote ns_data len nv wks s)"
proof (cases "len < 8")
  case True
  then show ?thesis using inv by (simp add: handle_ctrl_msg_def)
next
  case False
  note part = mapped_part [OF m world_invD(2) [OF inv]]
  have m8: "mapped (tw_vmm s) ns_data 8" using part [of 0 8] False by simp
  have body: "mapped (tw_vmm s) (ns_data + 8) (unat n)" if n: "8 + n = word_of_nat len" "0 < unat n" for n :: u32
  proof -
    have "n = word_of_nat (len - 8)" using n(1) False by (simp add: algebra_simps)
    then have "unat n = len - 8" using l by (simp add: unat_of_nat del: of_nat_diff)
    then show ?thesis using part [of 8 "unat n"] n(2) False by simp
  qed
  let ?n = "le32 (kread (tw_mem s) (ns_data + 4) 4)"
  have "mapped (tw_vmm s) (ns_data + 8) TIPC_MAX_SRV_NAME_LEN" if "8 + ?n = word_of_nat len" "unat ?n = TIPC_MAX_SRV_NAME_LEN"
    using body [OF that(1)] that(2) by (simp add: TIPC_MAX_SRV_NAME_LEN_def)
  moreover have "mapped (tw_vmm s) (ns_data + 8) 4" if "8 + ?n = word_of_nat len" "?n = 4"
    using body [OF that(1)] that(2) by simp
  moreover note handle_conn_req_safe [OF inv w, of remote "ns_data + 8"] disc_req_inv [OF inv, of remote "ns_data + 8"]
  ultimately show ?thesis using inv m8 by (simp add: handle_ctrl_msg_def Let_def)
qed

lemma rx_dispatch_safe:
  assumes inv: "world_inv P C s" and w: "wakes_ok P C wks" "view_ok nv"
    and m: "16 \<le> unat (iov_len iov) \<Longrightarrow> mapped (tw_vmm s) (iov_base iov) (unat (iov_len iov))"
  shows "safe P C snd (rx_dispatch iov nv wks s)"
proof (cases "unat (iov_len iov) < 16")
  case True
  then show ?thesis using inv by (simp add: rx_dispatch_def)
next
  case False
  let ?n = "unat (hdr_len (kread (tw_mem s) (iov_base iov) 16))"
  note part = mapped_part [OF m world_invD(2) [OF inv]]
  have h: "mapped (tw_vmm s) (iov_base iov) 16" using part [of 0 16] False by simp
  have d: "mapped (tw_vmm s) (iov_base iov + 16) ?n" if "?n + 16 = unat (iov_len iov)" "0 < ?n"
    using part [of 16 ?n] that False by simp
  have l: "?n < 2 ^ 32" if "?n + 16 = unat (iov_len iov)" using that unsigned_less [of "iov_len iov", where ?'a = nat] by simp
  have c: "safe P C snd (bind_outcome (handle_ctrl_msg src (iov_base iov + 16) ?n nv wks s)
      (\<lambda>(r, s1). Done (case r of Inl e \<Rightarrow> Inl e | Inr _ \<Rightarrow> Inr (0 :: nat), s1)))" if "?n + 16 = unat (iov_len iov)" for src
    by (rule safe_bind [OF handle_ctrl_msg_safe [OF inv w d [OF that] l [OF that]]]) (simp_all add: split_beta)
  show ?thesis using False h inv c handle_chan_msg_safe [OF inv d] by (simp add: rx_dispatch_def Let_def)
qed

lemma unmap_wf: "iovs_wf l \<Longrightarrow> iovs_wf (fst (vqueue_unmap_iovs l vm))"
proof -
  have "length (fst (vqueue_unmap_loop vs vm)) = length vs" for vs
    by (induction vs arbitrary: vm) (simp_all add: split_beta Let_def)
  then show "iovs_wf l \<Longrightarrow> iovs_wf (fst (vqueue_unmap_iovs l vm))" by (simp add: vqueue_unmap_iovs_def iovs_wf_def split_beta Let_def)
qed

text \<open>A result that carries a buffer along with the world.\<close>

definition safe_buf :: "addr multiset \<Rightarrow> addr set \<Rightarrow> ('a \<Rightarrow> vqueue_buf \<times> tipc_world) \<Rightarrow> 'a outcome \<Rightarrow> bool" where
  "safe_buf P C st x \<longleftrightarrow> safe P C (snd \<circ> st) x \<and> (\<forall>y. x = Done y \<longrightarrow> buf_wf (fst (st y)))"

lemma safe_buf_simps [simp]:
  "safe_buf P C st (Done x) \<longleftrightarrow> world_inv P C (snd (st x)) \<and> buf_wf (fst (st x))" "safe_buf P C st Blocked" "safe_buf P C st Panic"
  "\<not> safe_buf P C st Fault"
  by (simp_all add: safe_buf_def)

lemma safe_buf_bind:
  assumes "safe P C st x" "\<And>y. x = Done y \<Longrightarrow> world_inv P C (st y) \<Longrightarrow> safe_buf P C st' (f y)"
  shows "safe_buf P C st' (bind_outcome x f)"
  using assms by (cases x) auto

lemma handle_rx_msg_safe:
  assumes inv: "world_inv P C s" and w: "wakes_ok P C wks" "view_ok nv" and buf: "buf_wf buf" "buf_len_ok buf"
  shows "safe_buf P C snd (handle_rx_msg buf nv wks s)"
proof (cases "vi_used (in_iovs buf) = 0")
  case True
  then show ?thesis using inv buf(1) by (simp add: handle_rx_msg_def)
next
  case False
  obtain r in1 vm1 where m: "vqueue_map_iovs (in_iovs buf) (tw_vmm s) = (r, in1, vm1)" by (metis prod_cases3)
  have sp: "regions_ok (vm_regions vm1) \<and> iovs_wf in1 \<and> vi_used in1 = vi_used (in_iovs buf)"
    "r = NO_ERROR \<Longrightarrow> map iov_len (vi_iovs in1) = map iov_len (vi_iovs (in_iovs buf)) \<and>
       (\<forall>i < vi_used in1. iov_len (vi_iovs in1 ! i) \<noteq> 0 \<and> len_ok (iov_len (vi_iovs in1 ! i)) \<longrightarrow>
           mapped vm1 (iov_base (vi_iovs in1 ! i)) (unat (iov_len (vi_iovs in1 ! i))))"
    using map_iovs_spec [OF m world_invD(2) [OF inv]] buf(1) by (auto simp: buf_wf_def)
  let ?s1 = "s\<lparr>tw_vmm := vm1\<rparr>"
  have v: "world_inv P C ?s1" using inv_vmm [OF inv] sp(1) by blast
  have b1: "buf_wf (buf\<lparr>in_iovs := l\<rparr>)" if "iovs_wf l" for l using buf(1) that by (simp add: buf_wf_def)
  show ?thesis
  proof (cases r)
    case (Inl e)
    then show ?thesis using False m v b1 sp(1) by (simp add: handle_rx_msg_def)
  next
    case (Inr u)
    have l: "0 < length (vi_iovs (in_iovs buf))" using buf(1) False by (auto simp: buf_wf_def iovs_wf_def)
    have e: "map iov_len (vi_iovs in1) = map iov_len (vi_iovs (in_iovs buf))" using sp(2) Inr by simp
    have "iov_len (vi_iovs in1 ! 0) = iov_len (vi_iovs (in_iovs buf) ! 0)"
      using arg_cong [OF e, of "\<lambda>xs. xs ! 0"] arg_cong [OF e, of length] l by simp
    moreover have "len_ok (iov_len (vi_iovs (in_iovs buf) ! 0))" using buf(2) False by (simp add: buf_len_ok_def iovs_len_ok_def)
    ultimately have i: "mapped (tw_vmm ?s1) (iov_base (vi_iovs in1 ! 0)) (unat (iov_len (vi_iovs in1 ! 0)))"
      if "16 \<le> unat (iov_len (vi_iovs in1 ! 0))" using sp Inr False that by auto
    have "safe_buf P C snd (bind_outcome (rx_dispatch (vi_iovs in1 ! 0) nv wks ?s1) (\<lambda>(ret, s1).
              let (in2, vm2) = vqueue_unmap_iovs in1 (tw_vmm s1) in Done (ret, buf\<lparr>in_iovs := in2\<rparr>, s1\<lparr>tw_vmm := vm2\<rparr>)))"
    proof (rule safe_buf_bind [OF rx_dispatch_safe [OF v w i]])
      fix y :: "nat res \<times> tipc_world" assume y: "world_inv P C (snd y)"
      have "regions_ok (vm_regions (snd (vqueue_unmap_iovs in1 (tw_vmm (snd y)))))" by (rule regions_ok_unmap_iovs) (rule world_invD(2) [OF y])
      then show "safe_buf P C snd (case y of (ret, s1) \<Rightarrow>
          let (in2, vm2) = vqueue_unmap_iovs in1 (tw_vmm s1) in Done (ret, buf\<lparr>in_iovs := in2\<rparr>, s1\<lparr>tw_vmm := vm2\<rparr>))"
        using inv_vmm [OF y] b1 [OF unmap_wf] sp(1) by (simp add: split_beta)
    qed
    then show ?thesis using False m Inr by (simp add: handle_rx_msg_def)
  qed
qed

lemma rx_return_safe:
  assumes "world_inv P C s" "buf_wf buf"
  shows "safe_buf P C (\<lambda>(b, s, _). (b, s)) (rx_return ret buf s)"
proof -
  obtain r vq where a: "vqueue_add_buf (vq_rx (tw_dev s)) buf (res_code ret) = (r, vq)" by force
  have "ring_ok vq" using add_buf_ring [of "vq_rx (tw_dev s)" buf "res_code ret"] world_invD(4) [OF assms(1)] a by simp
  then show ?thesis using a inv_rx [OF assms(1)] assms(2) by (simp add: rx_return_def split: sum.split err.split)
qed

lemma rx_pass_safe:
  assumes inv: "world_inv P C s" and w: "view_ok rv" "view_ok nv" "wakes_ok P C wks" and buf: "buf_wf buf"
  shows "safe_buf P C (\<lambda>(b, s, _). (b, s)) (rx_pass rv nv wks buf s)"
proof (cases "vqueue_get_avail_buf rv (vq_rx (tw_dev s)) buf")
  case (Done x)
  obtain r vq buf1 where x: "x = (r, vq, buf1)" by (metis prod_cases3)
  let ?s1 = "upd_dev (\<lambda>d. d\<lparr>vq_rx := vq\<rparr>) s"
  have g: "buf_wf buf1" "r = NO_ERROR \<longrightarrow> buf_len_ok buf1" "vq_vring vq = vq_vring (vq_rx (tw_dev s))" "vring_addr vq = vring_addr (vq_rx (tw_dev s))"
    using get_avail_buf_inv [of rv "vq_rx (tw_dev s)" buf r vq buf1] Done x buf w(1) by auto
  have s1: "world_inv P C ?s1" using inv g(3,4) world_invD(4) [OF inv] by (intro inv_rx) (simp_all add: ring_ok_def)
  show ?thesis
  proof (cases r)
    case (Inl e)
    then show ?thesis using Done x s1 g(1) rx_return_safe [OF s1 g(1)] by (cases e) (simp_all add: rx_pass_def)
  next
    case (Inr u)
    note h = handle_rx_msg_safe [OF s1 w(3,2) g(1), unfolded safe_buf_def]
    have "safe_buf P C (\<lambda>(b, s, _). (b, s)) (bind_outcome (handle_rx_msg buf1 nv wks ?s1) (\<lambda>(ret, buf2, s2). rx_return ret buf2 s2))"
    proof (rule safe_buf_bind)
      show "safe P C (snd \<circ> snd) (handle_rx_msg buf1 nv wks ?s1)" using h g(2) Inr by simp
      fix y assume y: "handle_rx_msg buf1 nv wks ?s1 = Done y" "world_inv P C ((snd \<circ> snd) y)"
      then have "buf_wf (fst (snd y))" using h g(2) Inr by simp
      then show "safe_buf P C (\<lambda>(b, s, _). (b, s)) (case y of (ret, buf2, s2) \<Rightarrow> rx_return ret buf2 s2)"
        using rx_return_safe y(2) by (simp add: split_beta)
    qed
    then show ?thesis using Done x Inr by (simp add: rx_pass_def)
  qed
qed (use get_avail_no_fault [OF world_invD(4) [OF inv], of rv buf] in \<open>simp_all add: rx_pass_def\<close>)

definition passes_ok :: "addr multiset \<Rightarrow> addr set \<Rightarrow> ((tipc_world \<Rightarrow> tipc_world) \<times> ns_view \<times> ns_view \<times> tx_wake list) list \<Rightarrow> bool" where
  "passes_ok P C ps \<longleftrightarrow> (\<forall>(f, rv, nv, wks) \<in> set ps. calm P C f \<and> view_ok rv \<and> view_ok nv \<and> wakes_ok P C wks)"

lemma rx_thread_safe:
  assumes "world_inv P C s" "passes_ok P C ps" "buf_wf buf"
  shows "safe P C id (tipc_rx_thread ps buf s)"
  using assms
proof (induction ps buf s rule: tipc_rx_thread.induct)
  case (2 f rv nv wks ps buf s)
  have ok: "world_inv P C (f s)" "view_ok rv" "view_ok nv" "wakes_ok P C wks" "passes_ok P C ps"
    using 2(2,3) by (auto simp: passes_ok_def calm_def)
  note p = rx_pass_safe [OF ok(1-4) 2(4)]
  show ?case
  proof (cases "rx_pass rv nv wks buf (f s)")
    case (Done y)
    obtain b s1 go where y: "y = (b, s1, go)" by (metis prod_cases3)
    have s1: "world_inv P C s1" "buf_wf b" using p Done y by simp_all
    show ?thesis
    proof (cases "\<not> rx_stop (tw_dev s) \<and> go")
      case True
      then show ?thesis using 2(1) [of y b "(s1, go)" s1 go] Done y s1 ok(5) by simp
    next
      case False
      then show ?thesis using Done y s1 2(2) by auto
    qed
  qed (use p 2(2) in auto)
qed simp

section \<open>Events of the channels\<close>

text \<open>
  The transmit thread works on a channel that it has a reference on. The channel is alive, it has a
  queue, and its cookie leads to its endpoint, or nowhere once the endpoint is gone.
\<close>

lemma held_chan:
  assumes "world_inv (add_mset c P) (insert c C) s"
  shows "has_queue (tw_k s) c" "cookie_ept (handle_get_cookie (tw_k s) c) = dslot (tw_dev s) c"
proof -
  obtain H where at: "world_at (add_mset c P + H) (insert c C) s" by (rule world_invE [OF assms])
  let ?ck = "case dslot (tw_dev s) c of Some t \<Rightarrow> Suc t | None \<Rightarrow> 0"
  have k: "known (tw_dev s) (insert c C) c = Some (?ck, dslot (tw_dev s) c = None)" by (simp add: known_def split: option.split)
  note keep = chan_keepD [OF world_atD(5) [OF at] k]
  have "ipc_core {} (drefs (tw_dev s) + (add_mset c P + H)) (tw_k s)" by (rule kreach_core [OF world_atD(4) [OF at]])
  then obtain x where x: "chans (tw_k s) c = Some x" by (rule holder_cases [of _ _ _ c]) (use keep(2) in auto)
  show "has_queue (tw_k s) c" using x keep(4) [OF x] by (auto simp: has_queue_def)
  show "cookie_ept (handle_get_cookie (tw_k s) c) = dslot (tw_dev s) c"
    using x keep(3) [OF x] by (cases "dslot (tw_dev s) c") (simp_all add: handle_get_cookie_def handle_at_def cookie_ept_def)
qed

lemma get_put_inv:
  assumes inv: "world_inv P C s" and q: "has_queue (tw_k s) c"
  shows "world_inv P C (s\<lparr>tw_k := snd (ipc_get_msg (Some c) (tw_k s))\<rparr>)" "world_inv P C (s\<lparr>tw_k := snd (ipc_put_msg (Some c) mid (tw_k s))\<rparr>)"
    "world_inv P C (s\<lparr>tw_k := snd (snd (snd (read_msg_locked km um (Some c) mid off msg (tw_k s))))\<rparr>)"
proof -
  have "kreach (snd (ipc_get_msg (Some c) (tw_k s))) H" if "kreach (tw_k s) H" for H
    by (rule kreach.step [OF that kstep.get [OF q]]) (rule prod.collapse [symmetric])
  then show "world_inv P C (s\<lparr>tw_k := snd (ipc_get_msg (Some c) (tw_k s))\<rparr>)"
    by (intro inv_kernel [OF inv]) (simp add: client.Q_get)
  have "kreach (snd (ipc_put_msg (Some c) mid (tw_k s))) H" if "kreach (tw_k s) H" for H
    by (rule kreach.step [OF that kstep.put [OF q]]) (rule prod.collapse [symmetric])
  then show "world_inv P C (s\<lparr>tw_k := snd (ipc_put_msg (Some c) mid (tw_k s))\<rparr>)"
    by (intro inv_kernel [OF inv]) (simp add: client.Q_put)
  obtain km' um' r w' where e: "read_msg_locked km um (Some c) mid off msg (tw_k s) = (km', um', r, w')" by (metis prod_cases4)
  have "kreach w' H" if "kreach (tw_k s) H" for H by (rule kreach.step [OF that kstep.read [OF q e]])
  moreover have "chan_keep K w'" if "chan_keep K (tw_k s)" for K using client.Q_read [OF that, of km um "Some c" mid off msg] e by simp
  moreover have "hlinked w' = hlinked (tw_k s)"
    using links.Q_read [where w = "tw_k s" and km = km and um = um and ch = "Some c" and mid = mid and off = off and msg = msg, OF refl] e by simp
  ultimately show "world_inv P C (s\<lparr>tw_k := snd (snd (snd (read_msg_locked km um (Some c) mid off msg (tw_k s))))\<rparr>)"
    using e by (intro inv_kernel [OF inv]) simp
qed

lemma tx_data_cb_ok: "cb_ok (add_mset c P) (insert c C) (tx_data_cb c mid)"
  unfolding cb_ok_def
proof (intro allI impI)
  fix dst n s assume inv: "world_inv (add_mset c P) (insert c C) s"
  note r = get_put_inv(3) [OF inv held_chan(1) [OF inv]]
  show "world_inv (add_mset c P) (insert c C) (snd (tx_data_cb c mid dst n s))"
    using r by (simp add: tx_data_cb_def ipc_read_msg_def Let_def split_beta)
qed

definition envs_ok :: "addr multiset \<Rightarrow> addr set \<Rightarrow> (ns_view \<times> tx_wake list) list \<Rightarrow> bool" where
  "envs_ok P C envs \<longleftrightarrow> (\<forall>(nv, wks) \<in> set envs. view_ok nv \<and> wakes_ok P C wks)"

lemma tx_msg_loop_safe:
  assumes "world_inv (add_mset c P) (insert c C) s" "envs_ok (add_mset c P) (insert c C) envs"
  shows "safe (add_mset c P) (insert c C) id (tx_msg_loop c remote envs s)"
  using assms
proof (induction c remote envs s rule: tx_msg_loop.induct)
  case (1 c remote envs s)
  let ?P = "add_mset c P" and ?C = "insert c C"
  obtain r k1 where g: "ipc_get_msg (Some c) (tw_k s) = (r, k1)" by force
  have s1: "world_inv ?P ?C (s\<lparr>tw_k := k1\<rparr>)" using get_put_inv(1) [OF 1(2) held_chan(1) [OF 1(2)]] g by simp
  show ?case
  proof (cases r)
    case (Inl e)
    then show ?thesis using g s1 by (cases e) (simp_all add: tx_msg_loop.simps)
  next
    case (Inr info)
    show ?thesis
    proof (cases envs)
      case Nil
      then show ?thesis using g Inr by (simp add: tx_msg_loop.simps)
    next
      case (Cons env envs1)
      obtain nv wks where env: "env = (nv, wks)" by force
      have ok: "view_ok nv" "wakes_ok ?P ?C wks" "envs_ok ?P ?C envs1" using 1(3) Cons env by (auto simp: envs_ok_def)
      let ?d = "tipc_send_data 0 remote (Some (tx_data_cb c (info_id info))) (ucast (info_len info)) True nv wks (s\<lparr>tw_k := k1\<rparr>)"
      have d: "safe ?P ?C snd ?d" by (rule tipc_send_data_safe [OF s1 ok(2,1)]) (auto intro: tx_data_cb_ok)
      have e: "tx_msg_loop c remote envs s = (case ?d of Blocked \<Rightarrow> Blocked | Panic \<Rightarrow> Panic | Fault \<Rightarrow> Fault
          | Done (_, s1) \<Rightarrow> tx_msg_loop c remote envs1 (s1\<lparr>tw_k := snd (ipc_put_msg (Some c) (info_id info) (tw_k s1))\<rparr>))"
        using g Inr Cons env by (subst tx_msg_loop.simps) simp
      show ?thesis
      proof (cases ?d)
        case (Done y)
        obtain r2 s2 where y: "y = (r2, s2)" by force
        have s2: "world_inv ?P ?C s2" using d Done y by simp
        note p = get_put_inv(2) [OF s2 held_chan(1) [OF s2], of "info_id info"]
        have "safe ?P ?C id (tx_msg_loop c remote envs1 (s2\<lparr>tw_k := snd (ipc_put_msg (Some c) (info_id info) (tw_k s2))\<rparr>))"
          using 1(1) [OF g [symmetric] Inr Cons env [symmetric] Done y [symmetric] p ok(3)] .
        then show ?thesis unfolding e using Done y by (simp add: id_def)
      qed (use d e in simp_all)
    qed
  qed
qed

lemma handle_tx_msg_safe:
  assumes "world_inv (add_mset c P) (insert c C) s" "envs_ok (add_mset c P) (insert c C) envs"
  shows "safe (add_mset c P) (insert c C) id (handle_tx_msg c envs s)"
  using assms tx_msg_loop_safe [OF assms] by (simp add: handle_tx_msg_def split: option.split)

lemma handle_ready_safe:
  assumes "world_inv P C s" "view_ok nv" "wakes_ok P C wks"
  shows "safe P C id (handle_ready c nv wks s)"
proof -
  have "safe P C id (bind_outcome (send_conn_rsp local remote 0 sz 1 nv wks s) (\<lambda>(_, s1). Done s1))" for local remote sz
    by (rule safe_bind [OF ctrl_send_safe(2) [OF assms(1,3,2)]]) (simp add: split_beta)
  then show ?thesis using assms(1) by (simp add: handle_ready_def split: option.split)
qed

lemma handle_hup_safe:
  assumes inv: "world_inv (add_mset c P) (insert c C) s" and w: "view_ok nv" "wakes_ok (add_mset c P) (insert c C) wks"
  shows "safe (add_mset c P) (insert c C) id (handle_hup c nv wks s)"
proof (cases "dslot (tw_dev s) c")
  case None
  then show ?thesis using inv held_chan(2) [OF inv] by (simp add: handle_hup_def)
next
  case (Some t)
  have t: "t < TIPC_ADDR_MAX_NUM" "ept_chan (epts (tw_dev s) ! t) = Some c" using dslot_SomeD [OF Some] by auto
  let ?s1 = "upd_dev (\<lambda>d. free_local_addr d (ept_to_addr t)) (drop_chan c s)"
  have "safe (add_mset c P) (insert c C) id
      (bind_outcome (send_disc_req (ept_to_addr t) (ept_remote (epts (tw_dev s) ! t)) nv wks ?s1) (\<lambda>(_, s2). Done s2))"
    by (rule safe_bind [OF ctrl_send_safe(3) [OF drop_inv [OF inv t] w(2,1)]]) (simp add: split_beta)
  then show ?thesis using Some held_chan(2) [OF inv] by (simp add: handle_hup_def Let_def)
qed

text \<open>
  The thread gives its reference back. It may be the last one, but then the endpoint is gone and the
  channel is closed.
\<close>

lemma decref_inv:
  assumes inv: "world_inv (add_mset c P) (insert c C) s"
  shows "world_inv P C (s\<lparr>tw_k := handle_decref c (tw_k s)\<rparr>)"
proof -
  obtain H where at: "world_at (add_mset c P + H) (insert c C) s" by (rule world_invE [OF inv])
  let ?R = "drefs (tw_dev s) + (add_mset c P + H)"
  have q: "2 \<le> count ?R c \<or> quiescent (tw_k s) c"
  proof (cases "dslot (tw_dev s) c")
    case (Some t)
    then have "c \<in> set (dchans (tw_dev s))" using dslot_None [OF world_atD(1) [OF at], of c] by auto
    then have "1 \<le> count (mset (dchans (tw_dev s))) c" by (simp add: Suc_le_eq)
    then have "2 \<le> count ?R c" unfolding drefs_def count_union by linarith
    then show ?thesis ..
  next
    case None
    then have k: "known (tw_dev s) (insert c C) c = Some (0, True)" by (simp add: known_def)
    have "has_queue (tw_k s) c" by (rule held_chan(1) [OF inv])
    then obtain x where x: "chans (tw_k s) c = Some x" by (auto simp: has_queue_def split: option.splits)
    then show ?thesis using chan_keepD(5) [OF world_atD(5) [OF at] k x] by (simp add: quiescent_def)
  qed
  have "kreach (handle_decref c (tw_k s)) (?R - {#c#})" by (rule kreach.step [OF world_atD(4) [OF at] kstep.decref]) (use q in simp_all)
  moreover have "?R - {#c#} = drefs (tw_dev s) + (P + H)" by simp
  moreover have "known (tw_dev s) C \<subseteq>\<^sub>m known (tw_dev s) (insert c C)" by (auto simp: map_le_def known_def split: option.splits if_splits)
  then have "chan_keep (known (tw_dev s) C) (handle_decref c (tw_k s))" by (rule chan_keep_mono [OF client.Q_decref [OF world_atD(5) [OF at]]])
  ultimately have "world_at (P + H) C (s\<lparr>tw_k := handle_decref c (tw_k s)\<rparr>)" using at by (simp add: world_at_def)
  then show ?thesis ..
qed

lemma tx_event_safe:
  assumes "world_inv (add_mset c P) (insert c C) s" "view_ok nv" "wakes_ok (add_mset c P) (insert c C) wks"
    "envs_ok (add_mset c P) (insert c C) envs"
  shows "safe P C id (tx_event c event nv wks envs s)"
  unfolding tx_event_def
proof (rule safe_bind)
  show "safe (add_mset c P) (insert c C) id (if event AND IPC_HANDLE_POLL_READY \<noteq> 0 then handle_ready c nv wks s
        else if event AND IPC_HANDLE_POLL_MSG \<noteq> 0 then handle_tx_msg c envs s
        else if event AND IPC_HANDLE_POLL_HUP \<noteq> 0 then handle_hup c nv wks s else Done s)"
    using handle_ready_safe [OF assms(1-3)] handle_tx_msg_safe [OF assms(1,4)] handle_hup_safe [OF assms(1-3)] assms(1) by simp
  fix y assume "world_inv (add_mset c P) (insert c C) (id y)"
  from decref_inv [OF this [unfolded id_apply]]
  show "safe P C id (Done (y\<lparr>tw_k := handle_decref c (tw_k y)\<rparr>))" by simp
qed

end
