(* ===== verification/Tipc_Props.thy ===== *)
theory Tipc_Props
  imports Tipc_Safe
begin

text \<open>
  What the TIPC device (\<^verbatim>\<open>tipc_dev.c\<close>) guarantees: neither of its threads makes the kernel fault,
  messages reach the channel of the endpoint they are addressed to, and a reset gives every
  reference back. The last section shows what the device does not survive.
\<close>

section \<open>A concrete device\<close>

text \<open>The client end of a connection with an endpoint of the device, a ring and mapped memory.\<close>

definition demo_mem :: kmem where
  "demo_mem a = (if a = 0x100000 then 77 else if a = 0x100004 then 232 else if a = 0x100005 then 3 else if a = 0x10000C then 2
     else if a = 0x100010 then 5 else if a = 0x100011 then 6 else 0)"

definition demo_world0 :: tipc_world where
  "demo_world0 = \<lparr>tw_dev = new_dev\<lparr>vq_rx := demo_vq, vq_tx := demo_vq, td_state := VDEV_STATE_ACTIVE\<rparr>, tw_k = run_accepted, tw_vmm = demo_vmm,
     tw_mem = demo_mem\<rparr>"

definition demo_world :: tipc_world where
  "demo_world = conn_req_listed 1000 2 (demo_world0\<lparr>tw_dev := snd (alloc_local_addr (tw_dev demo_world0) 77 2)\<rparr>)"

lemma demo_world0_at: "world_at {#3, 2, 1#} {} demo_world0"
proof -
  have "known (tw_dev demo_world0) {} = Map.empty"
  proof
    fix c
    have "dslot new_dev c = None" using dslot_None [OF new_dev_wf(1)] new_dev_wf(2) by simp
    then show "known (tw_dev demo_world0) {} c = None" by (simp add: known_def demo_world0_def dslot_def)
  qed
  then show ?thesis using new_dev_wf run_accepted_reach demo_vmm_ok
    by (simp add: world_at_def demo_world0_def table_wf_def drefs_def ring_ok_def demo_vq_def vring_init_def chan_keep_def)
qed

lemma demo_chan: "chan_keep (Map.empty(2 \<mapsto> (0, False))) run_accepted"
proof -
  have "2 < next_addr run_accepted \<and> ports run_accepted 2 = None \<and>
    (case chans run_accepted 2 of Some x \<Rightarrow> h_cookie (c_handle x) = 0 \<and> c_msg_queue x \<noteq> None | None \<Rightarrow> False)" by code_simp
  then show ?thesis by (auto simp: chan_keep_def split: option.splits)
qed

lemma demo_world_at: "world_at {#3, 1#} {} demo_world"
proof -
  obtain a dev1 where d: "alloc_local_addr (tw_dev demo_world0) 77 2 = (a, dev1)" by force
  have "fst (alloc_local_addr (tw_dev demo_world0) 77 2) = 1000" by code_simp
  then have a: "a = 1000" using d by simp
  have n: "dchans (tw_dev demo_world0) = []" using new_dev_wf(2) by (simp add: demo_world0_def)
  have k: "known (tw_dev demo_world0) {} = Map.empty"
    using world_atD(1) [OF demo_world0_at] n by (auto simp: known_def dslot_None split: option.split)
  have l: "hlinked run_accepted = hlinked (tw_k demo_world0) - {2}"
    by (simp add: demo_world0_def) code_simp
  have "world_at {#3, 1#} {} (conn_req_listed a 2 (demo_world0\<lparr>tw_dev := dev1, tw_k := run_accepted\<rparr>))"
    by (rule conn_req_listed_at [OF demo_world0_at _ _ l _ d]) (use n k a demo_chan run_accepted_reach in \<open>simp_all add: drefs_def add_mset_commute\<close>)
  then show ?thesis using d a by (simp add: demo_world_def demo_world0_def)
qed

section \<open>The receive thread\<close>

lemma world_not_faulted: "world_inv P C s \<Longrightarrow> \<not> faulted (tw_k s)"
  by (erule world_invE, drule world_atD(4), drule kreach_inv) (simp add: ipc_inv_def ipc_core_def)

lemma rx_buf0_wf: "buf_wf rx_buf0"
  by (simp add: rx_buf0_def buf_wf_def iovs_wf_def)


text \<open>One pass returns a buffer that is too short for a header; meanwhile the thread is told to stop.\<close>

definition demo_stop :: "tipc_world \<Rightarrow> tipc_world" where
  "demo_stop = upd_dev (\<lambda>d. d\<lparr>rx_stop := True\<rparr>)"

lemma demo_stop_calm: "calm P C demo_stop"
  unfolding calm_def
proof (intro allI impI)
  fix s assume s: "world_inv P C s"
  show "world_inv P C (demo_stop s)"
    by (rule world_inv_dev [OF s]) (use world_invD [OF s] in \<open>simp_all add: demo_stop_def upd_dev_def\<close>)
qed

lemma demo_view_ok: "view_ok (demo_view (\<lambda>_ _. demo_desc f 8))"
  by (simp add: view_ok_def demo_view_def demo_desc_def)

abbreviation demo_pass :: "(tipc_world \<Rightarrow> tipc_world) \<times> ns_view \<times> ns_view \<times> tx_wake list" where
  "demo_pass \<equiv> (demo_stop, demo_view (\<lambda>_ _. demo_desc 0 8), demo_view (\<lambda>_ _. demo_desc 2 8), [])"

lemma demo_world_fields:
  "vq_rx (tw_dev demo_world) = demo_vq" "vq_tx (tw_dev demo_world) = demo_vq" "tw_vmm demo_world = demo_vmm" "\<not> rx_stop (tw_dev demo_world)"
  "tw_mem demo_world = demo_mem" "td_state (tw_dev demo_world) = VDEV_STATE_ACTIVE"
proof -
  have n: "rx_stop new_dev = False" by (simp add: new_dev_def create_tipc_device_def kalloc_def init_kst_def)
  show "vq_rx (tw_dev demo_world) = demo_vq" "vq_tx (tw_dev demo_world) = demo_vq" "tw_vmm demo_world = demo_vmm" "\<not> rx_stop (tw_dev demo_world)"
    "tw_mem demo_world = demo_mem" "td_state (tw_dev demo_world) = VDEV_STATE_ACTIVE"
    using n by (simp_all add: demo_world_def demo_world0_def conn_req_listed_def upd_dev_def alloc_local_addr_def Let_def split_beta split: option.split)
qed

lemma demo_thread:
  obtains s' where "tipc_rx_thread [demo_pass] rx_buf0 demo_world = Done s'" "used_idx (vq_rx (tw_dev s')) = 0"
proof -
  have "\<exists>s'. tipc_rx_thread [demo_pass] rx_buf0 demo_world = Done s' \<and> used_idx (vq_rx (tw_dev s')) = 0"
    by (simp add: rx_pass_def demo_world_fields demo_stop_def upd_dev_def vqueue_get_avail_buf_def demo_vq_defs vqueue_chain.simps iovs_add_def
      rx_buf0_def handle_rx_msg_def vqueue_map_iovs_def vqueue_map_loop.simps vmm_alloc_physical_def ROUNDUP_def PAGE_SIZE_def demo_vmm_def
      free_spot_def rx_dispatch_def vqueue_unmap_iovs_def vmm_free_region_def in_region_def rx_return_def vqueue_add_buf_def)
  then show ?thesis using that by blast
qed


section \<open>The transmit thread\<close>


definition demo_held :: tipc_world where
  "demo_held = demo_world\<lparr>tw_k := handle_incref 2 (tw_k demo_world)\<rparr>"

lemma demo_ept: "lookup_ept (tw_dev demo_world) 1000 = Some 0" "epts (tw_dev demo_world) ! 0 = \<lparr>ept_remote = 77, ept_chan = Some 2\<rparr>"
proof -
  have e: "epts (tw_dev demo_world) = epts (snd (alloc_local_addr (tw_dev demo_world0) 77 2))"
    "td_inuse (tw_dev demo_world) = td_inuse (snd (alloc_local_addr (tw_dev demo_world0) 77 2))"
    by (simp_all add: demo_world_def conn_req_listed_def upd_dev_def Let_def split_beta)
  show "epts (tw_dev demo_world) ! 0 = \<lparr>ept_remote = 77, ept_chan = Some 2\<rparr>" unfolding e by code_simp
  have "bitmap_test (td_inuse (snd (alloc_local_addr (tw_dev demo_world0) 77 2))) 0" by code_simp
  then show "lookup_ept (tw_dev demo_world) 1000 = Some 0" unfolding lookup_ept_iff e(2)
    by (simp add: TIPC_ADDR_MAX_NUM_def ept_to_addr_def slot_to_addr_def TIPC_ADDR_BASE_def)
qed

lemma demo_held_inv: "world_inv (add_mset 2 {#}) (insert 2 {}) demo_held"
proof -
  note at = demo_world_at
  have z: "(0 :: nat) < TIPC_ADDR_MAX_NUM" by (simp add: TIPC_ADDR_MAX_NUM_def)
  have d: "dslot (tw_dev demo_world) 2 = Some 0" using dslot_iff [OF world_atD(1) [OF at], of 2 0] demo_ept(2) z by simp
  then have c: "2 \<in># drefs (tw_dev demo_world)" using dslot_None [OF world_atD(1) [OF at], of 2] by (auto simp: drefs_def)
  have k: "known (tw_dev demo_world) {2} = known (tw_dev demo_world) {}" using d by (auto simp: known_def split: option.split)
  have "kreach (handle_incref 2 (tw_k demo_world)) (add_mset 2 (drefs (tw_dev demo_world) + {#3, 1#}))"
    by (rule kreach.step [OF world_atD(4) [OF at] kstep.incref]) (use c in simp)
  then have "world_at (add_mset 2 {#} + {#3, 1#}) {2} demo_held"
    using at k client.Q_handle(1) [OF world_atD(5) [OF at], of 2] by (simp add: world_at_def demo_held_def add_mset_commute)
  then show ?thesis ..
qed


section \<open>Reset\<close>

lemma drop_epts:
  assumes "t < TIPC_ADDR_MAX_NUM"
  shows "epts (tw_dev (upd_dev (\<lambda>d. free_local_addr d (ept_to_addr t)) (drop_chan c s))) = (epts (tw_dev s))[t := \<lparr>ept_remote = 0, ept_chan = None\<rparr>]"
  using ept_addr_slot [OF assms] assms by (simp add: upd_dev_def drop_chan_def free_local_addr_def Let_def split_beta)

lemma close_chans_spec:
  assumes "world_inv P C s" "set slots \<subseteq> {..< TIPC_ADDR_MAX_NUM}"
  shows "world_inv P C (close_chans slots s) \<and> (\<forall>i < TIPC_ADDR_MAX_NUM. ept_chan (epts (tw_dev (close_chans slots s)) ! i) \<noteq> None \<longrightarrow>
    i \<notin> set slots \<and> ept_chan (epts (tw_dev s) ! i) \<noteq> None)"
  using assms
proof (induction slots arbitrary: s)
  case (Cons t slots)
  have t: "t < TIPC_ADDR_MAX_NUM" "set slots \<subseteq> {..< TIPC_ADDR_MAX_NUM}" using Cons(3) by auto
  have wf: "bitmap_test (td_inuse (tw_dev s)) t \<longleftrightarrow> ept_chan (epts (tw_dev s) ! t) \<noteq> None" "length (epts (tw_dev s)) = TIPC_ADDR_MAX_NUM"
    using world_invD(1) [OF Cons(2)] t(1) by (auto simp: table_wf_def)
  show ?case
  proof (cases "ept_chan (epts (tw_dev s) ! t)")
    case None
    then show ?thesis using Cons.IH [OF Cons(2) t(2)] wf by auto
  next
    case (Some c)
    let ?s = "upd_dev (\<lambda>d. free_local_addr d (ept_to_addr t)) (drop_chan c s)"
    have e: "close_chans (t # slots) s = close_chans slots ?s" using Some wf(1) by simp
    have n: "i \<noteq> t \<and> ept_chan (epts (tw_dev s) ! i) \<noteq> None"
      if "ept_chan ((epts (tw_dev s))[t := \<lparr>ept_remote = 0, ept_chan = None\<rparr>] ! i) \<noteq> None" for i
      using that t(1) wf(2) by (cases "i = t") auto
    have "ept_chan (epts (tw_dev ?s) ! i) \<noteq> None \<Longrightarrow> i \<noteq> t \<and> ept_chan (epts (tw_dev s) ! i) \<noteq> None" for i
      unfolding drop_epts [OF t(1)] by (rule n)
    then show ?thesis unfolding e using Cons.IH [OF drop_inv [OF Cons(2) t(1) Some] t(2)] by (metis set_ConsD)
  qed
qed simp

lemma closed_dchans:
  assumes "world_inv P C s"
  shows "dchans (tw_dev (close_chans [0..<TIPC_ADDR_MAX_NUM] s)) = []"
proof -
  let ?s = "close_chans [0..<TIPC_ADDR_MAX_NUM] s"
  have c: "world_inv P C ?s" "\<forall>i < TIPC_ADDR_MAX_NUM. ept_chan (epts (tw_dev ?s) ! i) = None"
    using close_chans_spec [OF assms, of "[0..<TIPC_ADDR_MAX_NUM]"] by (auto simp: subset_iff)
  then have l: "length (epts (tw_dev ?s)) = TIPC_ADDR_MAX_NUM" using world_invD(1) [OF c(1)] by (simp add: table_wf_def)
  have "x \<notin> set (dchans (tw_dev ?s))" for x using c(2) l unfolding set_somes by auto
  then show ?thesis by (metis last_in_set)
qed



section \<open>Messages\<close>

lemma kwrite_append: "kwrite m a (xs @ ys) = kwrite (kwrite m a xs) (a + word_of_nat (length xs)) ys"
  by (induction xs arbitrary: m a) (simp_all add: algebra_simps)

lemma hdr_parse: "hdr_src (tipc_hdr_bytes src dst len @ bs) = src" "hdr_dst (tipc_hdr_bytes src dst len @ bs) = dst"
  "hdr_len (tipc_hdr_bytes src dst len @ bs) = len" "length (tipc_hdr_bytes src dst len) = 16"
  by (simp_all add: hdr_src_def hdr_dst_def hdr_len_def tipc_hdr_bytes_def)

text \<open>C26: What is sent can be parsed: the bytes put into a buffer are a header with the two addresses and the
  length of the data, followed by the data, cut at the end of the buffer; the result counts them, and
  no byte outside of the buffer is written.
\<close>

theorem tipc_send_roundtrip:
  assumes "regions_ok (vm_regions (tw_vmm s))" "mapped (tw_vmm s) (iov_base iov) (unat (iov_len iov))" "16 \<le> unat (iov_len iov)"
    "length data < 2 ^ 16"
  shows "\<exists>s' n. tx_fill local remote (send_buf_cb data) (word_of_nat (length data)) iov s = Done (Inr (16 + n), s') \<and>
     n = min (length data) (unat (iov_len iov) - 16) \<and>
     (let bs = kread (tw_mem s') (iov_base iov) (16 + n)
      in hdr_src bs = local \<and> hdr_dst bs = remote \<and> unat (hdr_len bs) = length data \<and> drop 16 bs = take n data) \<and>
     (\<forall>a. a < iov_base iov \<or> unat (iov_base iov) + unat (iov_len iov) \<le> unat a \<longrightarrow> tw_mem s' a = tw_mem s a)"
proof -
  let ?b = "iov_base iov" and ?l = "unat (iov_len iov)" and ?w = "word_of_nat (length data) :: u16"
  let ?n = "min (length data) (?l - 16)"
  let ?bs = "tipc_hdr_bytes local remote ?w @ take ?n data"
  let ?s = "s\<lparr>tw_mem := kwrite (tw_mem s) ?b ?bs\<rparr>"
  have w: "unat ?w = length data" using assms(4) by (simp add: unat_of_nat)
  have len: "length ?bs = 16 + ?n" by (simp add: hdr_parse)
  have m: "mapped (tw_vmm s) ?b 16" "0 < ?n \<longrightarrow> mapped (tw_vmm s) (?b + 16) ?n"
    using mapped_part [OF assms(2,1), of 0 16] mapped_part [OF assms(2,1), of 16 ?n] assms(3) by auto
  have n: "(if ?l < 16 + length data then ?l - 16 else length data) = ?n" using assms(3) by auto
  have f: "tx_fill local remote (send_buf_cb data) ?w iov s = Done (Inr (16 + ?n), ?s)"
    unfolding tx_fill_def Let_def w n using m by (auto simp: send_buf_cb_def kwrite_append hdr_parse(4))
  obtain r where r: "r \<in> set (vm_regions (tw_vmm s))" "unat (r_base r) \<le> unat ?b" "unat ?b + ?l \<le> unat (r_base r) + unat (r_size r)"
    using assms(2) by (auto simp: mapped_def)
  then have "unat ?b + ?l \<le> 2 ^ 32" using regions_ok_region [OF assms(1) r(1)] by (simp add: region_ok_def)
  then have top: "unat ?b + (16 + ?n) \<le> 2 ^ 32" "?n \<le> ?l - 16" using assms(3) by auto
  have k: "kread (tw_mem ?s) ?b (16 + ?n) = ?bs" using kread_kwrite_same [of ?bs "tw_mem s" ?b] top(1) unfolding len by simp
  have o: "tw_mem ?s a = tw_mem s a" if a: "a < ?b \<or> unat ?b + ?l \<le> unat a" for a
  proof -
    have "a \<noteq> ?b + word_of_nat i" if i: "i < 16 + ?n" for i
    proof
      assume e: "a = ?b + word_of_nat i"
      have "unat ?b + i < 2 ^ 32" using i top(1) by linarith
      then have "unat a = unat ?b + i" unfolding e by (simp add: unat_word_ariths unat_of_nat)
      then show False using a i top(2) assms(3) by (auto simp: word_less_nat_alt)
    qed
    then have "a \<notin> set (kaddrs ?b (length ?bs))" unfolding kaddrs_nth len by blast
    then show ?thesis by (simp add: kwrite_other)
  qed
  show ?thesis
    by (rule exI [of _ ?s], rule exI [of _ ?n]) (use f k o w in \<open>simp add: hdr_parse\<close>)
qed

theorem tipc_send_roundtrip_witness:
  "\<exists>s'. tx_fill 53 77 (send_buf_cb [1, 2, 3]) 3 \<lparr>iov_base = 0x100000, iov_len = 18\<rparr> demo_world0 = Done (Inr 18, s') \<and>
     tw_mem s' 0x100012 = tw_mem demo_world0 0x100012"
proof -
  have "regions_ok (vm_regions (tw_vmm demo_world0))" "mapped (tw_vmm demo_world0) 0x100000 18"
    using demo_vmm_ok by (simp_all add: demo_world0_def demo_vmm_def mapped_def)
  then show ?thesis using tipc_send_roundtrip [of demo_world0 "\<lparr>iov_base = 0x100000, iov_len = 18\<rparr>" "[1, 2, 3]" 53 77] by fastforce
qed

text \<open>A message in one kernel segment is cut at the size of the receiver's buffers.\<close>

lemma gather_segment:
  assumes "iov_base v = 0 \<longrightarrow> iov_len v = 0"
  shows "fst (msg_gather km um sz (IPC_MSG_BUFFER_KERNEL \<lparr>k_num_iov = 1, k_iov = Some [v], k_num_handles = 0\<rparr>)) =
    take sz (kread km (iov_base v) (unat (iov_len v)))"
  using kern_to_membuf_loop_ok [of "[v]" km sz 0] assms by (simp add: msg_gather_def iov_bytes_def)

lemma dispatch_chan:
  assumes "regions_ok (vm_regions (tw_vmm s))" "mapped (tw_vmm s) (iov_base iov) (unat (iov_len iov))"
    "hdr = kread (tw_mem s) (iov_base iov) 16" "unat (hdr_len hdr) + 16 = unat (iov_len iov)" "hdr_dst hdr \<noteq> TIPC_CTRL_ADDR"
  shows "rx_dispatch iov nv wks s = handle_chan_msg (hdr_src hdr) (hdr_dst hdr) (iov_base iov + 16) (unat (hdr_len hdr)) s"
  using mapped_part [OF assms(2,1), of 0 16] assms(3-5) by (auto simp: rx_dispatch_def Let_def)

text \<open>C24: A message from the non-secure world reaches exactly the endpoint it names: the one with the destination
  as its local and the source as its remote address. The payload, cut at the buffer size of the
  receiver, is appended to what is pending at the other end of the endpoint's channel, and no other queue
  changes; without such an endpoint the message is refused and nothing changes.
\<close>

theorem tipc_message_delivered:
  assumes "world_inv P C s" "mapped (tw_vmm s) (iov_base iov) (unat (iov_len iov))" "hdr = kread (tw_mem s) (iov_base iov) 16"
    "unat (hdr_len hdr) + 16 = unat (iov_len iov)" "hdr_dst hdr \<noteq> TIPC_CTRL_ADDR" "rx_dispatch iov nv wks s = Done (r, s')"
  shows "(case etab (tw_dev s) (hdr_dst hdr) of
      Some (remote, chan) \<Rightarrow>
        if remote = hdr_src hdr
        then \<forall>x d mq n. r = Inr n \<and> chans (tw_k s) chan = Some x \<and> c_peer x = Some d \<and> queue_of (tw_k s) d = Some mq \<longrightarrow>
          (\<exists>mq'. queue_of (tw_k s') d = Some mq' \<and>
             pending mq' = pending mq @ [take (item_sz mq) (kread (tw_mem s) (iov_base iov + 16) (unat (hdr_len hdr)))] \<and>
             (\<forall>e. e \<noteq> d \<longrightarrow> queue_of (tw_k s') e = queue_of (tw_k s) e))
        else r = Inl ERR_NOT_FOUND \<and> s' = s
    | None \<Rightarrow> r = Inl ERR_NOT_FOUND \<and> s' = s)"
proof -
  let ?b = "iov_base iov + 16" and ?n = "unat (hdr_len hdr)"
  let ?v = "\<lparr>iov_base = ?b, iov_len = word_of_nat ?n\<rparr> :: iovec_kern"
  let ?msg = "\<lparr>k_num_iov = 1, k_iov = Some [?v], k_num_handles = 0\<rparr>"
  have e: "handle_chan_msg (hdr_src hdr) (hdr_dst hdr) ?b ?n s = Done (r, s')"
    using dispatch_chan [OF world_invD(2) [OF assms(1)] assms(2-5)] assms(6) by simp
  have n: "unat (word_of_nat ?n :: u32) = ?n" using assms(4) unat32_less [of "iov_len iov"] by (subst unat_of_nat, intro mod_less) simp
  have nz: "?b = 0 \<longrightarrow> ?n = 0"
  proof
    assume z: "?b = 0"
    obtain rg where rg: "rg \<in> set (vm_regions (tw_vmm s))" "unat (iov_base iov) + unat (iov_len iov) \<le> unat (r_base rg) + unat (r_size rg)"
      using assms(2) by (auto simp: mapped_def)
    have "unat (r_base rg) + unat (r_size rg) \<le> 2 ^ 32" using regions_ok_region [OF world_invD(2) [OF assms(1)] rg(1)] by (simp add: region_ok_def)
    moreover have "iov_base iov = - 16" using z by (rule eq_neg_iff_add_eq_0 [THEN iffD2])
    then have "unat (iov_base iov) = 4294967280" by simp
    ultimately show "?n = 0" using rg(2) assms(4) by simp
  qed
  have v: "iov_base ?v = 0 \<longrightarrow> iov_len ?v = 0" using nz by simp
  show ?thesis
  proof (cases "\<exists>t c. lookup_ept (tw_dev s) (hdr_dst hdr) = Some t \<and> ept_remote (epts (tw_dev s) ! t) = hdr_src hdr \<and> ept_chan (epts (tw_dev s) ! t) = Some c")
    case False
    then show ?thesis using e by (auto simp: handle_chan_msg_def etab_def Let_def split: option.splits if_splits)
  next
    case True
    then obtain t c where t: "lookup_ept (tw_dev s) (hdr_dst hdr) = Some t" "ept_remote (epts (tw_dev s) ! t) = hdr_src hdr"
      "ept_chan (epts (tw_dev s) ! t) = Some c" by blast
    have se: "ipc_send_msg (tw_mem s) no_umem (Some c) (Some ?msg) (tw_k s) = (r, tw_k s')"
      using e t by (auto simp: handle_chan_msg_def Let_def split: if_splits prod.splits)
    obtain H where at: "world_at (P + H) C s" by (rule world_invE [OF assms(1)])
    have "\<exists>mq'. queue_of (tw_k s') d = Some mq' \<and> pending mq' = pending mq @ [take (item_sz mq) (kread (tw_mem s) ?b ?n)] \<and>
        (\<forall>e. e \<noteq> d \<longrightarrow> queue_of (tw_k s') e = queue_of (tw_k s) e)"
      if "r = Inr m" "chans (tw_k s) c = Some x" "c_peer x = Some d" "queue_of (tw_k s) d = Some mq" for x d mq m
      using send_appends [OF world_atD(4) [OF at] that(2-4), of "tw_mem s" no_umem "IPC_MSG_BUFFER_KERNEL ?msg" m "tw_k s'"]
        se that(1) gather_segment [OF v] n by (auto simp: ipc_send_msg_def)
    then show ?thesis using t by (simp add: etab_def) blast
  qed
qed

definition demo_k :: kst where
  "demo_k = snd (handle_list_add handle_list_init 2 (handle_set_cookie 2 1 run_accepted))"

lemma demo_world_k: "tw_k demo_world = demo_k"
proof -
  let ?dev = "snd (alloc_local_addr (tw_dev demo_world0) 77 2)"
  have e: "epts (tw_dev demo_world) = epts ?dev" "td_inuse (tw_dev demo_world) = td_inuse ?dev"
    by (simp_all add: demo_world_def conn_req_listed_def upd_dev_def Let_def split_beta)
  have "lookup_ept ?dev 1000 = Some 0" using demo_ept(1) e(2) by (simp add: lookup_ept_def)
  moreover have "td_hlist ?dev = handle_list_init"
    by (simp add: alloc_local_addr_def demo_world0_def new_dev_def create_tipc_device_def kalloc_def init_kst_def Let_def split: option.split)
  ultimately show ?thesis
    by (simp add: demo_world_def conn_req_listed_def upd_dev_def ept_cookie_def demo_k_def demo_world0_def Let_def split_beta)
qed

lemma demo_peer:
  obtains x mq where "chans demo_k 2 = Some x" "c_peer x = Some 3" "queue_of demo_k 3 = Some mq" "pending mq = []" "item_sz mq = 4"
proof -
  have "case chans demo_k 2 of Some x \<Rightarrow> c_peer x = Some 3 | None \<Rightarrow> False"
    "case queue_of demo_k 3 of Some mq \<Rightarrow> pending mq = [] \<and> item_sz mq = 4 | None \<Rightarrow> False" by code_simp+
  then show ?thesis using that by (auto split: option.splits)
qed

lemma demo_hdr: "kread demo_mem 0x100000 16 = [77, 0, 0, 0, 232, 3, 0, 0, 0, 0, 0, 0, 2, 0, 0, 0]" "kread demo_mem 0x100010 2 = [5, 6]"
  by code_simp+

abbreviation demo_iov :: iovec_kern where
  "demo_iov \<equiv> \<lparr>iov_base = 0x100000, iov_len = 18\<rparr>"

lemma demo_dispatch:
  obtains s' where "rx_dispatch demo_iov (demo_view (\<lambda>_ _. demo_desc 2 8)) [] demo_world = Done (Inr 2, s')"
proof -
  let ?msg = "\<lparr>k_num_iov = 1, k_iov = Some [\<lparr>iov_base = 0x100010, iov_len = 2\<rparr>], k_num_handles = 0\<rparr>"
  have m: "mapped demo_vmm 0x100000 18" "mapped demo_vmm 0x100010 2" by (simp_all add: demo_vmm_def mapped_def)
  have "fst (ipc_send_msg demo_mem no_umem (Some 2) (Some ?msg) demo_k) = Inr 2" by code_simp
  then obtain k where k: "ipc_send_msg demo_mem no_umem (Some 2) (Some ?msg) demo_k = (Inr 2, k)" by (metis prod.collapse)
  have "rx_dispatch demo_iov (demo_view (\<lambda>_ _. demo_desc 2 8)) [] demo_world = handle_chan_msg 77 1000 0x100010 2 demo_world"
    using dispatch_chan [OF world_atD(6) [OF demo_world_at], of demo_iov] m(1) demo_hdr(1)
    by (simp add: demo_world_fields hdr_src_def hdr_dst_def hdr_len_def le32_def le16_def TIPC_CTRL_ADDR_def)
  also have "\<dots> = Done (Inr 2, demo_world\<lparr>tw_k := k\<rparr>)"
    using demo_ept k m(2) by (simp add: handle_chan_msg_def demo_world_fields demo_world_k)
  finally show ?thesis using that by blast
qed

theorem tipc_message_delivered_witness:
  "\<exists>s' mq. rx_dispatch demo_iov (demo_view (\<lambda>_ _. demo_desc 2 8)) [] demo_world = Done (Inr 2, s') \<and>
     queue_of (tw_k s') 3 = Some mq \<and> pending mq = [[5, 6]]"
proof -
  have inv: "world_inv {#} {} demo_world" using demo_world_at by (intro world_invI [of _ "{#3, 1#}"]) simp
  obtain s' where s': "rx_dispatch demo_iov (demo_view (\<lambda>_ _. demo_desc 2 8)) [] demo_world = Done (Inr 2, s')" by (rule demo_dispatch)
  obtain x mq where q: "chans demo_k 2 = Some x" "c_peer x = Some 3" "queue_of demo_k 3 = Some mq" "pending mq = []" "item_sz mq = 4"
    by (rule demo_peer)
  have m: "mapped (tw_vmm demo_world) (iov_base demo_iov) (unat (iov_len demo_iov))" by (simp add: demo_world_fields demo_vmm_def mapped_def)
  have h: "hdr_src (kread demo_mem 0x100000 16) = 77" "hdr_dst (kread demo_mem 0x100000 16) = 1000" "hdr_len (kread demo_mem 0x100000 16) = 2"
    unfolding demo_hdr by (simp_all add: hdr_src_def hdr_dst_def hdr_len_def le32_def le16_def)
  have t: "etab (tw_dev demo_world) 1000 = Some (77, 2)" using demo_ept by (simp add: etab_def)
  from tipc_message_delivered [OF inv m refl _ _ s'] show ?thesis
    using s' q h t demo_hdr(2) by (simp add: demo_world_fields demo_world_k TIPC_CTRL_ADDR_def) blast
qed

section \<open>What the device does not survive\<close>

text \<open>C40: The hypothesis on the lengths is needed: a descriptor whose length is within a page of 4 GB makes the
  rounding to pages wrap around to zero. The mapping then succeeds without mapping anything, and the
  receive path reads the header through the null pointer.
\<close>

theorem tipc_huge_length_faults:
  assumes "0xFFFFF000 < unat len" "\<not> mapped (tw_vmm s) 0 16"
  shows "handle_rx_msg (rx_buf0\<lparr>in_iovs := \<lparr>vi_cnt = 1, vi_used = 1, vi_len = len, vi_phys = [pa],
      vi_iovs = [\<lparr>iov_base = b, iov_len = len\<rparr>]\<rparr>\<rparr>) nv wks s = Fault"
proof -
  have "ROUNDUP len PAGE_SIZE = 0" using roundup_zero assms(1) by simp
  moreover have "\<not> unat len < 16" using assms(1) by simp
  ultimately show ?thesis using assms(2)
    by (simp add: handle_rx_msg_def vqueue_map_iovs_def vqueue_map_loop.simps vmm_alloc_physical_def rx_dispatch_def)
qed

theorem tipc_huge_length_faults_witness:
  "handle_rx_msg (rx_buf0\<lparr>in_iovs := \<lparr>vi_cnt = 1, vi_used = 1, vi_len = 0xFFFFFFFF, vi_phys = [0x80001000],
      vi_iovs = [\<lparr>iov_base = 0, iov_len = 0xFFFFFFFF\<rparr>]\<rparr>\<rparr>) (demo_view (\<lambda>_ _. demo_desc 2 8)) [] demo_world = Fault"
proof -
  have "\<not> mapped (tw_vmm demo_world) 0 16" by (simp add: demo_world_fields demo_vmm_def mapped_def)
  then show ?thesis by (intro tipc_huge_length_faults) simp_all
qed

text \<open>A queue that was set up can be torn down without a trace, and one that was not leaves none.\<close>

lemma init_vq_regions:
  assumes "init_vq d i vq vm = (r, vq', vm', freed)" "regions_ok (vm_regions vm)"
  shows "regions_ok (vm_regions vm')" "r = Inl e \<Longrightarrow> vm_regions vm' = vm_regions vm \<and> freed"
    "r = Inr u \<Longrightarrow> vm_regions vm1 = vm_regions vm' \<Longrightarrow> vm_regions (snd (vqueue_destroy vq' vm1)) = vm_regions vm"
proof -
  let ?sz = "ROUNDUP (vring_size (vring_descr d i 2) (vring_descr d i 1)) PAGE_SIZE"
  obtain a vm2 where al: "vmm_alloc_physical ?sz (vring_descr d i 0) vm = (a, vm2)" by force
  have e: "vm' = vm2" "a = Inl x \<Longrightarrow> r = Inl x \<and> freed" "a = Inr va \<Longrightarrow> r = NO_ERROR \<and> vring_addr vq' = va" for x va
    using assms(1) al by (auto simp: init_vq_def vqueue_init_def Let_def split: sum.splits)
  from al assms(2) have "regions_ok (vm_regions vm') \<and> (r = Inl e \<longrightarrow> vm_regions vm' = vm_regions vm \<and> freed) \<and>
    (r = Inr u \<longrightarrow> vm_regions vm1 = vm_regions vm' \<longrightarrow> vm_regions (snd (vqueue_destroy vq' vm1)) = vm_regions vm)"
  proof (cases rule: alloc_cases)
    case zero
    then show ?thesis using e assms(2) free_null [of vm1] by (auto simp: vqueue_destroy_def)
  next
    case (fail x)
    then show ?thesis using e assms(2) by auto
  next
    case (placed va)
    then show ?thesis using e free_own [of "[]" "\<lparr>r_base = va, r_size = ?sz, r_paddr = vring_descr d i 0\<rparr>" "vm_regions vm" vm1]
      by (auto simp: vqueue_destroy_def)
  qed
  then show "regions_ok (vm_regions vm')" "r = Inl e \<Longrightarrow> vm_regions vm' = vm_regions vm \<and> freed"
    "r = Inr u \<Longrightarrow> vm_regions vm1 = vm_regions vm' \<Longrightarrow> vm_regions (snd (vqueue_destroy vq' vm1)) = vm_regions vm" by auto
qed

text \<open>When one of the two rings cannot be mapped, the probe fails with the error, the address space is as
  before, the ring that was mapped first included, and the device stays in reset. But the queue
  that failed, which is a part of the device, has been passed to \<^verbatim>\<open>free\<close>.
\<close>

theorem tipc_probe_failure:
  assumes "td_state (tw_dev s) = VDEV_STATE_RESET" "validate_descr d = NO_ERROR" "regions_ok (vm_regions (tw_vmm s))"
    "init_vq d 0 (vq_tx (tw_dev s)) (tw_vmm s) = (r, tx, vm1, f)"
    "r = Inl e \<or> r = NO_ERROR \<and> fst (init_vq d 1 (vq_rx (tw_dev s)) vm1) = Inl e"
  shows "\<exists>s'. tipc_dev_probe d nv wks s = Done (Inl e, s', True) \<and> vm_regions (tw_vmm s') = vm_regions (tw_vmm s) \<and>
    td_state (tw_dev s') = VDEV_STATE_RESET"
proof (cases r)
  case (Inl e')
  then show ?thesis using assms(1,2,4,5) init_vq_regions(2) [OF assms(4,3) Inl] by (simp add: tipc_dev_probe_def upd_dev_def)
next
  case (Inr u)
  obtain r2 rx vm2 f2 where q: "init_vq d 1 (vq_rx (tw_dev s)) vm1 = (r2, rx, vm2, f2)" by (metis prod_cases4)
  have r2: "r2 = Inl e" using assms(5) Inr q by simp
  note a = init_vq_regions [OF assms(4,3)] and b = init_vq_regions(2) [OF q a(1) r2]
  have "vm_regions (snd (vqueue_destroy tx vm2)) = vm_regions (tw_vmm s)" using a(3) [OF Inr] b by simp
  then show ?thesis using assms(1,2,4) Inr q r2 b by (simp add: tipc_dev_probe_def upd_dev_def split_beta Let_def)
qed

definition demo_descr :: "u8 list" where
  "demo_descr = enc32 3 @ enc32 13 @ replicate 16 0 @ [7, 2, 0, 0] @
     enc32 0x80000000 @ enc32 4096 @ enc32 4 @ enc32 7 @ enc32 0 @ enc32 0x80000000 @ enc32 4096 @ enc32 4 @ enc32 8 @ enc32 0 @ replicate 40 0"

theorem tipc_probe_failure_witness:
  "\<exists>s'. tipc_dev_probe demo_descr (demo_view (\<lambda>_ _. demo_desc 2 8)) []
      (demo_world\<lparr>tw_dev := new_dev, tw_vmm := demo_vmm\<lparr>vm_spots := [0x200000]\<rparr>\<rparr>) = Done (Inl ERR_NO_MEMORY, s', True) \<and>
      vm_regions (tw_vmm s') = vm_regions demo_vmm"
proof -
  let ?s = "demo_world\<lparr>tw_dev := new_dev, tw_vmm := demo_vmm\<lparr>vm_spots := [0x200000]\<rparr>\<rparr>"
  have v: "validate_descr demo_descr = NO_ERROR"
    by (simp add: validate_descr_def descr_type_def descr_id_def descr_num_of_vrings_def descr_status_def demo_descr_def nth_append)
  have d: "vring_descr demo_descr 0 0 = 0x80000000" "vring_descr demo_descr 0 1 = 4096" "vring_descr demo_descr 0 2 = 4"
    "vring_descr demo_descr 1 0 = 0x80000000" "vring_descr demo_descr 1 1 = 4096" "vring_descr demo_descr 1 2 = 4"
    by (simp_all add: vring_descr_def demo_descr_def)
  have st: "td_state new_dev = VDEV_STATE_RESET" by (simp add: new_dev_def create_tipc_device_def kalloc_def init_kst_def)
  obtain tx vm1 where i: "init_vq demo_descr 0 (vq_tx new_dev) (demo_vmm\<lparr>vm_spots := [0x200000]\<rparr>) = (NO_ERROR, tx, vm1, False)" "vm_spots vm1 = []"
    using d by (simp add: init_vq_def vqueue_init_def vring_size_def vmm_alloc_physical_def ROUNDUP_def PAGE_SIZE_def demo_vmm_def free_spot_def)
  have "fst (init_vq demo_descr 1 (vq_rx new_dev) vm1) = Inl ERR_NO_MEMORY"
    using d i(2) by (simp add: init_vq_def vqueue_init_def vring_size_def vmm_alloc_physical_def ROUNDUP_def PAGE_SIZE_def)
  then show ?thesis using tipc_probe_failure [of ?s demo_descr NO_ERROR tx vm1 False ERR_NO_MEMORY] v st i(1) demo_vmm_ok by auto
qed

end
