(* ===== verification/Virtio.thy ===== *)
theory Virtio
  imports Tipc_Ept
begin

text \<open>
  The virtio bus (\<^verbatim>\<open>trusty_virtio.c\<close>): the registered devices, the description of them that the
  non-secure world asks for, and the states between registration and operation. A device is known to
  the bus by its five operations; the contract of these is a locale, which the TIPC device meets.
\<close>

section \<open>The bus\<close>

datatype bus_state =
    VIRTIO_BUS_STATE_UNINITIALIZED | VIRTIO_BUS_STATE_IDLE | VIRTIO_BUS_STATE_ACTIVATING
  | VIRTIO_BUS_STATE_ACTIVE | VIRTIO_BUS_STATE_DEACTIVATING

text \<open>
  \<open>vd_ops\<close> says which of the five operations the device has pointers for, and \<open>vd_dev\<close> is the structure that
  the \<^verbatim>\<open>struct vdev\<close> is embedded in.
\<close>

record 'd vdev =
  vd_devid :: u32
  vd_descr_offset :: u32
  vd_ops :: "bool list option"
  vd_dev :: 'd

record vworld =
  vw_k :: kst
  vw_vmm :: vmm
  vw_mem :: kmem

record 'd vdev_ops =
  op_descr_sz :: "'d vdev \<Rightarrow> u32"
  op_get_descr :: "'d vdev \<Rightarrow> u8 list"
  op_probe :: "'d vdev \<Rightarrow> u8 list \<Rightarrow> vworld \<Rightarrow> ('d \<times> vworld) outcome"
  op_reset :: "'d vdev \<Rightarrow> vworld \<Rightarrow> (unit res \<times> 'd \<times> vworld) outcome"
  op_kick :: "'d vdev \<Rightarrow> u32 \<Rightarrow> unit res \<times> 'd"

record 'd virtio_bus =
  vb_vdev_cnt :: u32
  vb_next_dev_id :: u32
  vb_descr_size :: u32
  vb_state :: bus_state
  vb_vdev_list :: "'d vdev list"

definition virtio_bus0 :: "'d virtio_bus" where
  "virtio_bus0 = \<lparr>vb_vdev_cnt = 0, vb_next_dev_id = 0, vb_descr_size = 0, vb_state = VIRTIO_BUS_STATE_UNINITIALIZED, vb_vdev_list = []\<rparr>"

definition map_descr :: "u64 \<Rightarrow> u32 \<Rightarrow> vmm \<Rightarrow> u32 res \<times> vmm" where
  "map_descr buf_pa sz vm =
     (if buf_pa = 0 then (Inl ERR_INVALID_ARGS, vm)
      else if buf_pa AND 4095 \<noteq> 0 then (Inl ERR_INVALID_ARGS, vm)
      else if drop_bit 32 buf_pa \<noteq> 0 then (Inl ERR_INVALID_ARGS, vm)
      else vmm_alloc_physical (ROUNDUP sz PAGE_SIZE) (ucast buf_pa) vm)"

definition unmap_descr :: "u32 \<Rightarrow> vmm \<Rightarrow> vmm" where
  "unmap_descr va vm = snd (vmm_free_region va vm)"

definition validate_vdev :: "'d vdev option \<Rightarrow> unit res" where
  "validate_vdev vd = (case vd of
     None \<Rightarrow> Inl ERR_INVALID_ARGS
   | Some v \<Rightarrow> (case vd_ops v of
       None \<Rightarrow> Inl ERR_INVALID_ARGS
     | Some ops \<Rightarrow> if False \<in> set ops then Inl ERR_INVALID_ARGS else NO_ERROR))"

definition virtio_register_device :: "'d vdev option \<Rightarrow> 'd virtio_bus \<Rightarrow> unit res \<times> 'd virtio_bus" where
  "virtio_register_device vd vb =
     (if vb_state vb \<noteq> VIRTIO_BUS_STATE_UNINITIALIZED then (Inl ERR_BAD_STATE, vb)
      else case (validate_vdev vd, vd) of
          (Inr _, Some v) \<Rightarrow>
            (NO_ERROR, vb\<lparr>vb_vdev_cnt := vb_vdev_cnt vb + 1, vb_next_dev_id := vb_next_dev_id vb + 1,
                          vb_vdev_list := vb_vdev_list vb @ [v\<lparr>vd_devid := vb_next_dev_id vb\<rparr>]\<rparr>)
        | (ret, _) \<Rightarrow> (ret, vb))"

fun assign_offsets :: "'d vdev_ops \<Rightarrow> u32 \<Rightarrow> 'd vdev list \<Rightarrow> u32 \<times> 'd vdev list" where
  "assign_offsets ops offset [] = (offset, [])"
| "assign_offsets ops offset (v # vs) =
     (let (size', vs') = assign_offsets ops (offset + op_descr_sz ops v) vs
      in (size', v\<lparr>vd_descr_offset := offset\<rparr> # vs'))"

definition finalize_vdev_registery :: "'d vdev_ops \<Rightarrow> 'd virtio_bus \<Rightarrow> 'd virtio_bus" where
  "finalize_vdev_registery ops vb =
     (if vb_state vb = VIRTIO_BUS_STATE_UNINITIALIZED
      then (let (sz, vs) = assign_offsets ops (16 + 4 * vb_vdev_cnt vb) (vb_vdev_list vb)
            in vb\<lparr>vb_vdev_list := vs, vb_descr_size := sz, vb_state := VIRTIO_BUS_STATE_IDLE\<rparr>)
      else vb)"

text \<open>The resource table: version, number of devices, two reserved words, the offsets, and the descriptors.\<close>

fun write_descrs :: "'d vdev_ops \<Rightarrow> u32 \<Rightarrow> nat \<Rightarrow> 'd vdev list \<Rightarrow> kmem \<Rightarrow> kmem" where
  "write_descrs ops va idx [] m = m"
| "write_descrs ops va idx (v # vs) m =
     write_descrs ops va (Suc idx) vs
       (kwrite (kwrite m (va + word_of_nat (16 + 4 * idx)) (enc32 (vd_descr_offset v))) (va + vd_descr_offset v) (op_get_descr ops v))"

definition build_table :: "'d vdev_ops \<Rightarrow> u32 \<Rightarrow> 'd virtio_bus \<Rightarrow> kmem \<Rightarrow> kmem" where
  "build_table ops va vb m =
     (let m1 = kwrite m va (replicate (unat (vb_descr_size vb)) 0);
          m2 = kwrite m1 va (enc32 1);
          m3 = kwrite m2 (va + 4) (enc32 (vb_vdev_cnt vb))
      in write_descrs ops va 0 (vb_vdev_list vb) m3)"

text \<open>The assertions of the loop.\<close>

definition descrs_fit :: "'d vdev_ops \<Rightarrow> 'd virtio_bus \<Rightarrow> bool" where
  "descrs_fit ops vb \<longleftrightarrow> (\<forall>i < length (vb_vdev_list vb).
     vd_descr_offset (vb_vdev_list vb ! i) \<le> vb_descr_size vb \<and>
     vd_descr_offset (vb_vdev_list vb ! i) + op_descr_sz ops (vb_vdev_list vb ! i) \<le> vb_descr_size vb \<and>
     word_of_nat i < vb_vdev_cnt vb)"

definition virtio_get_description ::
    "'d vdev_ops \<Rightarrow> u64 \<Rightarrow> u32 \<Rightarrow> 'd virtio_bus \<Rightarrow> vworld \<Rightarrow> (u32 res \<times> 'd virtio_bus \<times> vworld) outcome" where
  "virtio_get_description ops buf_pa buf_sz vb0 w =
     (let vb = finalize_vdev_registery ops vb0 in
      if buf_sz < vb_descr_size vb then Done (Inl ERR_NOT_ENOUGH_BUFFER, vb, w)
      else case map_descr buf_pa (vb_descr_size vb) (vw_vmm w) of
          (Inl e, vm1) \<Rightarrow> Done (Inl e, vb, w\<lparr>vw_vmm := vm1\<rparr>)
        | (Inr va, vm1) \<Rightarrow>
            if \<not> mapped vm1 va (unat (vb_descr_size vb)) then Fault
            else if \<not> descrs_fit ops vb then Panic
            else Done (Inr (vb_descr_size vb), vb, w\<lparr>vw_vmm := unmap_descr va vm1, vw_mem := build_table ops va vb (vw_mem w)\<rparr>))"

section \<open>Starting and stopping\<close>

fun probe_all :: "'d vdev_ops \<Rightarrow> u8 list \<Rightarrow> 'd vdev list \<Rightarrow> vworld \<Rightarrow> ('d vdev list \<times> vworld) outcome" where
  "probe_all ops descr [] w = Done ([], w)"
| "probe_all ops descr (v # vs) w =
     bind_outcome (op_probe ops v (drop (unat (vd_descr_offset v)) descr) w) (\<lambda>(d, w1).
       bind_outcome (probe_all ops descr vs w1) (\<lambda>(vs1, w2). Done (v\<lparr>vd_dev := d\<rparr> # vs1, w2)))"

definition virtio_start ::
    "'d vdev_ops \<Rightarrow> u64 \<Rightarrow> u32 \<Rightarrow> 'd virtio_bus \<Rightarrow> vworld \<Rightarrow> (unit res \<times> 'd virtio_bus \<times> vworld) outcome" where
  "virtio_start ops ns_descr_pa descr_sz vb w =
     (if vb_state vb \<noteq> VIRTIO_BUS_STATE_IDLE then Done (Inl ERR_BAD_STATE, vb, w)
      else if descr_sz \<noteq> vb_descr_size vb then Done (Inl ERR_INVALID_ARGS, vb, w)
      else
        (let (ok, k1) = kalloc (vw_k w) in
         if \<not> ok then Done (Inl ERR_NO_MEMORY, vb, w\<lparr>vw_k := k1\<rparr>)
         else (case map_descr ns_descr_pa (vb_descr_size vb) (vw_vmm w) of
             (Inl e, vm1) \<Rightarrow> Done (Inl e, vb, w\<lparr>vw_k := k1, vw_vmm := vm1\<rparr>)
           | (Inr va, vm1) \<Rightarrow>
               if \<not> mapped vm1 va (unat descr_sz) then Fault
               else bind_outcome
                 (probe_all ops (kread (vw_mem w) va (unat descr_sz)) (vb_vdev_list vb) (w\<lparr>vw_k := k1, vw_vmm := vm1\<rparr>))
                 (\<lambda>(vs, w1). Done (NO_ERROR, vb\<lparr>vb_vdev_list := vs, vb_state := VIRTIO_BUS_STATE_ACTIVE\<rparr>,
                                   w1\<lparr>vw_vmm := unmap_descr va (vw_vmm w1)\<rparr>)))))"

fun reset_all :: "'d vdev_ops \<Rightarrow> 'd vdev list \<Rightarrow> vworld \<Rightarrow> ('d vdev list \<times> vworld) outcome" where
  "reset_all ops [] w = Done ([], w)"
| "reset_all ops (v # vs) w =
     bind_outcome (op_reset ops v w) (\<lambda>(_, d, w1).
       bind_outcome (reset_all ops vs w1) (\<lambda>(vs1, w2). Done (v\<lparr>vd_dev := d\<rparr> # vs1, w2)))"

definition virtio_stop :: "'d vdev_ops \<Rightarrow> 'd virtio_bus \<Rightarrow> vworld \<Rightarrow> (unit res \<times> 'd virtio_bus \<times> vworld) outcome" where
  "virtio_stop ops vb w =
     (if vb_state vb \<noteq> VIRTIO_BUS_STATE_ACTIVE then Done (Inl ERR_BAD_STATE, vb, w)
      else bind_outcome (reset_all ops (vb_vdev_list vb) w)
             (\<lambda>(vs, w1). Done (NO_ERROR, vb\<lparr>vb_vdev_list := vs, vb_state := VIRTIO_BUS_STATE_IDLE\<rparr>, w1)))"

fun reset_dev :: "'d vdev_ops \<Rightarrow> u32 \<Rightarrow> 'd vdev list \<Rightarrow> vworld \<Rightarrow> (unit res \<times> 'd vdev list \<times> vworld) outcome" where
  "reset_dev ops devid [] w = Done (Inl ERR_NOT_FOUND, [], w)"
| "reset_dev ops devid (v # vs) w =
     (if vd_devid v = devid then bind_outcome (op_reset ops v w) (\<lambda>(r, d, w1). Done (r, v\<lparr>vd_dev := d\<rparr> # vs, w1))
      else bind_outcome (reset_dev ops devid vs w) (\<lambda>(r, vs1, w1). Done (r, v # vs1, w1)))"

definition virtio_device_reset :: "'d vdev_ops \<Rightarrow> u32 \<Rightarrow> 'd virtio_bus \<Rightarrow> vworld \<Rightarrow> (unit res \<times> 'd virtio_bus \<times> vworld) outcome" where
  "virtio_device_reset ops devid vb w =
     (if vb_state vb \<noteq> VIRTIO_BUS_STATE_ACTIVE then Done (Inl ERR_BAD_STATE, vb, w)
      else bind_outcome (reset_dev ops devid (vb_vdev_list vb) w) (\<lambda>(r, vs, w1). Done (r, vb\<lparr>vb_vdev_list := vs\<rparr>, w1)))"

fun kick_dev :: "'d vdev_ops \<Rightarrow> u32 \<Rightarrow> u32 \<Rightarrow> 'd vdev list \<Rightarrow> unit res \<times> 'd vdev list" where
  "kick_dev ops devid vqid [] = (Inl ERR_NOT_FOUND, [])"
| "kick_dev ops devid vqid (v # vs) =
     (if vd_devid v = devid then (let (r, d) = op_kick ops v vqid in (r, v\<lparr>vd_dev := d\<rparr> # vs))
      else (let (r, vs1) = kick_dev ops devid vqid vs in (r, v # vs1)))"

definition virtio_kick_vq :: "'d vdev_ops \<Rightarrow> u32 \<Rightarrow> u32 \<Rightarrow> 'd virtio_bus \<Rightarrow> unit res \<times> 'd virtio_bus" where
  "virtio_kick_vq ops devid vqid vb =
     (if vb_state vb \<noteq> VIRTIO_BUS_STATE_ACTIVE then (Inl ERR_BAD_STATE, vb)
      else (let (r, vs) = kick_dev ops devid vqid (vb_vdev_list vb) in (r, vb\<lparr>vb_vdev_list := vs\<rparr>)))"

section \<open>The TIPC device on the bus\<close>

text \<open>
  The wrappers \<^verbatim>\<open>tipc_vdev_probe\<close>, \<^verbatim>\<open>tipc_vdev_reset\<close> and the others. What the rings show, what happens while the
  device waits and how its threads end depends on the device.
\<close>

record tipc_env =
  te_view :: ns_view
  te_wakes :: "tx_wake list"
  te_rx_join :: "unit res \<times> (tipc_world \<Rightarrow> tipc_world)"
  te_tx_join :: "unit res \<times> (tipc_world \<Rightarrow> tipc_world)"

definition vdev_to_dev :: "tipc_dev vdev \<Rightarrow> tipc_dev" where
  "vdev_to_dev vd = (vd_dev vd)\<lparr>td_devid := vd_devid vd\<rparr>"

definition enter_tipc :: "tipc_dev vdev \<Rightarrow> vworld \<Rightarrow> tipc_world" where
  "enter_tipc vd w = \<lparr>tw_dev = vdev_to_dev vd, tw_k = vw_k w, tw_vmm = vw_vmm w, tw_mem = vw_mem w\<rparr>"

definition leave_tipc :: "tipc_world \<Rightarrow> tipc_dev \<times> vworld" where
  "leave_tipc s = (tw_dev s, \<lparr>vw_k = tw_k s, vw_vmm = tw_vmm s, vw_mem = tw_mem s\<rparr>)"

definition tipc_dev_ops :: "(u32 \<Rightarrow> tipc_env) \<Rightarrow> tipc_dev vdev_ops" where
  "tipc_dev_ops env = \<lparr>
     op_descr_sz = (\<lambda>vd. word_of_nat (tipc_descr_size (vdev_to_dev vd))),
     op_get_descr = (\<lambda>vd. tipc_get_vdev_descr (vdev_to_dev vd)),
     op_probe = (\<lambda>vd d w. bind_outcome (tipc_dev_probe d (te_view (env (vd_devid vd))) (te_wakes (env (vd_devid vd))) (enter_tipc vd w))
                   (\<lambda>(_, s, _). Done (leave_tipc s))),
     op_reset = (\<lambda>vd w. bind_outcome (tipc_dev_reset (te_rx_join (env (vd_devid vd))) (te_tx_join (env (vd_devid vd))) (enter_tipc vd w))
                   (\<lambda>(r, s). Done (r, leave_tipc s))),
     op_kick = (\<lambda>vd vqid. tipc_vdev_kick_vq (vdev_to_dev vd) vqid)\<rparr>"

section \<open>Bytes in memory\<close>

definition seg :: "nat \<Rightarrow> nat \<Rightarrow> 'a list \<Rightarrow> 'a list" where
  "seg o' n L = take n (drop o' L)"

definition patch :: "nat \<Rightarrow> 'a list \<Rightarrow> 'a list \<Rightarrow> 'a list" where
  "patch o' bs L = take o' L @ bs @ drop (o' + length bs) L"

lemma length_patch [simp]: "o' + length bs \<le> length L \<Longrightarrow> length (patch o' bs L) = length L"
  by (simp add: patch_def)

lemma seg_patch_same: "o' + length bs \<le> length L \<Longrightarrow> seg o' (length bs) (patch o' bs L) = bs"
  by (simp add: seg_def patch_def)

lemma nth_patch:
  "o' + length bs \<le> length L \<Longrightarrow> i < length L \<Longrightarrow> patch o' bs L ! i = (if o' \<le> i \<and> i < o' + length bs then bs ! (i - o') else L ! i)"
  by (auto simp: patch_def nth_append)

lemma seg_patch_other:
  assumes "o' + length bs \<le> length L" "a + n \<le> o' \<or> o' + length bs \<le> a"
  shows "seg a n (patch o' bs L) = seg a n L"
proof (rule nth_equalityI)
  show "length (seg a n (patch o' bs L)) = length (seg a n L)" using assms(1) by (simp add: seg_def)
  fix i assume "i < length (seg a n (patch o' bs L))"
  then have i: "i < n" "a + i < length L" using assms(1) by (auto simp: seg_def)
  then show "seg a n (patch o' bs L) ! i = seg a n L ! i"
    using assms by (auto simp: seg_def nth_patch)
qed

lemma seg_drop: "le32 (drop o' L) = le32 (seg o' 4 L)"
  by (simp add: le32_def seg_def)

lemma nth_kread: "i < n \<Longrightarrow> kread m a n ! i = m (a + word_of_nat i)"
proof (induction n arbitrary: a i)
  case (Suc n)
  then show ?case by (cases i) (simp_all add: algebra_simps)
qed simp

lemma length_kread' [simp]: "length (kread m a n) = n"
  by (induction n arbitrary: a) auto

lemma kread_patch:
  assumes "kread m va (length L) = L" "o' + length bs \<le> length L" "length L < 2 ^ 32"
  shows "kread (kwrite m (va + word_of_nat o') bs) va (length L) = patch o' bs L"
proof (rule nth_equalityI)
  show "length (kread (kwrite m (va + word_of_nat o') bs) va (length L)) = length (patch o' bs L)" using assms(2) by simp
  fix i assume "i < length (kread (kwrite m (va + word_of_nat o') bs) va (length L))"
  then have i: "i < length L" by simp
  show "kread (kwrite m (va + word_of_nat o') bs) va (length L) ! i = patch o' bs L ! i"
  proof (cases "o' \<le> i \<and> i < o' + length bs")
    case True
    then have e: "va + word_of_nat i = va + word_of_nat o' + word_of_nat (i - o')" by (simp add: of_nat_diff)
    have same: "kread (kwrite m (va + word_of_nat o') bs) (va + word_of_nat o') (length bs) = bs"
      by (rule kread_kwrite_same) (use assms(2,3) in linarith)
    have n: "kread (kwrite m (va + word_of_nat o') bs) (va + word_of_nat o') (length bs) ! (i - o') =
        kwrite m (va + word_of_nat o') bs (va + word_of_nat o' + word_of_nat (i - o'))"
      by (rule nth_kread) (use True in linarith)
    have "kwrite m (va + word_of_nat o') bs (va + word_of_nat i) = bs ! (i - o')" unfolding e by (rule n [unfolded same, symmetric])
    then show ?thesis using i True assms(2) by (simp add: nth_kread nth_patch)
  next
    case False
    have "va + word_of_nat i \<noteq> va + word_of_nat o' + word_of_nat j" if j: "j < length bs" for j
    proof
      assume "va + word_of_nat i = va + word_of_nat o' + word_of_nat j"
      then have "(word_of_nat i :: u32) = word_of_nat (o' + j)" by (simp add: algebra_simps)
      then have "i mod 2 ^ 32 = (o' + j) mod 2 ^ 32" unfolding word_of_nat_eq_iff by (simp add: take_bit_eq_mod)
      moreover have "i mod 2 ^ 32 = i" by (rule mod_less) (use i assms(3) in linarith)
      moreover have "(o' + j) mod 2 ^ 32 = o' + j" by (rule mod_less) (use j assms(2,3) in linarith)
      ultimately have "i = o' + j" by linarith
      then show False using False j by simp
    qed
    then have "va + word_of_nat i \<notin> set (kaddrs (va + word_of_nat o') (length bs))" unfolding kaddrs_nth by blast
    then have "kwrite m (va + word_of_nat o') bs (va + word_of_nat i) = m (va + word_of_nat i)" by (rule kwrite_other)
    moreover have "m (va + word_of_nat i) = L ! i" using nth_kread [OF i, of m va] assms(1) by simp
    ultimately show ?thesis using i False assms(2) by (auto simp: nth_kread nth_patch)
  qed
qed

lemma kaddrs_inside: "o' + n \<le> N \<Longrightarrow> set (kaddrs (va + word_of_nat o') n) \<subseteq> set (kaddrs va N)"
proof
  fix x assume o: "o' + n \<le> N" and "x \<in> set (kaddrs (va + word_of_nat o') n)"
  then obtain i where "i < n" "x = va + word_of_nat (o' + i)" by (auto simp: kaddrs_nth add.assoc)
  then show "x \<in> set (kaddrs va N)" using o unfolding kaddrs_nth by (intro exI [of _ "o' + i"]) simp
qed

section \<open>The contract of a device\<close>

fun placed :: "'d vdev_ops \<Rightarrow> nat \<Rightarrow> 'd vdev list \<Rightarrow> nat \<Rightarrow> bool" where
  "placed ops o' [] e = (o' = e)"
| "placed ops o' (v # vs) e = (unat (vd_descr_offset v) = o' \<and> placed ops (o' + unat (op_descr_sz ops v)) vs e)"

locale vdev_device =
  fixes ops :: "'d vdev_ops" and good :: "'d \<Rightarrow> bool"
  assumes descr_len: "good (vd_dev v) \<Longrightarrow> length (op_get_descr ops v) = unat (op_descr_sz ops v)"
    and size_offset: "op_descr_sz ops (v\<lparr>vd_descr_offset := x\<rparr>) = op_descr_sz ops v"
    and descr_offset: "op_get_descr ops (v\<lparr>vd_descr_offset := x\<rparr>) = op_get_descr ops v"
begin

lemma placed_le: "placed ops o' vs e \<Longrightarrow> o' \<le> e"
  by (induction vs arbitrary: o') (simp_all, fastforce)

lemma assign_placed:
  assumes "assign_offsets ops off vs = (n, vs')" "unat off + (\<Sum>v\<leftarrow>vs. unat (op_descr_sz ops v)) < 2 ^ 32"
  shows "placed ops (unat off) vs' (unat n) \<and> unat n = unat off + (\<Sum>v\<leftarrow>vs. unat (op_descr_sz ops v)) \<and>
    map (\<lambda>v. v\<lparr>vd_descr_offset := 0\<rparr>) vs' = map (\<lambda>v. v\<lparr>vd_descr_offset := 0\<rparr>) vs"
  using assms
proof (induction vs arbitrary: off n vs')
  case (Cons v vs)
  obtain n1 vs1 where a: "assign_offsets ops (off + op_descr_sz ops v) vs = (n1, vs1)" by force
  have u: "unat (off + op_descr_sz ops v) = unat off + unat (op_descr_sz ops v)"
    using Cons(3) by (simp add: unat_word_ariths)
  show ?case using Cons.IH [OF a] Cons(2,3) a u by (auto simp: size_offset add.assoc)
qed simp

lemma write_descrs_spec:
  assumes "kread m va (length L) = L" "length L < 2 ^ 32" "placed ops o' vs e" "e \<le> length L" "16 + 4 * (idx + length vs) \<le> o'"
    "\<forall>v \<in> set vs. good (vd_dev v)"
  shows "\<exists>L'. kread (write_descrs ops va idx vs m) va (length L) = L' \<and> length L' = length L \<and>
    (\<forall>j < length vs. seg (16 + 4 * (idx + j)) 4 L' = enc32 (vd_descr_offset (vs ! j)) \<and>
       seg (unat (vd_descr_offset (vs ! j))) (unat (op_descr_sz ops (vs ! j))) L' = op_get_descr ops (vs ! j) \<and>
       o' \<le> unat (vd_descr_offset (vs ! j)) \<and> unat (vd_descr_offset (vs ! j)) + unat (op_descr_sz ops (vs ! j)) \<le> e) \<and>
    (\<forall>a n. a + n \<le> 16 + 4 * idx \<or> 16 + 4 * (idx + length vs) \<le> a \<and> a + n \<le> o' \<longrightarrow> seg a n L' = seg a n L) \<and>
    (\<forall>x. x \<notin> set (kaddrs va (length L)) \<longrightarrow> write_descrs ops va idx vs m x = m x)"
  using assms
proof (induction vs arbitrary: idx o' m L)
  case (Cons v vs)
  let ?p = "16 + 4 * idx" and ?d = "op_get_descr ops v" and ?e = "enc32 (vd_descr_offset v)"
  let ?m1 = "kwrite m (va + word_of_nat ?p) ?e"
  let ?m2 = "kwrite ?m1 (va + vd_descr_offset v) ?d"
  let ?L1 = "patch ?p ?e L"
  let ?L2 = "patch o' ?d ?L1"
  have v: "unat (vd_descr_offset v) = o'" "placed ops (o' + unat (op_descr_sz ops v)) vs e" "length ?d = unat (op_descr_sz ops v)"
    using Cons(4,7) descr_len by auto
  have b: "o' + length ?d \<le> e" "e \<le> length L" "16 + 4 * (Suc idx + length vs) \<le> o'" using placed_le [OF v(2)] v(3) Cons(5,6) by simp_all
  have p: "?p + length ?e \<le> length L" using b by simp
  have l1: "length ?L1 = length L" using p by simp
  have o: "va + vd_descr_offset v = va + word_of_nat o'" unfolding v(1) [symmetric] by simp
  have k1: "kread ?m1 va (length ?L1) = ?L1" using kread_patch [OF Cons(2) p Cons(3)] l1 by simp
  have d: "o' + length ?d \<le> length ?L1" using b l1 by simp
  have l2: "length ?L2 = length L" using d l1 by simp
  have k2: "kread ?m2 va (length ?L2) = ?L2" using kread_patch [OF k1 d] Cons(3) l1 l2 unfolding o by simp
  have x: "?m2 y = m y" if y: "y \<notin> set (kaddrs va (length L))" for y
  proof -
    have "y \<notin> set (kaddrs (va + word_of_nat ?p) (length ?e))" "y \<notin> set (kaddrs (va + word_of_nat o') (length ?d))"
      using y kaddrs_inside [of ?p "length ?e" "length L" va] kaddrs_inside [of o' "length ?d" "length L" va] p b by auto
    then show ?thesis unfolding o by (simp add: kwrite_other)
  qed
  have pe: "e \<le> length ?L2" "16 + 4 * (Suc idx + length vs) \<le> o' + unat (op_descr_sz ops v)" "\<forall>v \<in> set vs. good (vd_dev v)" "length ?L2 < 2 ^ 32"
    using b l2 Cons(3,7) by simp_all
  obtain L' where L': "kread (write_descrs ops va (Suc idx) vs ?m2) va (length L) = L'" "length L' = length L"
    "\<And>j. j < length vs \<Longrightarrow> seg (16 + 4 * (Suc idx + j)) 4 L' = enc32 (vd_descr_offset (vs ! j)) \<and>
       seg (unat (vd_descr_offset (vs ! j))) (unat (op_descr_sz ops (vs ! j))) L' = op_get_descr ops (vs ! j) \<and>
       o' + unat (op_descr_sz ops v) \<le> unat (vd_descr_offset (vs ! j)) \<and> unat (vd_descr_offset (vs ! j)) + unat (op_descr_sz ops (vs ! j)) \<le> e"
    "\<And>a n. a + n \<le> 16 + 4 * Suc idx \<or> 16 + 4 * (Suc idx + length vs) \<le> a \<and> a + n \<le> o' + unat (op_descr_sz ops v) \<Longrightarrow> seg a n L' = seg a n ?L2"
    "\<And>x. x \<notin> set (kaddrs va (length L)) \<Longrightarrow> write_descrs ops va (Suc idx) vs ?m2 x = ?m2 x"
    using Cons.IH [OF k2 pe(4) v(2) pe(1,2,3)] unfolding l2 by metis
  have s1: "seg ?p 4 L' = ?e"
    using L'(4) [of ?p 4] seg_patch_other [OF d, of ?p 4] seg_patch_same [OF p] b l1 by simp
  have s2: "seg o' (unat (op_descr_sz ops v)) L' = ?d"
    using L'(4) [of o' "unat (op_descr_sz ops v)"] seg_patch_same [OF d] b v(3) by simp
  have s3: "seg a n L' = seg a n L" if "a + n \<le> ?p \<or> 16 + 4 * (idx + length (v # vs)) \<le> a \<and> a + n \<le> o'" for a n
    using L'(4) [of a n] seg_patch_other [OF d, of a n] seg_patch_other [OF p, of a n] that b l1 by auto
  show ?case
  proof (rule exI [of _ L'], intro conjI allI impI)
    fix j assume j: "j < length (v # vs)"
    show "seg (16 + 4 * (idx + j)) 4 L' = enc32 (vd_descr_offset ((v # vs) ! j))"
      using j s1 L'(3) [of "j - 1"] by (cases j) simp_all
    show "seg (unat (vd_descr_offset ((v # vs) ! j))) (unat (op_descr_sz ops ((v # vs) ! j))) L' = op_get_descr ops ((v # vs) ! j)"
      using j s2 v(1) L'(3) [of "j - 1"] by (cases j) simp_all
    show "o' \<le> unat (vd_descr_offset ((v # vs) ! j))" using j v(1) L'(3) [of "j - 1"] by (cases j) auto
    show "unat (vd_descr_offset ((v # vs) ! j)) + unat (op_descr_sz ops ((v # vs) ! j)) \<le> e"
      using j v(1,3) b(1) L'(3) [of "j - 1"] by (cases j) auto
  qed (use L'(1,2,5) s3 x in simp_all)
qed (auto simp: seg_def)

lemma build_table_spec:
  assumes "placed ops (16 + 4 * length (vb_vdev_list vb)) (vb_vdev_list vb) (unat (vb_descr_size vb))"
    "\<forall>v \<in> set (vb_vdev_list vb). good (vd_dev v)"
  shows "\<exists>L. kread (build_table ops va vb m) va (unat (vb_descr_size vb)) = L \<and> length L = unat (vb_descr_size vb) \<and>
    le32 L = 1 \<and> le32 (drop 4 L) = vb_vdev_cnt vb \<and>
    (\<forall>j < length (vb_vdev_list vb). le32 (drop (16 + 4 * j) L) = vd_descr_offset (vb_vdev_list vb ! j) \<and>
       seg (unat (vd_descr_offset (vb_vdev_list vb ! j))) (unat (op_descr_sz ops (vb_vdev_list vb ! j))) L = op_get_descr ops (vb_vdev_list vb ! j) \<and>
       unat (vd_descr_offset (vb_vdev_list vb ! j)) + unat (op_descr_sz ops (vb_vdev_list vb ! j)) \<le> unat (vb_descr_size vb)) \<and>
    (\<forall>x. x \<notin> set (kaddrs va (unat (vb_descr_size vb))) \<longrightarrow> build_table ops va vb m x = m x)"
proof -
  let ?n = "unat (vb_descr_size vb)" and ?vs = "vb_vdev_list vb"
  let ?L1 = "replicate ?n 0 :: u8 list"
  let ?L2 = "patch 0 (enc32 1) ?L1"
  let ?L3 = "patch 4 (enc32 (vb_vdev_cnt vb)) ?L2"
  let ?m1 = "kwrite m va ?L1"
  let ?m2 = "kwrite ?m1 va (enc32 1)"
  let ?m3 = "kwrite ?m2 (va + 4) (enc32 (vb_vdev_cnt vb))"
  have n: "16 \<le> ?n" "?n < 2 ^ 32" using placed_le [OF assms(1)] unat32_less [of "vb_descr_size vb"] by simp_all
  have k1: "kread ?m1 va (length ?L1) = ?L1" by (rule kread_kwrite_same) (use n in simp)
  have k2: "kread ?m2 va (length ?L2) = ?L2" using kread_patch [OF k1, of 0 "enc32 1"] n by simp
  have k3: "kread ?m3 va (length ?L3) = ?L3" using kread_patch [OF k2, of 4 "enc32 (vb_vdev_cnt vb)"] n by simp
  have l3: "length ?L3 = ?n" using n by simp
  note w = write_descrs_spec [OF k3 _ assms(1) _ _ assms(2), of 0]
  obtain L where L: "kread (write_descrs ops va 0 ?vs ?m3) va ?n = L" "length L = ?n"
    "\<And>j. j < length ?vs \<Longrightarrow> seg (16 + 4 * j) 4 L = enc32 (vd_descr_offset (?vs ! j)) \<and>
       seg (unat (vd_descr_offset (?vs ! j))) (unat (op_descr_sz ops (?vs ! j))) L = op_get_descr ops (?vs ! j) \<and>
       unat (vd_descr_offset (?vs ! j)) + unat (op_descr_sz ops (?vs ! j)) \<le> ?n"
    "\<And>a n. a + n \<le> 16 \<Longrightarrow> seg a n L = seg a n ?L3" "\<And>x. x \<notin> set (kaddrs va ?n) \<Longrightarrow> write_descrs ops va 0 ?vs ?m3 x = ?m3 x"
    using w n unfolding l3 by auto
  have s: "seg 0 4 ?L3 = enc32 1" "seg 4 4 ?L3 = enc32 (vb_vdev_cnt vb)"
    using seg_patch_other [of 4 "enc32 (vb_vdev_cnt vb)" ?L2 0 4] seg_patch_same [of 0 "enc32 1" ?L1] seg_patch_same [of 4 "enc32 (vb_vdev_cnt vb)" ?L2] n
    by simp_all
  have h: "le32 L = 1" "le32 (drop 4 L) = vb_vdev_cnt vb"
    using seg_drop [of 0 L] seg_drop [of 4 L] L(4) [of 0 4] L(4) [of 4 4] s le32_enc32 [of _ "[]"] by simp_all
  have d: "le32 (drop (16 + 4 * j) L) = vd_descr_offset (?vs ! j)" if "j < length ?vs" for j
    using seg_drop [of "16 + 4 * j" L] L(3) [OF that] le32_enc32 [of _ "[]"] by simp
  have x: "?m3 y = m y" if y: "y \<notin> set (kaddrs va ?n)" for y
  proof -
    have "y \<notin> set (kaddrs va (length ?L1))" "y \<notin> set (kaddrs va (length (enc32 1)))" "y \<notin> set (kaddrs (va + 4) (length (enc32 (vb_vdev_cnt vb))))"
      using y kaddrs_inside [of 0 4 ?n va] kaddrs_inside [of 4 4 ?n va] n by auto
    then show ?thesis by (simp add: kwrite_other del: length_enc32 length_replicate)
  qed
  show ?thesis by (rule exI [of _ L]) (use L h d x in \<open>simp add: build_table_def\<close>)
qed

end

text \<open>The descriptor of a TIPC device is its template with the number of the device written in.\<close>

interpretation tipc_vdev: vdev_device "tipc_dev_ops env" "\<lambda>d. 12 \<le> length (td_descr d) \<and> length (td_descr d) < 2 ^ 32" for env
  by unfold_locales (simp_all add: tipc_dev_ops_def tipc_get_vdev_descr_def tipc_descr_size_def vdev_to_dev_def unat_of_nat)

section \<open>The states of the bus\<close>

inductive bus_step :: "'d vdev_ops \<Rightarrow> 'd virtio_bus \<Rightarrow> 'd virtio_bus \<Rightarrow> bool" for ops where
  register: "virtio_register_device vd vb = (r, vb') \<Longrightarrow> bus_step ops vb vb'"
| describe: "virtio_get_description ops pa sz vb w = Done (n, vb', w') \<Longrightarrow> bus_step ops vb vb'"
| start: "virtio_start ops pa sz vb w = Done (r, vb', w') \<Longrightarrow> bus_step ops vb vb'"
| stop: "virtio_stop ops vb w = Done (r, vb', w') \<Longrightarrow> bus_step ops vb vb'"
| reset: "virtio_device_reset ops devid vb w = Done (r, vb', w') \<Longrightarrow> bus_step ops vb vb'"
| kick: "virtio_kick_vq ops devid vqid vb = (r, vb') \<Longrightarrow> bus_step ops vb vb'"

inductive bus_reach :: "'d vdev_ops \<Rightarrow> 'd virtio_bus \<Rightarrow> bool" for ops where
  bus_start: "bus_reach ops virtio_bus0"
| bus_next: "bus_reach ops vb \<Longrightarrow> bus_step ops vb vb' \<Longrightarrow> bus_reach ops vb'"

text \<open>What the non-secure world was told about the devices.\<close>

definition bus_table :: "'d virtio_bus \<Rightarrow> u32 \<times> u32 \<times> (u32 \<times> u32) list" where
  "bus_table vb = (vb_descr_size vb, vb_vdev_cnt vb, map (\<lambda>v. (vd_devid v, vd_descr_offset v)) (vb_vdev_list vb))"

definition bus_inv :: "'d virtio_bus \<Rightarrow> bool" where
  "bus_inv vb \<longleftrightarrow> vb_state vb \<in> {VIRTIO_BUS_STATE_UNINITIALIZED, VIRTIO_BUS_STATE_IDLE, VIRTIO_BUS_STATE_ACTIVE} \<and>
     vb_vdev_cnt vb = word_of_nat (length (vb_vdev_list vb)) \<and> vb_next_dev_id vb = vb_vdev_cnt vb \<and>
     map vd_devid (vb_vdev_list vb) = map word_of_nat [0..<length (vb_vdev_list vb)]"

abbreviation ids :: "'d vdev list \<Rightarrow> (u32 \<times> u32) list" where
  "ids vs \<equiv> map (\<lambda>v. (vd_devid v, vd_descr_offset v)) vs"

lemma probe_ids: "probe_all ops descr vs w = Done (vs', w') \<Longrightarrow> ids vs' = ids vs"
proof (induction vs arbitrary: w vs' w')
  case (Cons v vs)
  then show ?case by (cases "op_probe ops v (drop (unat (vd_descr_offset v)) descr) w")
    (auto simp: split_beta elim!: bind_outcome.elims)
qed simp

lemma reset_ids: "reset_all ops vs w = Done (vs', w') \<Longrightarrow> ids vs' = ids vs"
proof (induction vs arbitrary: w vs' w')
  case (Cons v vs)
  then show ?case by (cases "op_reset ops v w") (auto simp: split_beta elim!: bind_outcome.elims)
qed simp

lemma reset_dev_ids: "reset_dev ops devid vs w = Done (r, vs', w') \<Longrightarrow> ids vs' = ids vs"
proof (induction vs arbitrary: w vs' w')
  case (Cons v vs)
  then show ?case by (cases "op_reset ops v w") (auto simp: split_beta split: if_splits elim!: bind_outcome.elims)
qed simp

lemma kick_dev_ids: "kick_dev ops devid vqid vs = (r, vs') \<Longrightarrow> ids vs' = ids vs"
  by (induction vs arbitrary: vs') (auto simp: split_beta Let_def split: if_splits)

lemma assign_ids: "map vd_devid (snd (assign_offsets ops off vs)) = map vd_devid vs"
  by (induction vs arbitrary: off) (simp_all add: split_beta Let_def)

lemma assign_length [simp]: "length (snd (assign_offsets ops off vs)) = length vs"
  using arg_cong [OF assign_ids, of length] by simp

lemma ids_devid: "ids vs = ids vs' \<Longrightarrow> map vd_devid vs = map vd_devid vs' \<and> length vs = length vs'"
proof
  assume i: "ids vs = ids vs'"
  have "map fst (ids vs) = map fst (ids vs')" by (simp only: i)
  then show "map vd_devid vs = map vd_devid vs'" by (simp add: comp_def)
  show "length vs = length vs'" using arg_cong [OF i, of length] by simp
qed

text \<open>The operations change a bus in four ways only: registration, finalisation, a new state, new states of devices.\<close>

definition bus_change :: "'d vdev_ops \<Rightarrow> 'd virtio_bus \<Rightarrow> 'd virtio_bus \<Rightarrow> bool" where
  "bus_change ops vb vb' \<longleftrightarrow>
     (\<exists>v. vb_state vb = VIRTIO_BUS_STATE_UNINITIALIZED \<and> virtio_register_device (Some v) vb = (NO_ERROR, vb')) \<or>
     vb' = finalize_vdev_registery ops vb \<or>
     (vb_state vb' = vb_state vb \<or>
        vb_state vb \<noteq> VIRTIO_BUS_STATE_UNINITIALIZED \<and> vb_state vb' \<in> {VIRTIO_BUS_STATE_IDLE, VIRTIO_BUS_STATE_ACTIVE}) \<and>
     bus_table vb' = bus_table vb \<and> vb_next_dev_id vb' = vb_next_dev_id vb"

lemma bus_change_same: "bus_change ops vb vb"
  by (simp add: bus_change_def)

lemma bus_change_devs:
  "ids vs = ids (vb_vdev_list vb) \<Longrightarrow> bus_change ops vb (vb\<lparr>vb_vdev_list := vs\<rparr>)"
  "ids vs = ids (vb_vdev_list vb) \<Longrightarrow> vb_state vb \<noteq> VIRTIO_BUS_STATE_UNINITIALIZED \<Longrightarrow>
   st = VIRTIO_BUS_STATE_IDLE \<or> st = VIRTIO_BUS_STATE_ACTIVE \<Longrightarrow> bus_change ops vb (vb\<lparr>vb_vdev_list := vs, vb_state := st\<rparr>)"
  by (simp_all add: bus_change_def bus_table_def)

lemma bus_step_change: "bus_step ops vb vb' \<Longrightarrow> bus_change ops vb vb'"
proof (induction rule: bus_step.induct)
  case (register vd vb r vb')
  show ?case
  proof (cases "vb_state vb \<noteq> VIRTIO_BUS_STATE_UNINITIALIZED \<or> vd = None \<or> validate_vdev vd \<noteq> NO_ERROR")
    case True
    then have "vb' = vb" using register by (auto simp: virtio_register_device_def validate_vdev_def split: if_splits option.splits)
    then show ?thesis by (simp add: bus_change_same)
  next
    case False
    then have "r = NO_ERROR" using register by (auto simp: virtio_register_device_def)
    then show ?thesis using False register by (auto simp: bus_change_def)
  qed
next
  case (describe pa sz vb w n vb' w')
  then have "vb' = finalize_vdev_registery ops vb"
    by (auto simp: virtio_get_description_def Let_def split: if_splits prod.splits sum.splits)
  then show ?case by (simp add: bus_change_def)
next
  case (start pa sz vb w r vb' w')
  then show ?case
    by (auto simp: virtio_start_def Let_def bus_change_same split: if_splits prod.splits sum.splits elim!: bind_outcome.elims
        intro!: bus_change_devs(2) dest: probe_ids)
next
  case (stop vb w r vb' w')
  then show ?case
    by (auto simp: virtio_stop_def bus_change_same split: if_splits elim!: bind_outcome.elims intro!: bus_change_devs(2) dest: reset_ids)
next
  case (reset devid vb w r vb' w')
  then show ?case
    by (auto simp: virtio_device_reset_def bus_change_same split: if_splits elim!: bind_outcome.elims intro!: bus_change_devs(1) dest: reset_dev_ids)
next
  case (kick devid vqid vb r vb')
  then show ?case
    by (auto simp: virtio_kick_vq_def bus_change_same Let_def split: if_splits prod.splits intro!: bus_change_devs(1) dest: kick_dev_ids)
qed

lemma bus_change_inv: "bus_change ops vb vb' \<Longrightarrow> bus_inv vb \<Longrightarrow> bus_inv vb'"
  unfolding bus_change_def
proof (elim disjE exE conjE)
  fix v assume "virtio_register_device (Some v) vb = (NO_ERROR, vb')" "vb_state vb = VIRTIO_BUS_STATE_UNINITIALIZED" "bus_inv vb"
  then show "bus_inv vb'" by (auto simp: virtio_register_device_def bus_inv_def split: if_splits sum.splits)
next
  assume "vb' = finalize_vdev_registery ops vb" "bus_inv vb"
  then show "bus_inv vb'"
    by (auto simp: finalize_vdev_registery_def bus_inv_def split_beta Let_def assign_ids)
qed (use ids_devid [of "vb_vdev_list vb'" "vb_vdev_list vb"] in \<open>auto simp: bus_table_def bus_inv_def\<close>)

lemma bus_reach_inv: "bus_reach ops vb \<Longrightarrow> bus_inv vb"
proof (induction rule: bus_reach.induct)
  case bus_start
  show ?case by (simp add: bus_inv_def virtio_bus0_def)
next
  case (bus_next vb vb')
  then show ?case by (blast intro: bus_change_inv bus_step_change)
qed

lemma map_descr_cases:
  assumes "map_descr pa sz vm = (r, vm')" "regions_ok (vm_regions vm)" "0 < unat sz" "unat sz + 4095 < 2 ^ 32"
  obtains (fail) e where "r = Inl e" "vm_regions vm' = vm_regions vm"
  | (ok) va where "r = Inr va" "mapped vm' va (unat sz)" "vm_regions (unmap_descr va vm') = vm_regions vm"
proof (cases "\<exists>e. r = Inl e \<and> vm' = vm")
  case True
  then show ?thesis using fail by blast
next
  case False
  then have al: "vmm_alloc_physical (ROUNDUP sz PAGE_SIZE) (ucast pa) vm = (r, vm')"
    using assms(1) by (auto simp: map_descr_def split: if_splits)
  from al assms(2) show ?thesis
  proof (cases rule: alloc_cases)
    case zero
    then show ?thesis using roundup_ge [OF assms(4)] assms(3) by simp
  next
    case (fail e)
    then show ?thesis by (rule that(1))
  next
    case (placed va)
    then show ?thesis using that(2) [of va] roundup_ge [OF assms(4)] free_own [of "[]" "\<lparr>r_base = va, r_size = ROUNDUP sz PAGE_SIZE, r_paddr = ucast pa\<rparr>" "vm_regions vm" vm']
      by (simp add: mapped_def unmap_descr_def)
  qed
qed

section \<open>What the non-secure world reads\<close>

text \<open>
  \<open>L\<close> is a resource table for devices with the descriptors \<open>ts\<close>: a reader who knows the format finds
  each descriptor through its offset, with the number of the device in it.
\<close>

definition resource_table :: "u8 list list \<Rightarrow> u8 list \<Rightarrow> bool" where
  "resource_table ts L \<longleftrightarrow> le32 L = 1 \<and> le32 (drop 4 L) = word_of_nat (length ts) \<and>
     (\<forall>i < length ts. unat (le32 (drop (16 + 4 * i) L)) + length (ts ! i) \<le> length L \<and>
        seg (unat (le32 (drop (16 + 4 * i) L))) (length (ts ! i)) L = take 8 (ts ! i) @ enc32 (word_of_nat i) @ drop 12 (ts ! i))"

abbreviation templates :: "tipc_dev virtio_bus \<Rightarrow> u8 list list" where
  "templates vb \<equiv> map (\<lambda>v. td_descr (vd_dev v)) (vb_vdev_list vb)"

lemma finalize_placed:
  assumes "bus_inv vb" "vb_state vb = VIRTIO_BUS_STATE_UNINITIALIZED" "\<forall>t \<in> set (templates vb). 12 \<le> length t"
    "16 + 4 * length (templates vb) + sum_list (map length (templates vb)) < 2 ^ 32"
  shows "placed (tipc_dev_ops env) (16 + 4 * length (vb_vdev_list vb)) (vb_vdev_list (finalize_vdev_registery (tipc_dev_ops env) vb))
      (unat (vb_descr_size (finalize_vdev_registery (tipc_dev_ops env) vb)))"
    and "unat (vb_descr_size (finalize_vdev_registery (tipc_dev_ops env) vb)) = 16 + 4 * length (templates vb) + sum_list (map length (templates vb))"
    and "templates (finalize_vdev_registery (tipc_dev_ops env) vb) = templates vb"
    and "bus_inv (finalize_vdev_registery (tipc_dev_ops env) vb)"
proof -
  let ?vs = "vb_vdev_list vb" and ?o = "16 + 4 * vb_vdev_cnt vb :: u32" and ?ops = "tipc_dev_ops env"
  obtain n vs where a: "assign_offsets ?ops ?o ?vs = (n, vs)" by force
  have small: "length t < 2 ^ 32" if "t \<in> set (templates vb)" for t
    using member_le_sum_list [of "length t" "map length (templates vb)"] that assms(4) by fastforce
  have "map (\<lambda>v. unat (op_descr_sz ?ops v)) ?vs = map length (templates vb)"
    using small by (auto simp: tipc_dev_ops_def tipc_descr_size_def vdev_to_dev_def unat_of_nat)
  then have sum: "(\<Sum>v\<leftarrow>?vs. unat (op_descr_sz ?ops v)) = sum_list (map length (templates vb))" by metis
  have c: "?o = word_of_nat (16 + 4 * length ?vs)" using assms(1) by (simp add: bus_inv_def)
  have o: "unat ?o = 16 + 4 * length ?vs" unfolding c by (subst unat_of_nat, intro mod_less) (use assms(4) in simp)
  have p: "placed ?ops (unat ?o) vs (unat n) \<and> unat n = unat ?o + (\<Sum>v\<leftarrow>?vs. unat (op_descr_sz ?ops v)) \<and>
      map (\<lambda>v. v\<lparr>vd_descr_offset := 0\<rparr>) vs = map (\<lambda>v. v\<lparr>vd_descr_offset := 0\<rparr>) ?vs"
    by (rule tipc_vdev.assign_placed [OF a]) (use assms(4) sum o in simp)
  have f: "finalize_vdev_registery ?ops vb = vb\<lparr>vb_vdev_list := vs, vb_descr_size := n, vb_state := VIRTIO_BUS_STATE_IDLE\<rparr>"
    using assms(2) a by (simp add: finalize_vdev_registery_def)
  show "placed ?ops (16 + 4 * length ?vs) (vb_vdev_list (finalize_vdev_registery ?ops vb)) (unat (vb_descr_size (finalize_vdev_registery ?ops vb)))"
    unfolding f using conjunct1 [OF p] o by simp
  show "unat (vb_descr_size (finalize_vdev_registery ?ops vb)) = 16 + 4 * length (templates vb) + sum_list (map length (templates vb))"
    using p o f sum by simp
  have "map (\<lambda>v. td_descr (vd_dev v)) (map (\<lambda>v. v\<lparr>vd_descr_offset := 0\<rparr>) vs) = map (\<lambda>v. td_descr (vd_dev v)) (map (\<lambda>v. v\<lparr>vd_descr_offset := 0\<rparr>) ?vs)"
    using p by simp
  then show "templates (finalize_vdev_registery ?ops vb) = templates vb" using f by (simp add: comp_def)
  show "bus_inv (finalize_vdev_registery ?ops vb)"
    by (rule bus_change_inv [OF _ assms(1), of ?ops]) (simp add: bus_change_def)
qed

lemma table_fits:
  assumes "bus_inv vb" "placed (tipc_dev_ops env) (16 + 4 * length (vb_vdev_list vb)) (vb_vdev_list vb) (unat (vb_descr_size vb))"
    "\<forall>t \<in> set (templates vb). 12 \<le> length t \<and> length t < 2 ^ 32"
  shows "descrs_fit (tipc_dev_ops env) vb"
proof -
  let ?vs = "vb_vdev_list vb" and ?ops = "tipc_dev_ops env"
  have g: "\<forall>v \<in> set ?vs. 12 \<le> length (td_descr (vd_dev v)) \<and> length (td_descr (vd_dev v)) < 2 ^ 32" using assms(3) by simp
  have l: "length ?vs < 2 ^ 32" using tipc_vdev.placed_le [OF assms(2)] unat32_less [of "vb_descr_size vb"] by simp
  show ?thesis unfolding descrs_fit_def
  proof (intro allI impI)
    fix i assume i: "i < length ?vs"
    have b: "unat (vd_descr_offset (?vs ! i)) + unat (op_descr_sz ?ops (?vs ! i)) \<le> unat (vb_descr_size vb)"
      using tipc_vdev.build_table_spec [OF assms(2) g, of 0 "\<lambda>_. 0"] i by blast
    then have "unat (vd_descr_offset (?vs ! i) + op_descr_sz ?ops (?vs ! i)) = unat (vd_descr_offset (?vs ! i)) + unat (op_descr_sz ?ops (?vs ! i))"
      using unat32_less [of "vb_descr_size vb"] by (simp add: unat_word_ariths)
    moreover have "(word_of_nat i :: u32) < word_of_nat (length ?vs)"
      unfolding word_less_nat_alt using i l by (simp add: unat_of_nat)
    ultimately show "vd_descr_offset (?vs ! i) \<le> vb_descr_size vb \<and>
        vd_descr_offset (?vs ! i) + op_descr_sz ?ops (?vs ! i) \<le> vb_descr_size vb \<and> word_of_nat i < vb_vdev_cnt vb"
      using b assms(1) by (simp add: word_le_nat_alt bus_inv_def)
  qed
qed

lemma table_built:
  assumes "bus_inv vb" "placed (tipc_dev_ops env) (16 + 4 * length (vb_vdev_list vb)) (vb_vdev_list vb) (unat (vb_descr_size vb))"
    "\<forall>t \<in> set (templates vb). 12 \<le> length t \<and> length t < 2 ^ 32"
  shows "resource_table (templates vb) (kread (build_table (tipc_dev_ops env) va vb m) va (unat (vb_descr_size vb)))"
    and "x \<notin> set (kaddrs va (unat (vb_descr_size vb))) \<Longrightarrow> build_table (tipc_dev_ops env) va vb m x = m x"
proof -
  let ?vs = "vb_vdev_list vb" and ?ops = "tipc_dev_ops env"
  have g: "\<forall>v \<in> set ?vs. 12 \<le> length (td_descr (vd_dev v)) \<and> length (td_descr (vd_dev v)) < 2 ^ 32" using assms(3) by simp
  have d: "vd_devid (?vs ! j) = word_of_nat j" if "j < length ?vs" for j
    using assms(1) that nth_map [of j ?vs vd_devid] by (simp add: bus_inv_def)
  have s: "unat (op_descr_sz ?ops (?vs ! j)) = length (td_descr (vd_dev (?vs ! j)))"
    "op_get_descr ?ops (?vs ! j) = take 8 (td_descr (vd_dev (?vs ! j))) @ enc32 (word_of_nat j) @ drop 12 (td_descr (vd_dev (?vs ! j)))"
    if "j < length ?vs" for j
    using g that d [OF that] by (simp_all add: tipc_dev_ops_def tipc_descr_size_def tipc_get_vdev_descr_def vdev_to_dev_def unat_of_nat)
  note b = tipc_vdev.build_table_spec [OF assms(2) g, of va m]
  show "resource_table (templates vb) (kread (build_table ?ops va vb m) va (unat (vb_descr_size vb)))"
    using b assms(1) s by (auto simp: resource_table_def bus_inv_def)
  show "build_table ?ops va vb m x = m x" if "x \<notin> set (kaddrs va (unat (vb_descr_size vb)))" using b that by blast
qed

section \<open>Properties\<close>

text \<open>C30: The first request for the description of the bus ends, touches nothing unmapped, fails no assertion and leaves the address
  space as it was; it either fails and writes nothing, or writes, and nowhere else, a resource table
  in which the non-secure world finds the descriptor of every registered TIPC device, with its number.
\<close>

theorem virtio_description_layout:
  assumes "bus_reach (tipc_dev_ops env) vb" "vb_state vb = VIRTIO_BUS_STATE_UNINITIALIZED" "\<forall>t \<in> set (templates vb). 12 \<le> length t"
    "16 + 4 * length (templates vb) + sum_list (map length (templates vb)) \<le> 4294963200" "regions_ok (vm_regions (vw_vmm w))"
  shows "\<exists>r vb' w'. virtio_get_description (tipc_dev_ops env) pa sz vb w = Done (r, vb', w') \<and>
    vm_regions (vw_vmm w') = vm_regions (vw_vmm w) \<and> vw_k w' = vw_k w \<and>
    (case r of Inl e \<Rightarrow> vw_mem w' = vw_mem w
     | Inr n \<Rightarrow> unat n = 16 + 4 * length (templates vb) + sum_list (map length (templates vb)) \<and> n \<le> sz \<and>
         (\<exists>va. resource_table (templates vb) (kread (vw_mem w') va (unat n)) \<and>
           (\<forall>x. x \<notin> set (kaddrs va (unat n)) \<longrightarrow> vw_mem w' x = vw_mem w x)))"
proof -
  let ?vb = "finalize_vdev_registery (tipc_dev_ops env) vb"
  have l: "16 + 4 * length (templates vb) + sum_list (map length (templates vb)) < 2 ^ 32" using assms(4) by simp
  note f = finalize_placed [OF bus_reach_inv [OF assms(1)] assms(2,3) l, of env]
  have small: "\<forall>t \<in> set (templates ?vb). 12 \<le> length t \<and> length t < 2 ^ 32"
    unfolding f(3) using assms(3) l member_le_sum_list [of _ "map length (templates vb)"] by fastforce
  have n: "length (vb_vdev_list ?vb) = length (vb_vdev_list vb)" using arg_cong [OF f(3), of length] by simp
  have p: "placed (tipc_dev_ops env) (16 + 4 * length (vb_vdev_list ?vb)) (vb_vdev_list ?vb) (unat (vb_descr_size ?vb))"
    using f(1) n by simp
  have t: "resource_table (templates vb) (kread (build_table (tipc_dev_ops env) va ?vb m) va (unat (vb_descr_size ?vb)))" for va m
    using table_built(1) [OF f(4) p small] f(3) by simp
  obtain r vm where m: "map_descr pa (vb_descr_size ?vb) (vw_vmm w) = (r, vm)" by force
  have z: "0 < unat (vb_descr_size ?vb)" "unat (vb_descr_size ?vb) + 4095 < 2 ^ 32" using f(2) assms(4) by simp_all
  show ?thesis
  proof (cases "sz < vb_descr_size ?vb")
    case True
    then show ?thesis by (simp add: virtio_get_description_def Let_def)
  next
    case False
    from m assms(5) z show ?thesis
    proof (cases rule: map_descr_cases)
      case (fail e)
      then show ?thesis using False m by (simp add: virtio_get_description_def Let_def)
    next
      case (ok va)
      have b: "\<forall>x. x \<notin> set (kaddrs va (unat (vb_descr_size ?vb))) \<longrightarrow> build_table (tipc_dev_ops env) va ?vb (vw_mem w) x = vw_mem w x"
        using table_built(2) [OF f(4) p small] by blast
      have "virtio_get_description (tipc_dev_ops env) pa sz vb w =
          Done (Inr (vb_descr_size ?vb), ?vb, w\<lparr>vw_vmm := unmap_descr va vm, vw_mem := build_table (tipc_dev_ops env) va ?vb (vw_mem w)\<rparr>)"
        using ok False m table_fits [OF f(4) p small] by (simp add: virtio_get_description_def Let_def)
      then show ?thesis using ok(3) t [of va "vw_mem w"] b f(2) False by (intro exI conjI) (assumption, auto)
    qed
  qed
qed

definition demo_vdev :: "tipc_dev vdev" where
  "demo_vdev = \<lparr>vd_devid = 9, vd_descr_offset = 0, vd_ops = Some [True, True, True, True, True], vd_dev = new_dev\<rparr>"

definition demo_bus :: "tipc_dev virtio_bus" where
  "demo_bus = snd (virtio_register_device (Some demo_vdev) virtio_bus0)"

lemma demo_bus_reach: "bus_reach ops demo_bus"
  unfolding demo_bus_def by (rule bus_next [OF bus_start]) (rule register, rule prod.collapse [symmetric])

lemma demo_bus_fields: "vb_state demo_bus = VIRTIO_BUS_STATE_UNINITIALIZED" "templates demo_bus = [replicate 108 0]"
  by (simp_all add: demo_bus_def demo_vdev_def virtio_register_device_def validate_vdev_def virtio_bus0_def
      new_dev_def create_tipc_device_def kalloc_def init_kst_def)

definition demo_env :: "u32 \<Rightarrow> tipc_env" where
  "demo_env devid = \<lparr>te_view = demo_view (\<lambda>_ _. demo_desc 0 64), te_wakes = [], te_rx_join = (NO_ERROR, id), te_tx_join = (NO_ERROR, id)\<rparr>"

definition demo_vworld :: vworld where
  "demo_vworld = \<lparr>vw_k = init_kst, vw_vmm = demo_vmm, vw_mem = \<lambda>_. 0\<rparr>"

lemma demo_described: "\<exists>vb' w'. virtio_get_description (tipc_dev_ops demo_env) 0x80000000 4096 demo_bus demo_vworld = Done (Inr 128, vb', w')"
  by (simp add: virtio_get_description_def Let_def finalize_vdev_registery_def map_descr_def demo_vworld_def demo_vmm_def
      demo_bus_def demo_vdev_def virtio_register_device_def validate_vdev_def virtio_bus0_def tipc_dev_ops_def tipc_descr_size_def vdev_to_dev_def
      new_dev_def create_tipc_device_def kalloc_def init_kst_def vmm_alloc_physical_def ROUNDUP_def PAGE_SIZE_def free_spot_def mapped_def descrs_fit_def)

theorem virtio_description_layout_witness:
  "\<exists>vb' w' va. virtio_get_description (tipc_dev_ops demo_env) 0x80000000 4096 demo_bus demo_vworld = Done (Inr 128, vb', w') \<and>
     resource_table [replicate 108 0] (kread (vw_mem w') va 128)"
proof -
  have "regions_ok (vm_regions (vw_vmm demo_vworld))" using demo_vmm_ok by (simp add: demo_vworld_def)
  then show ?thesis
    using virtio_description_layout [where env = demo_env and w = demo_vworld and pa = "0x80000000" and sz = 4096, OF demo_bus_reach demo_bus_fields(1)]
      demo_bus_fields(2) demo_described by auto
qed

text \<open>C31: The bus is well formed after any sequence of calls, on any devices: it is uninitialised, idle or
  active, never in one of the two states of a call under way, its count is the number of
  registered devices, and the devices are numbered from 0 in the order of their registration.
\<close>

theorem virtio_bus_well_formed:
  assumes "bus_reach ops vb"
  shows "vb_state vb \<in> {VIRTIO_BUS_STATE_UNINITIALIZED, VIRTIO_BUS_STATE_IDLE, VIRTIO_BUS_STATE_ACTIVE} \<and>
    vb_vdev_cnt vb = word_of_nat (length (vb_vdev_list vb)) \<and>
    map vd_devid (vb_vdev_list vb) = map word_of_nat [0..<length (vb_vdev_list vb)]"
  using bus_reach_inv [OF assms] by (simp add: bus_inv_def)

theorem virtio_bus_well_formed_witness:
  "vb_vdev_cnt demo_bus = 1 \<and> map vd_devid (vb_vdev_list demo_bus) = [0]"
proof -
  have "length (vb_vdev_list demo_bus) = 1" using arg_cong [OF demo_bus_fields(2), of length] by simp
  then show ?thesis using virtio_bus_well_formed [OF demo_bus_reach [of "tipc_dev_ops demo_env"]] by simp
qed

lemma bus_change_frozen:
  "bus_change ops vb vb' \<Longrightarrow> vb_state vb \<noteq> VIRTIO_BUS_STATE_UNINITIALIZED \<Longrightarrow>
   bus_table vb' = bus_table vb \<and> vb_state vb' \<noteq> VIRTIO_BUS_STATE_UNINITIALIZED"
  by (auto simp: bus_change_def finalize_vdev_registery_def)

text \<open>C32: Once the bus has been described, nothing that was said of it changes any more: through any later
  calls, its size, the number of devices, their numbers and the offsets of their descriptors stay,
  and no further device is accepted.
\<close>

theorem virtio_table_frozen:
  assumes "(bus_step ops)\<^sup>*\<^sup>* vb vb'" "vb_state vb \<noteq> VIRTIO_BUS_STATE_UNINITIALIZED"
  shows "bus_table vb' = bus_table vb \<and> vb_state vb' \<noteq> VIRTIO_BUS_STATE_UNINITIALIZED \<and>
    virtio_register_device vd vb' = (Inl ERR_BAD_STATE, vb')"
proof -
  have "bus_table vb' = bus_table vb \<and> vb_state vb' \<noteq> VIRTIO_BUS_STATE_UNINITIALIZED"
    using assms by (induction rule: rtranclp_induct) (simp, metis bus_step_change bus_change_frozen)
  then show ?thesis by (simp add: virtio_register_device_def)
qed

theorem virtio_table_frozen_witness:
  "\<exists>vb w vb' w'. virtio_get_description (tipc_dev_ops demo_env) 0x80000000 4096 demo_bus demo_vworld = Done (Inr 128, vb, w) \<and>
     virtio_get_description (tipc_dev_ops demo_env) 0 4096 vb w = Done (Inl ERR_INVALID_ARGS, vb', w') \<and>
     bus_table vb' = bus_table vb \<and> virtio_register_device (Some demo_vdev) vb' = (Inl ERR_BAD_STATE, vb')"
proof -
  obtain vb w where d: "virtio_get_description (tipc_dev_ops demo_env) 0x80000000 4096 demo_bus demo_vworld = Done (Inr 128, vb, w)"
    using demo_described by blast
  have f: "vb = finalize_vdev_registery (tipc_dev_ops demo_env) demo_bus" "vb_descr_size vb = 128"
    using d by (auto simp: virtio_get_description_def Let_def split: if_splits prod.splits sum.splits)
  then have st: "vb_state vb = VIRTIO_BUS_STATE_IDLE"
    using demo_bus_fields(1) by (simp add: finalize_vdev_registery_def split_beta Let_def)
  obtain vb' w' where e: "virtio_get_description (tipc_dev_ops demo_env) 0 4096 vb w = Done (Inl ERR_INVALID_ARGS, vb', w')"
    using st f(2) by (simp add: virtio_get_description_def finalize_vdev_registery_def map_descr_def)
  have "(bus_step (tipc_dev_ops demo_env))\<^sup>*\<^sup>* vb vb'" by (rule r_into_rtranclp) (rule describe [OF e])
  then show ?thesis using virtio_table_frozen [of "tipc_dev_ops demo_env" vb vb' "Some demo_vdev"] st d e by auto
qed

end
