(* ===== verification/Storage_Proxy.thy ===== *)
theory Storage_Proxy
  imports Trusty_Prelude
begin

text \<open>
  How the storage service talks to its proxy in the non-secure world: the synchronous request of
  \<^verbatim>\<open>app/storage/ipc.c\<close> and the requests of \<^verbatim>\<open>tipc_ns.c\<close>. What the system calls return and what the proxy
  answers is up to the environment, which knows everything that was sent before.
\<close>

abbreviation ENOENT :: int where "ENOENT \<equiv> 2"
abbreviation ENOMEM :: int where "ENOMEM \<equiv> 12"
abbreviation EINVAL :: int where "EINVAL \<equiv> 22"
abbreviation ERR_IO :: int where "ERR_IO \<equiv> -20"
abbreviation ERR_BAD_LEN :: int where "ERR_BAD_LEN \<equiv> -32"
abbreviation ERR_BUSY :: int where "ERR_BUSY \<equiv> -33"

text \<open>
  The results of the system calls of one request: \<^verbatim>\<open>send_msg\<close>, the wait and the second \<^verbatim>\<open>send_msg\<close> when the
  queue was full, the wait for the answer, \<^verbatim>\<open>get_msg\<close>, the message, \<^verbatim>\<open>read_msg\<close>; and what a receive
  buffer on the stack held before.
\<close>

record sys_replies =
  sr_send :: int
  sr_wait_send :: int
  sr_event :: u32
  sr_resend :: int
  sr_wait :: int
  sr_get :: int
  sr_msg :: "u8 list"
  sr_read :: int
  sr_stack :: "u8 list"

record ss_world =
  sw_env :: "nat \<Rightarrow> u8 list list \<Rightarrow> sys_replies"
  sw_calls :: nat
  sw_sent :: "u8 list list"
  sw_rand :: "nat \<Rightarrow> u8 list"
  sw_drawn :: nat

section \<open>The synchronous request\<close>

definition wait_to_send :: "sys_replies \<Rightarrow> int \<times> bool" where
  "wait_to_send r =
     (if sr_wait_send r < 0 then (sr_wait_send r, False)
      else if sr_event r AND 16 \<noteq> 0 then (sr_resend r, 0 \<le> sr_resend r)
      else if sr_event r AND 8 \<noteq> 0 then (ERR_BUSY, False)
      else if sr_event r AND 4 \<noteq> 0 then (err_code ERR_CHANNEL_CLOSED, False)
      else (sr_wait_send r, False))"

definition await_response :: "sys_replies \<Rightarrow> int" where
  "await_response r = (if sr_wait r \<noteq> 0 then sr_wait r else sr_get r)"

text \<open>\<^verbatim>\<open>read_msg\<close> into an array of buffers.\<close>

fun fill_bufs :: "u8 list \<Rightarrow> u8 list list \<Rightarrow> u8 list list" where
  "fill_bufs m [] = []"
| "fill_bufs m (b # bs) = (take (length b) m @ drop (length m) b) # fill_bufs (drop (length b) m) bs"

definition read_response :: "sys_replies \<Rightarrow> u8 list list \<Rightarrow> int \<times> u8 list list" where
  "read_response r bufs =
     (if sr_read r < 0 then (sr_read r, bufs) else (sr_read r, fill_bufs (take (nat (sr_read r)) (sr_msg r)) bufs))"

text \<open>The request, whether it was delivered, the value returned and the receive buffers.\<close>

definition sync_ipc_recv :: "sys_replies \<Rightarrow> u8 list list \<Rightarrow> int \<times> u8 list list" where
  "sync_ipc_recv r bufs =
     (if bufs = [] then (0, bufs)
      else if await_response r < 0 then (await_response r, bufs)
      else if length (sr_msg r) < length (hd bufs) then (err_code ERR_NOT_VALID, bufs)
      else if sum_list (map length bufs) < length (sr_msg r) then (ERR_BAD_LEN, bufs)
      else (let (rc, bufs') = read_response r bufs in
            if rc < 0 then (rc, bufs')
            else if nat rc \<noteq> length (sr_msg r) then (ERR_IO, bufs')
            else (rc, bufs')))"

definition sync_ipc_send_msg :: "u8 list \<Rightarrow> (sys_replies \<Rightarrow> u8 list list) \<Rightarrow> ss_world \<Rightarrow> int \<times> u8 list list \<times> ss_world" where
  "sync_ipc_send_msg tx rx w =
     (let r = sw_env w (sw_calls w) (sw_sent w @ [tx]);
          (rc, delivered) = (if sr_send r = err_code ERR_NOT_ENOUGH_BUFFER then wait_to_send r else (sr_send r, 0 \<le> sr_send r));
          w1 = w\<lparr>sw_calls := Suc (sw_calls w), sw_sent := sw_sent w @ (if delivered then [tx] else [])\<rparr>
      in if rc < 0 then (rc, rx r, w1)
         else (let (rc2, bufs) = sync_ipc_recv r (rx r) in (rc2, bufs, w1)))"

section \<open>Requests to the proxy\<close>

abbreviation STORAGE_RESP_BIT :: u32 where "STORAGE_RESP_BIT \<equiv> 1"
abbreviation STORAGE_FILE_OPEN :: u32 where "STORAGE_FILE_OPEN \<equiv> 4"
abbreviation STORAGE_FILE_CLOSE :: u32 where "STORAGE_FILE_CLOSE \<equiv> 6"
abbreviation STORAGE_FILE_READ :: u32 where "STORAGE_FILE_READ \<equiv> 8"
abbreviation STORAGE_FILE_WRITE :: u32 where "STORAGE_FILE_WRITE \<equiv> 10"
abbreviation STORAGE_RPMB_SEND :: u32 where "STORAGE_RPMB_SEND \<equiv> 16"

definition enc64 :: "u64 \<Rightarrow> u8 list" where
  "enc64 x = nat_le 8 (unat x)"

definition storage_msg :: "u32 \<Rightarrow> u32 \<Rightarrow> u32 \<Rightarrow> u8 list" where
  "storage_msg cmd flags size' = enc32 cmd @ enc32 0 @ enc32 flags @ enc32 size' @ enc32 0 @ enc32 0"

definition translate_error :: "u32 \<Rightarrow> int" where
  "translate_error err = (if err = 0 then 0 else if err = 2 then err_code ERR_NOT_VALID else err_code ERR_GENERIC)"

definition check_response :: "u32 \<Rightarrow> u8 list \<Rightarrow> int \<Rightarrow> int" where
  "check_response cmd msg read_len =
     (if nat read_len < 24 then ERR_IO
      else if le32 msg \<noteq> (cmd OR STORAGE_RESP_BIT) then ERR_IO
      else translate_error (le32 (drop 16 msg)))"

text \<open>A buffer of \<open>n\<close> bytes on the stack.\<close>

definition stack_buf :: "nat \<Rightarrow> sys_replies \<Rightarrow> u8 list" where
  "stack_buf n r = take n (sr_stack r @ replicate n 0)"

definition rpmb_send :: "u8 list \<Rightarrow> u8 list \<Rightarrow> nat \<Rightarrow> bool \<Rightarrow> ss_world \<Rightarrow> int \<times> u8 list \<times> ss_world" where
  "rpmb_send reliable_write write read_size sync w =
     (let flags = (if sync then 6 else 0);
          msg = storage_msg STORAGE_RPMB_SEND flags (word_of_nat (24 + 16 + length reliable_write + length write));
          req = enc32 (word_of_nat (length reliable_write)) @ enc32 (word_of_nat (length write)) @ enc32 (word_of_nat read_size) @ enc32 0;
          (rc, bufs, w1) = sync_ipc_send_msg (msg @ req @ reliable_write @ write) (\<lambda>r. [msg, stack_buf read_size r]) w
      in if rc < 0 then (rc, bufs ! 1, w1)
         else (check_response STORAGE_RPMB_SEND (bufs ! 0) rc, bufs ! 1, w1))"

definition ns_open_file :: "u8 list \<Rightarrow> bool \<Rightarrow> ss_world \<Rightarrow> int \<times> u64 option \<times> ss_world" where
  "ns_open_file fname create w =
     (let msg = storage_msg STORAGE_FILE_OPEN 0 (word_of_nat (24 + 4 + length fname));
          (rc, bufs, w1) = sync_ipc_send_msg (msg @ enc32 (if create then 1 else 0) @ fname) (\<lambda>r. [msg, stack_buf 4 r]) w
      in if rc < 0 then (rc, None, w1)
         else (let rc2 = check_response STORAGE_FILE_OPEN (bufs ! 0) rc in
               if rc2 \<noteq> 0 then (rc2, None, w1)
               else if rc \<noteq> 28 then (err_code ERR_NOT_VALID, None, w1)
               else (0, Some (ucast (le32 (bufs ! 1))), w1)))"

definition ns_close_file :: "u64 \<Rightarrow> ss_world \<Rightarrow> ss_world" where
  "ns_close_file handle w =
     (let msg = storage_msg STORAGE_FILE_CLOSE 0 28;
          (rc, bufs, w1) = sync_ipc_send_msg (msg @ enc32 (ucast handle)) (\<lambda>r. [msg]) w
      in w1)"

definition ns_read_pos :: "u64 \<Rightarrow> u64 \<Rightarrow> u8 list \<Rightarrow> ss_world \<Rightarrow> int \<times> u8 list \<times> ss_world" where
  "ns_read_pos handle pos data w =
     (let msg = storage_msg STORAGE_FILE_READ 0 40;
          req = enc32 (ucast handle) @ enc32 (word_of_nat (length data)) @ enc64 pos;
          (rc, bufs, w1) = sync_ipc_send_msg (msg @ req) (\<lambda>r. [msg, data]) w
      in if rc < 0 then (rc, bufs ! 1, w1)
         else if nat rc \<noteq> 24 + length data then (err_code ERR_NOT_VALID, bufs ! 1, w1)
         else (let rc2 = check_response STORAGE_FILE_READ (bufs ! 0) rc in
               if rc2 \<noteq> 0 then (rc2, bufs ! 1, w1) else (rc - 24, bufs ! 1, w1)))"

definition ns_write_pos :: "u64 \<Rightarrow> u64 \<Rightarrow> u8 list \<Rightarrow> ss_world \<Rightarrow> int \<times> ss_world" where
  "ns_write_pos handle pos data w =
     (let msg = storage_msg STORAGE_FILE_WRITE 0 (word_of_nat (24 + 16 + length data));
          req = enc64 pos @ enc32 (ucast handle) @ enc32 0;
          (rc, bufs, w1) = sync_ipc_send_msg (msg @ req @ data) (\<lambda>r. [msg]) w
      in if rc < 0 then (rc, w1)
         else (let rc2 = check_response STORAGE_FILE_WRITE (bufs ! 0) rc in
               if rc2 \<noteq> 0 then (rc2, w1) else (int (length data), w1)))"

end
