(* ===== verification/Rpmb.thy ===== *)
theory Rpmb
  imports Storage_Proxy
begin

text \<open>
  The replay protected memory block of the storage service (\<^verbatim>\<open>app/storage/rpmb.c\<close>) and the block devices on it
  (\<^verbatim>\<open>block_device_tipc.c\<close>). The frames pass through the proxy in the non-secure world; what they are worth rests on
  the keyed hash alone, which is a parameter: \<open>hmac key m\<close> is the tag of 32 bytes, or None where
  the library fails.
\<close>

type_synonym hmac = "u8 list \<Rightarrow> u8 list \<Rightarrow> u8 list option"

section \<open>Frames\<close>

record rpmb_packet =
  rp_pad :: "u8 list"
  rp_key_mac :: "u8 list"
  rp_data :: "u8 list"
  rp_nonce :: "u8 list"
  rp_write_counter :: "u8 list"
  rp_address :: "u8 list"
  rp_block_count :: "u8 list"
  rp_result :: "u8 list"
  rp_req_resp :: "u8 list"

definition rpmb_packet0 :: rpmb_packet where
  "rpmb_packet0 = \<lparr>rp_pad = replicate 196 0, rp_key_mac = replicate 32 0, rp_data = replicate 256 0, rp_nonce = replicate 16 0,
     rp_write_counter = replicate 4 0, rp_address = replicate 2 0, rp_block_count = replicate 2 0, rp_result = replicate 2 0,
     rp_req_resp = replicate 2 0\<rparr>"

text \<open>The part of a frame that is hashed, and the frame in memory.\<close>

definition mac_bytes :: "rpmb_packet \<Rightarrow> u8 list" where
  "mac_bytes p = rp_data p @ rp_nonce p @ rp_write_counter p @ rp_address p @ rp_block_count p @ rp_result p @ rp_req_resp p"

definition packet_bytes :: "rpmb_packet \<Rightarrow> u8 list" where
  "packet_bytes p = rp_pad p @ rp_key_mac p @ mac_bytes p"

definition packet_of :: "u8 list \<Rightarrow> rpmb_packet" where
  "packet_of b = \<lparr>rp_pad = take 196 b, rp_key_mac = take 32 (drop 196 b), rp_data = take 256 (drop 228 b), rp_nonce = take 16 (drop 484 b),
     rp_write_counter = take 4 (drop 500 b), rp_address = take 2 (drop 504 b), rp_block_count = take 2 (drop 506 b),
     rp_result = take 2 (drop 508 b), rp_req_resp = take 2 (drop 510 b)\<rparr>"

fun packets_of :: "nat \<Rightarrow> u8 list \<Rightarrow> rpmb_packet list" where
  "packets_of 0 b = []"
| "packets_of (Suc n) b = packet_of (take 512 b) # packets_of n (drop 512 b)"

abbreviation RPMB_REQ_GET_COUNTER :: u16 where "RPMB_REQ_GET_COUNTER \<equiv> 2"
abbreviation RPMB_REQ_DATA_WRITE :: u16 where "RPMB_REQ_DATA_WRITE \<equiv> 3"
abbreviation RPMB_REQ_DATA_READ :: u16 where "RPMB_REQ_DATA_READ \<equiv> 4"
abbreviation RPMB_REQ_RESULT_READ :: u16 where "RPMB_REQ_RESULT_READ \<equiv> 5"
abbreviation RPMB_RESP_GET_COUNTER :: u16 where "RPMB_RESP_GET_COUNTER \<equiv> 0x200"
abbreviation RPMB_RESP_DATA_WRITE :: u16 where "RPMB_RESP_DATA_WRITE \<equiv> 0x300"
abbreviation RPMB_RESP_DATA_READ :: u16 where "RPMB_RESP_DATA_READ \<equiv> 0x400"
abbreviation RPMB_RES_OK :: u16 where "RPMB_RES_OK \<equiv> 0"
abbreviation RPMB_RES_COUNT_FAILURE :: u16 where "RPMB_RES_COUNT_FAILURE \<equiv> 3"
abbreviation RPMB_RES_ADDR_FAILURE :: u16 where "RPMB_RES_ADDR_FAILURE \<equiv> 4"

record rpmb_state =
  rs_key :: "u8 list"
  rs_write_counter :: u32

text \<open>Integers in frames are big-endian.\<close>

definition rpmb_u16 :: "u16 \<Rightarrow> u8 list" where
  "rpmb_u16 val = [ucast (drop_bit 8 val), ucast val]"

definition rpmb_u32 :: "u32 \<Rightarrow> u8 list" where
  "rpmb_u32 val = [ucast (drop_bit 24 val), ucast (drop_bit 16 val), ucast (drop_bit 8 val), ucast val]"

definition rpmb_get_u16 :: "u8 list \<Rightarrow> u16" where
  "rpmb_get_u16 b = fold (\<lambda>x val. push_bit 8 val OR ucast x) b 0"

definition rpmb_get_u32 :: "u8 list \<Rightarrow> u32" where
  "rpmb_get_u32 b = fold (\<lambda>x val. push_bit 8 val OR ucast x) b 0"

section \<open>Operations\<close>

definition rpmb_nonce_init :: "ss_world \<Rightarrow> u8 list \<times> ss_world" where
  "rpmb_nonce_init w = (sw_rand w (sw_drawn w), w\<lparr>sw_drawn := Suc (sw_drawn w)\<rparr>)"

definition rpmb_mac :: "hmac \<Rightarrow> u8 list \<Rightarrow> rpmb_packet list \<Rightarrow> u8 list option" where
  "rpmb_mac hmac key packet = hmac key (concat (map mac_bytes packet))"

fun rpmb_check_response :: "u16 \<Rightarrow> rpmb_packet list \<Rightarrow> u8 list \<Rightarrow> u8 list option \<Rightarrow> u16 option \<Rightarrow> int" where
  "rpmb_check_response response_type [] mac nonce addrp = 0"
| "rpmb_check_response response_type (p # ps) mac nonce addrp =
     (if rpmb_get_u16 (rp_req_resp p) \<noteq> response_type then -1
      else if rpmb_get_u16 (rp_result p) \<noteq> RPMB_RES_OK
        then (if rpmb_get_u16 (rp_result p) = RPMB_RES_ADDR_FAILURE then - ENOENT else -1)
      else if ps = [] \<and> rp_key_mac p \<noteq> mac then -1
      else if (case nonce of None \<Rightarrow> False | Some n \<Rightarrow> rp_nonce p \<noteq> n) then -1
      else if (case addrp of None \<Rightarrow> False | Some a \<Rightarrow> a \<noteq> rpmb_get_u16 (rp_address p)) then -1
      else rpmb_check_response response_type ps mac nonce addrp)"

text \<open>The counter that is stored, if any, and the value returned.\<close>

definition rpmb_read_counter :: "hmac \<Rightarrow> rpmb_state \<Rightarrow> ss_world \<Rightarrow> int \<times> u32 option \<times> ss_world" where
  "rpmb_read_counter hmac state w =
     (let (nonce, w1) = rpmb_nonce_init w;
          cmd = rpmb_packet0\<lparr>rp_nonce := nonce, rp_req_resp := rpmb_u16 RPMB_REQ_GET_COUNTER\<rparr>;
          (ret, b, w2) = rpmb_send [] (packet_bytes cmd) 512 False w1
      in if ret < 0 then (ret, None, w2)
         else (let res = packet_of b in
               case rpmb_mac hmac (rs_key state) [res] of
                 None \<Rightarrow> (-1, None, w2)
               | Some mac \<Rightarrow>
                   (rpmb_check_response RPMB_RESP_GET_COUNTER [res] mac (Some nonce) None,
                    Some (rpmb_get_u32 (rp_write_counter res)), w2)))"

text \<open>The value returned, and the bytes copied to the buffer of the caller.\<close>

definition rpmb_read :: "hmac \<Rightarrow> rpmb_state option \<Rightarrow> u16 \<Rightarrow> u16 \<Rightarrow> ss_world \<Rightarrow> int \<times> u8 list option \<times> ss_world" where
  "rpmb_read hmac statep addr count w =
     (let (nonce, w1) = rpmb_nonce_init w;
          cmd = rpmb_packet0\<lparr>rp_nonce := nonce, rp_address := rpmb_u16 addr, rp_req_resp := rpmb_u16 RPMB_REQ_DATA_READ\<rparr>
      in case statep of
           None \<Rightarrow> (- EINVAL, None, w1)
         | Some state \<Rightarrow>
             (let (ret, b, w2) = rpmb_send [] (packet_bytes cmd) (512 * unat count) False w1
              in if ret < 0 then (ret, None, w2)
                 else (let res = packets_of (unat count) b in
                       case rpmb_mac hmac (rs_key state) res of
                         None \<Rightarrow> (-1, None, w2)
                       | Some mac \<Rightarrow>
                           (let ret = rpmb_check_response RPMB_RESP_DATA_READ res mac (Some nonce) (Some addr)
                            in if ret < 0 then (ret, None, w2)
                               else (0, Some (concat (map rp_data res)), w2)))))"

definition write_cmd :: "rpmb_state \<Rightarrow> u8 list \<Rightarrow> u16 \<Rightarrow> u16 \<Rightarrow> nat \<Rightarrow> rpmb_packet" where
  "write_cmd state buf addr count i =
     rpmb_packet0\<lparr>rp_data := take 256 (drop (i * 256) buf), rp_write_counter := rpmb_u32 (rs_write_counter state),
       rp_address := rpmb_u16 addr, rp_block_count := rpmb_u16 count, rp_req_resp := rpmb_u16 RPMB_REQ_DATA_WRITE\<rparr>"

text \<open>\<^verbatim>\<open>rpmb.h\<close> asks for a count of 1 or 2; for 0 the tag would be stored in front of the array.\<close>

definition rpmb_write_data ::
    "hmac \<Rightarrow> rpmb_state \<Rightarrow> u8 list \<Rightarrow> u16 \<Rightarrow> u16 \<Rightarrow> bool \<Rightarrow> ss_world \<Rightarrow> int \<times> rpmb_state \<times> ss_world" where
  "rpmb_write_data hmac state buf addr count sync w =
     (let cmd = map (write_cmd state buf addr count) [0..<unat count];
          rescmd = rpmb_packet0\<lparr>rp_req_resp := rpmb_u16 RPMB_REQ_RESULT_READ\<rparr>
      in case rpmb_mac hmac (rs_key state) cmd of
           None \<Rightarrow> (-1, state, w)
         | Some tag \<Rightarrow>
             (let cmd1 = cmd[unat count - 1 := (cmd ! (unat count - 1))\<lparr>rp_key_mac := tag\<rparr>];
                  (ret, b, w1) = rpmb_send (concat (map packet_bytes cmd1)) (packet_bytes rescmd) 512 sync w
              in if ret < 0 then (ret, state, w1)
                 else (let res = packet_of b in
                       case rpmb_mac hmac (rs_key state) [res] of
                         None \<Rightarrow> (-1, state, w1)
                       | Some mac \<Rightarrow>
                           (let ret = rpmb_check_response RPMB_RESP_DATA_WRITE [res] mac None (Some addr)
                            in if ret < 0
                               then (ret, if rpmb_get_u16 (rp_result res) = RPMB_RES_COUNT_FAILURE
                                          then state\<lparr>rs_write_counter := 0\<rparr> else state, w1)
                               else (0, state\<lparr>rs_write_counter := rs_write_counter state + 1\<rparr>, w1)))))"

definition rpmb_write ::
    "hmac \<Rightarrow> rpmb_state option \<Rightarrow> u8 list \<Rightarrow> u16 \<Rightarrow> u16 \<Rightarrow> bool \<Rightarrow> ss_world \<Rightarrow> int \<times> rpmb_state option \<times> ss_world" where
  "rpmb_write hmac statep buf addr count sync w = (case statep of
     None \<Rightarrow> (- EINVAL, None, w)
   | Some state \<Rightarrow>
       (if rs_write_counter state = 0
        then (let (ret, c, w1) = rpmb_read_counter hmac state w;
                  state1 = (case c of None \<Rightarrow> state | Some x \<Rightarrow> state\<lparr>rs_write_counter := x\<rparr>)
              in if ret < 0 then (ret, Some state1, w1)
                 else (let (r, state2, w2) = rpmb_write_data hmac state1 buf addr count sync w1 in (r, Some state2, w2)))
        else (let (r, state2, w2) = rpmb_write_data hmac state buf addr count sync w in (r, Some state2, w2))))"

definition rpmb_init :: "bool \<Rightarrow> u8 list \<Rightarrow> int \<times> rpmb_state option" where
  "rpmb_init alloc_ok key = (if \<not> alloc_ok then (- ENOMEM, None) else (0, Some \<lparr>rs_key = key, rs_write_counter = 0\<rparr>))"

section \<open>Frames in memory\<close>

lemma rpmb_get_u16 [simp]: "rpmb_get_u16 (rpmb_u16 v) = v"
  by (rule bit_word_eqI) (auto simp: rpmb_get_u16_def rpmb_u16_def bit_simps)

lemma rpmb_get_u32 [simp]: "rpmb_get_u32 (rpmb_u32 v) = v"
proof (rule bit_word_eqI)
  fix n assume "n < LENGTH(32)"
  then consider "n < 8" | "8 \<le> n" "n < 16" | "16 \<le> n" "n < 24" | "24 \<le> n" "n < 32" by fastforce
  then show "bit (rpmb_get_u32 (rpmb_u32 v)) n = bit v n"
    by cases (auto simp: rpmb_get_u32_def rpmb_u32_def bit_simps less_diff_conv2)
qed

definition frame_wf :: "rpmb_packet \<Rightarrow> bool" where
  "frame_wf p \<longleftrightarrow> length (rp_pad p) = 196 \<and> length (rp_key_mac p) = 32 \<and> length (rp_data p) = 256 \<and> length (rp_nonce p) = 16 \<and>
     length (rp_write_counter p) = 4 \<and> length (rp_address p) = 2 \<and> length (rp_block_count p) = 2 \<and> length (rp_result p) = 2 \<and>
     length (rp_req_resp p) = 2"

lemma length_packet_bytes: "frame_wf p \<Longrightarrow> length (packet_bytes p) = 512"
  by (simp add: frame_wf_def packet_bytes_def mac_bytes_def)

lemma packet_of_bytes: "frame_wf p \<Longrightarrow> packet_of (packet_bytes p) = p"
  by (cases p) (simp add: frame_wf_def packet_bytes_def mac_bytes_def packet_of_def)

lemma frame_wf_of: "length b = 512 \<Longrightarrow> frame_wf (packet_of b)"
  by (simp add: frame_wf_def packet_of_def)

lemma length_packets_of [simp]: "length (packets_of n b) = n"
  by (induction n arbitrary: b) auto

lemma packets_of_bytes: "\<forall>p \<in> set ps. frame_wf p \<Longrightarrow> packets_of (length ps) (concat (map packet_bytes ps) @ rest) = ps"
  by (induction ps) (simp_all add: length_packet_bytes packet_of_bytes)

lemma packets_of_wf: "length b = 512 * n \<Longrightarrow> p \<in> set (packets_of n b) \<Longrightarrow> frame_wf p"
proof (induction n arbitrary: b)
  case (Suc n)
  then show ?case using Suc.IH [of "drop 512 b"] by (auto simp: frame_wf_of)
qed simp

lemma frame_wf0: "frame_wf rpmb_packet0"
  by (simp add: frame_wf_def rpmb_packet0_def)

lemma length_rpmb_u [simp]: "length (rpmb_u16 x) = 2" "length (rpmb_u32 y) = 4"
  by (simp_all add: rpmb_u16_def rpmb_u32_def)

section \<open>What is checked of a response\<close>

lemma check_neg: "rpmb_check_response ty ps mac nonce addr \<le> 0"
  by (induction ty ps mac nonce addr rule: rpmb_check_response.induct) auto

lemma check_ok:
  assumes "\<not> rpmb_check_response ty ps mac nonce addr < 0"
  shows "p \<in> set ps \<Longrightarrow> rpmb_get_u16 (rp_req_resp p) = ty \<and> rpmb_get_u16 (rp_result p) = RPMB_RES_OK \<and>
      (\<forall>n. nonce = Some n \<longrightarrow> rp_nonce p = n) \<and> (\<forall>a. addr = Some a \<longrightarrow> rpmb_get_u16 (rp_address p) = a)"
    and "ps \<noteq> [] \<Longrightarrow> rp_key_mac (last ps) = mac"
  using assms by (induction ty ps mac nonce addr rule: rpmb_check_response.induct) (auto split: if_splits option.splits)

section \<open>Receiving\<close>

lemma length_fill [simp]: "map length (fill_bufs m bs) = map length bs"
  by (induction m bs rule: fill_bufs.induct) auto

lemma recv_lengths: "sync_ipc_recv r bufs = (rc, bufs') \<Longrightarrow> map length bufs' = map length bufs"
  by (auto simp: sync_ipc_recv_def read_response_def Let_def split: if_splits)

lemma sync_lengths: "sync_ipc_send_msg tx rx w = (rc, bufs, w') \<Longrightarrow> \<exists>r. map length bufs = map length (rx r)"
  by (auto simp: sync_ipc_send_msg_def Let_def split_beta split: if_splits dest: recv_lengths intro: recv_lengths [OF prod.collapse [symmetric]])

lemma length_stack_buf [simp]: "length (stack_buf n r) = n"
  by (simp add: stack_buf_def)

lemma rpmb_send_length: "rpmb_send rw wr n sync w = (rc, b, w') \<Longrightarrow> length b = n"
proof -
  assume a: "rpmb_send rw wr n sync w = (rc, b, w')"
  then obtain tx msg rc' bufs where s: "sync_ipc_send_msg tx (\<lambda>r. [msg, stack_buf n r]) w = (rc', bufs, w')" "b = bufs ! 1"
    by (auto simp: rpmb_send_def Let_def split_beta prod_eq_iff split: if_splits)
  obtain r where "map length bufs = map length [msg, stack_buf n r]" using sync_lengths [OF s(1)] by blast
  then have "length bufs = 2" "map length bufs ! 1 = n" using arg_cong [of "map length bufs" _ length] by auto
  then show ?thesis using s(2) by simp
qed

lemma length_received [simp]: "length (fst (snd (rpmb_send rw wr n sync w))) = n"
  by (cases "rpmb_send rw wr n sync w") (simp add: rpmb_send_length)

section \<open>Reading\<close>

definition read_cmd :: "u16 \<Rightarrow> ss_world \<Rightarrow> rpmb_packet" where
  "read_cmd addr w = rpmb_packet0\<lparr>rp_nonce := sw_rand w (sw_drawn w), rp_address := rpmb_u16 addr, rp_req_resp := rpmb_u16 RPMB_REQ_DATA_READ\<rparr>"

text \<open>The frames that the next read request gets to see.\<close>

definition read_frames :: "u16 \<Rightarrow> u16 \<Rightarrow> ss_world \<Rightarrow> rpmb_packet list" where
  "read_frames addr count w = packets_of (unat count)
     (fst (snd (rpmb_send [] (packet_bytes (read_cmd addr w)) (512 * unat count) False (w\<lparr>sw_drawn := Suc (sw_drawn w)\<rparr>))))"

lemma read_ok:
  assumes "rpmb_read hmac (Some st) addr count w = (0, buf, w')"
  shows "\<exists>mac. rpmb_mac hmac (rs_key st) (read_frames addr count w) = Some mac \<and>
    \<not> rpmb_check_response RPMB_RESP_DATA_READ (read_frames addr count w) mac (Some (sw_rand w (sw_drawn w))) (Some addr) < 0 \<and>
    buf = Some (concat (map rp_data (read_frames addr count w)))"
  using assms
  by (auto simp: rpmb_read_def rpmb_nonce_init_def read_frames_def read_cmd_def Let_def split_beta split: if_splits option.splits)

lemma map_as_nth: "map f xs = map (\<lambda>i. f (xs ! i)) [0..<length xs]"
  by (rule nth_equalityI) simp_all

text \<open>C5: Whatever the proxy does, a read that succeeds returns the blocks as the device held them when it
  answered the very request of this read: an older answer, an answer for other blocks or with other
  data is refused. The device is trusted to tag only its own answers, and a tag cannot be forged.
\<close>

theorem rpmb_read_authentic:
  assumes "rpmb_read hmac (Some st) addr count w = (0, buf, w')" "count \<noteq> 0"
    and unforgeable: "rpmb_mac hmac (rs_key st) (read_frames addr count w) = Some (rp_key_mac (last (read_frames addr count w))) \<Longrightarrow>
      tagged (map mac_bytes (read_frames addr count w))"
    and device: "\<And>ps i. tagged (map mac_bytes ps) \<Longrightarrow>
      \<forall>p \<in> set ps. frame_wf p \<and> rpmb_get_u16 (rp_req_resp p) = RPMB_RESP_DATA_READ \<and> rpmb_get_u16 (rp_result p) = RPMB_RES_OK \<Longrightarrow>
      i < length ps \<Longrightarrow> rp_data (ps ! i) = content (rp_nonce (ps ! i)) (unat (rpmb_get_u16 (rp_address (ps ! i))) + i)"
  shows "buf = Some (concat (map (\<lambda>i. content (sw_rand w (sw_drawn w)) (unat addr + i)) [0..<unat count]))"
proof -
  let ?ps = "read_frames addr count w"
  obtain mac where m: "rpmb_mac hmac (rs_key st) ?ps = Some mac"
    "\<not> rpmb_check_response RPMB_RESP_DATA_READ ?ps mac (Some (sw_rand w (sw_drawn w))) (Some addr) < 0"
    "buf = Some (concat (map rp_data ?ps))" using read_ok [OF assms(1)] by blast
  have l: "length ?ps = unat count" by (simp add: read_frames_def)
  then have "?ps \<noteq> []" using assms(2) by (auto simp: unat_eq_0)
  then have t: "tagged (map mac_bytes ?ps)" using unforgeable m(1) check_ok(2) [OF m(2)] by simp
  have wf: "frame_wf p" if "p \<in> set ?ps" for p
    using that unfolding read_frames_def by (rule packets_of_wf [rotated]) simp
  have "rp_data (?ps ! i) = content (sw_rand w (sw_drawn w)) (unat addr + i)" if i: "i < length ?ps" for i
    using device [OF t _ i] check_ok(1) [OF m(2)] wf nth_mem [OF i] by simp
  then have "map rp_data ?ps = map (\<lambda>i. content (sw_rand w (sw_drawn w)) (unat addr + i)) [0..<unat count]"
    using l by (subst map_as_nth) (rule map_cong, simp_all)
  then show ?thesis using m(3) by simp
qed

text \<open>A device with \<open>n\<close> empty blocks behind an honest proxy, and a hash that is easy to compute.\<close>

definition demo_hmac :: hmac where
  "demo_hmac key m = Some (replicate 32 0)"

definition demo_answer :: "nat \<Rightarrow> u8 list \<Rightarrow> u8 list" where
  "demo_answer n req = (let p = packet_of (drop 40 req) in storage_msg 17 0 0 @
     packet_bytes (rpmb_packet0\<lparr>rp_nonce := rp_nonce p, rp_address := rp_address p,
       rp_result := rpmb_u16 (if unat (rpmb_get_u16 (rp_address p)) < n then RPMB_RES_OK else RPMB_RES_ADDR_FAILURE),
       rp_req_resp := rpmb_u16 RPMB_RESP_DATA_READ\<rparr>))"

definition demo_device :: "nat \<Rightarrow> nat \<Rightarrow> u8 list list \<Rightarrow> sys_replies" where
  "demo_device n i sent = \<lparr>sr_send = 0, sr_wait_send = 0, sr_event = 0, sr_resend = 0, sr_wait = 0, sr_get = 0,
     sr_msg = demo_answer n (last sent), sr_read = 536, sr_stack = []\<rparr>"

lemma length_storage_msg [simp]: "length (storage_msg c f s) = 24"
  by (simp add: storage_msg_def)

lemma read_cmd_wf: "length (sw_rand w (sw_drawn w)) = 16 \<Longrightarrow> frame_wf (read_cmd addr w)"
  using frame_wf0 by (simp add: frame_wf_def read_cmd_def)

lemma demo_device_read:
  assumes "sw_env w = demo_device n" "length (sw_rand w (sw_drawn w)) = 16"
  shows "read_frames addr 1 w = [rpmb_packet0\<lparr>rp_nonce := sw_rand w (sw_drawn w), rp_address := rpmb_u16 addr,
       rp_result := rpmb_u16 (if unat addr < n then RPMB_RES_OK else RPMB_RES_ADDR_FAILURE), rp_req_resp := rpmb_u16 RPMB_RESP_DATA_READ\<rparr>]" (is "_ = [?p]")
    and "rpmb_read demo_hmac (Some st) addr 1 w = (if unat addr < n then 0 else - ENOENT,
       if unat addr < n then Some (replicate 256 0) else None, snd (snd (rpmb_read demo_hmac (Some st) addr 1 w)))"
proof -
  have wf: "frame_wf (read_cmd addr w)" by (rule read_cmd_wf [OF assms(2)])
  have p: "frame_wf ?p" using frame_wf0 assms(2) by (simp add: frame_wf_def)
  let ?req = "storage_msg STORAGE_RPMB_SEND 0 552 @ (enc32 0 @ enc32 512 @ enc32 512 @ enc32 0) @ packet_bytes (read_cmd addr w)"
  have a: "demo_answer n ?req = storage_msg 17 0 0 @ packet_bytes ?p"
    by (simp add: demo_answer_def packet_of_bytes [OF wf]) (simp add: read_cmd_def)
  have s: "\<exists>w'. rpmb_send [] (packet_bytes (read_cmd addr w)) 512 False (w\<lparr>sw_drawn := Suc (sw_drawn w)\<rparr>) = (0, packet_bytes ?p, w')"
    using a length_packet_bytes [OF p]
    by (simp add: rpmb_send_def sync_ipc_send_msg_def assms(1) demo_device_def length_packet_bytes [OF wf] sync_ipc_recv_def await_response_def
        read_response_def check_response_def translate_error_def storage_msg_def Let_def)
  show f: "read_frames addr 1 w = [?p]"
    using s packet_of_bytes [OF p] length_packet_bytes [OF p] by (auto simp: read_frames_def)
  show "rpmb_read demo_hmac (Some st) addr 1 w = (if unat addr < n then 0 else - ENOENT,
       if unat addr < n then Some (replicate 256 0) else None, snd (snd (rpmb_read demo_hmac (Some st) addr 1 w)))"
    using s packet_of_bytes [OF p] length_packet_bytes [OF p]
    by (auto simp: rpmb_read_def rpmb_nonce_init_def read_cmd_def [symmetric] Let_def rpmb_mac_def demo_hmac_def)
      (simp_all add: rpmb_packet0_def)
qed

definition demo_ss :: "nat \<Rightarrow> ss_world" where
  "demo_ss n = \<lparr>sw_env = demo_device n, sw_calls = 0, sw_sent = [], sw_rand = \<lambda>_. replicate 16 7, sw_drawn = 0\<rparr>"

definition demo_rpmb :: rpmb_state where
  "demo_rpmb = \<lparr>rs_key = replicate 32 1, rs_write_counter = 0\<rparr>"

theorem rpmb_read_authentic_witness:
  "\<exists>w'. rpmb_read demo_hmac (Some demo_rpmb) 1 1 (demo_ss 4) = (0, Some (replicate 256 0), w')"
proof -
  have e: "sw_env (demo_ss 4) = demo_device 4" "length (sw_rand (demo_ss 4) (sw_drawn (demo_ss 4))) = 16" by (simp_all add: demo_ss_def)
  obtain buf w' where r: "rpmb_read demo_hmac (Some demo_rpmb) 1 1 (demo_ss 4) = (0, buf, w')"
    using demo_device_read(2) [OF e, of demo_rpmb 1] by simp
  have t: "\<forall>m \<in> set (map mac_bytes (read_frames 1 1 (demo_ss 4))). take 256 m = replicate 256 0"
    using demo_device_read(1) [OF e, of 1] by (simp add: mac_bytes_def rpmb_packet0_def)
  have "buf = Some (concat (map (\<lambda>i. replicate 256 0) [0..<unat (1 :: u16)]))"
    by (rule rpmb_read_authentic [OF r, where tagged = "\<lambda>ms. \<forall>m \<in> set ms. take 256 m = replicate 256 0" and content = "\<lambda>_ _. replicate 256 0"])
      (use t in \<open>auto simp: mac_bytes_def frame_wf_def dest: nth_mem\<close>)
  then show ?thesis using r by simp
qed

section \<open>Writing\<close>

text \<open>A message to the proxy that holds a write command for the device, tagged under the key.\<close>

definition signed_write :: "hmac \<Rightarrow> u8 list \<Rightarrow> u32 \<Rightarrow> u8 list \<Rightarrow> u16 \<Rightarrow> u16 \<Rightarrow> u8 list \<Rightarrow> bool" where
  "signed_write hmac key c buf addr count req \<longleftrightarrow>
     (let ps = packets_of (unat count) (drop 40 req) in
      concat (map rp_data ps) = buf \<and> rpmb_mac hmac key ps = Some (rp_key_mac (last ps)) \<and>
      (\<forall>p \<in> set ps. rpmb_get_u32 (rp_write_counter p) = c \<and> rpmb_get_u16 (rp_address p) = addr \<and>
         rpmb_get_u16 (rp_block_count p) = count \<and> rpmb_get_u16 (rp_req_resp p) = RPMB_REQ_DATA_WRITE))"

lemma sync_sent: "sw_sent (snd (snd (sync_ipc_send_msg tx rx w))) \<in> {sw_sent w, sw_sent w @ [tx]}"
  by (simp add: sync_ipc_send_msg_def Let_def split_beta)

lemma slices: "length buf = 256 * n \<Longrightarrow> concat (map (\<lambda>i. take 256 (drop (i * 256) buf)) [0..<n]) = buf"
proof (induction n arbitrary: buf)
  case (Suc n)
  have m: "map (\<lambda>i. take 256 (drop (i * 256) buf)) [0..<n] = map (\<lambda>i. take 256 (drop (i * 256) (take (256 * n) buf))) [0..<n]"
    by (rule map_cong) (auto simp: take_drop min_def)
  have "concat (map (\<lambda>i. take 256 (drop (i * 256) buf)) [0..<n]) = take (256 * n) buf"
    unfolding m using Suc.IH [of "take (256 * n) buf"] Suc.prems by simp
  then show ?case using Suc.prems by (simp add: mult.commute [of n])
qed simp

lemma frame_wf_mac: "frame_wf p \<Longrightarrow> length t = 32 \<Longrightarrow> frame_wf (p\<lparr>rp_key_mac := t\<rparr>)"
  by (simp add: frame_wf_def)

lemma write_cmd_wf: "256 * Suc i \<le> length buf \<Longrightarrow> frame_wf (write_cmd st buf addr count i)"
  using frame_wf0 by (simp add: frame_wf_def write_cmd_def)

text \<open>The command array with its tag is what the proxy finds after the two headers of the message.\<close>

lemma write_cmd_signed:
  assumes cmd_def: "cmd = map (write_cmd st buf addr count) [0..<unat count]"
    and cmd1_def: "cmd1 = cmd[unat count - 1 := (cmd ! (unat count - 1))\<lparr>rp_key_mac := tag\<rparr>]"
    and tag: "rpmb_mac hmac key cmd = Some tag" "length tag = 32"
    and "count \<noteq> 0" "length buf = 256 * unat count" "length hdr = 40"
  shows "signed_write hmac key (rs_write_counter st) buf addr count (hdr @ concat (map packet_bytes cmd1) @ rest)"
proof -
  have n: "0 < unat count" using assms(5) by (simp add: unat_gt_0)
  have c: "length cmd = unat count" "\<And>i. i < unat count \<Longrightarrow> cmd ! i = write_cmd st buf addr count i" by (simp_all add: cmd_def)
  have upd: "cmd1 ! i = (if i = unat count - 1 then (write_cmd st buf addr count i)\<lparr>rp_key_mac := tag\<rparr> else write_cmd st buf addr count i)"
    if "i < unat count" for i using that n c by (simp add: cmd1_def nth_list_update)
  have len: "length cmd1 = unat count" by (simp add: cmd1_def c)
  have wf: "frame_wf p" if p: "p \<in> set cmd1" for p
  proof -
    obtain i where i: "i < unat count" "p = cmd1 ! i" using p len by (metis in_set_conv_nth)
    have "frame_wf (write_cmd st buf addr count i)" by (rule write_cmd_wf) (use i assms(6) in simp)
    then show ?thesis unfolding i(2) upd [OF i(1)] using assms(4) by (auto intro: frame_wf_mac)
  qed
  have ps: "packets_of (unat count) (drop 40 (hdr @ concat (map packet_bytes cmd1) @ rest)) = cmd1"
    using packets_of_bytes [of "cmd1" rest] wf len assms(7) by simp
  have "map rp_data cmd1 = map (\<lambda>i. take 256 (drop (i * 256) buf)) [0..<unat count]"
    by (rule nth_equalityI) (simp_all add: len upd write_cmd_def)
  then have d: "concat (map rp_data cmd1) = buf" using slices [OF assms(6)] by simp
  have "map mac_bytes cmd1 = map mac_bytes cmd"
    by (rule nth_equalityI) (simp_all add: len c upd mac_bytes_def)
  then have m: "rpmb_mac hmac key cmd1 = Some tag" using assms(3) by (simp add: rpmb_mac_def)
  have l: "rp_key_mac (last cmd1) = tag" using n len upd [of "unat count - 1"] by (simp add: last_conv_nth flip: length_greater_0_conv)
  have f: "\<forall>p \<in> set cmd1. rpmb_get_u32 (rp_write_counter p) = rs_write_counter st \<and> rpmb_get_u16 (rp_address p) = addr \<and>
      rpmb_get_u16 (rp_block_count p) = count \<and> rpmb_get_u16 (rp_req_resp p) = RPMB_REQ_DATA_WRITE"
    by (auto simp: in_set_conv_nth len upd write_cmd_def)
  show ?thesis unfolding signed_write_def Let_def ps using d m l f by simp
qed

lemma rpmb_send_sent:
  "\<exists>hdr. length hdr = 40 \<and> sw_sent (snd (snd (rpmb_send rw wr n sync w))) \<in> {sw_sent w, sw_sent w @ [hdr @ rw @ wr]}"
proof -
  let ?msg = "storage_msg STORAGE_RPMB_SEND (if sync then 6 else 0) (word_of_nat (24 + 16 + length rw + length wr))"
  let ?req = "enc32 (word_of_nat (length rw)) @ enc32 (word_of_nat (length wr)) @ enc32 (word_of_nat n) @ enc32 0"
  have "snd (snd (rpmb_send rw wr n sync w)) = snd (snd (sync_ipc_send_msg (?msg @ ?req @ rw @ wr) (\<lambda>r. [?msg, stack_buf n r]) w))"
    by (simp add: rpmb_send_def Let_def split_beta)
  then show ?thesis
    using sync_sent [of "?msg @ ?req @ rw @ wr" "\<lambda>r. [?msg, stack_buf n r]" w] by (intro exI [of _ "?msg @ ?req"]) simp
qed

lemma rpmb_send_delivers: "(\<And>i h. sr_send (sw_env w i h) = 0) \<Longrightarrow> sw_sent (snd (snd (rpmb_send rw wr n sync w))) \<noteq> []"
  by (simp add: rpmb_send_def sync_ipc_send_msg_def Let_def split_beta)

lemma write_data_result:
  assumes "rpmb_write_data hmac st buf addr count sync w = (ret, st', w')"
  shows "ret = 0 \<and> st' = st\<lparr>rs_write_counter := rs_write_counter st + 1\<rparr> \<or> ret \<noteq> 0 \<and> st' = st \<or> ret \<noteq> 0 \<and> st' = st\<lparr>rs_write_counter := 0\<rparr>"
    and "cmd = map (write_cmd st buf addr count) [0..<unat count] \<Longrightarrow> rpmb_mac hmac (rs_key st) cmd = Some tag \<Longrightarrow>
      w' = snd (snd (rpmb_send (concat (map packet_bytes (cmd[unat count - 1 := (cmd ! (unat count - 1))\<lparr>rp_key_mac := tag\<rparr>])))
        (packet_bytes (rpmb_packet0\<lparr>rp_req_resp := rpmb_u16 RPMB_REQ_RESULT_READ\<rparr>)) 512 sync w))"
proof -
  define tx where "tx cmd tag = concat (map packet_bytes (cmd[unat count - 1 := (cmd ! (unat count - 1))\<lparr>rp_key_mac := tag\<rparr>]))" for cmd tag
  define cmd0 where "cmd0 = map (write_cmd st buf addr count) [0..<unat count]"
  define res where "res = packet_bytes (rpmb_packet0\<lparr>rp_req_resp := rpmb_u16 RPMB_REQ_RESULT_READ\<rparr>)"
  note e = assms [unfolded rpmb_write_data_def Let_def, folded cmd0_def, folded tx_def res_def]
  show "ret = 0 \<and> st' = st\<lparr>rs_write_counter := rs_write_counter st + 1\<rparr> \<or> ret \<noteq> 0 \<and> st' = st \<or> ret \<noteq> 0 \<and> st' = st\<lparr>rs_write_counter := 0\<rparr>"
    using e by (auto simp: split_beta simp del: rpmb_check_response.simps split: if_splits option.splits)
  show "w' = snd (snd (rpmb_send (concat (map packet_bytes (cmd[unat count - 1 := (cmd ! (unat count - 1))\<lparr>rp_key_mac := tag\<rparr>])))
        (packet_bytes (rpmb_packet0\<lparr>rp_req_resp := rpmb_u16 RPMB_REQ_RESULT_READ\<rparr>)) 512 sync w))"
    if "cmd = map (write_cmd st buf addr count) [0..<unat count]" "rpmb_mac hmac (rs_key st) cmd = Some tag"
    unfolding tx_def [symmetric] res_def [symmetric] that(1) [folded cmd0_def]
    using e that(2) [unfolded that(1) [folded cmd0_def]] by (auto simp: split_beta simp del: rpmb_check_response.simps split: if_splits option.splits)
qed

lemma write_data_signs:
  assumes "rpmb_write_data hmac st buf addr count sync w = (ret, st', w')"
    "count \<noteq> 0" "length buf = 256 * unat count" "\<And>m t. hmac (rs_key st) m = Some t \<Longrightarrow> length t = 32"
  shows "sw_sent w' = sw_sent w \<or>
      (\<exists>req. sw_sent w' = sw_sent w @ [req] \<and> signed_write hmac (rs_key st) (rs_write_counter st) buf addr count req)"
    and "\<exists>c. st' = st\<lparr>rs_write_counter := c\<rparr> \<and> (if ret = 0 then c = rs_write_counter st + 1 else c \<in> {rs_write_counter st, 0})"
proof -
  let ?cmd = "map (write_cmd st buf addr count) [0..<unat count]"
  let ?res = "rpmb_packet0\<lparr>rp_req_resp := rpmb_u16 RPMB_REQ_RESULT_READ\<rparr>"
  show "sw_sent w' = sw_sent w \<or>
      (\<exists>req. sw_sent w' = sw_sent w @ [req] \<and> signed_write hmac (rs_key st) (rs_write_counter st) buf addr count req)"
  proof (cases "rpmb_mac hmac (rs_key st) ?cmd")
    case None
    then show ?thesis using assms(1) by (simp add: rpmb_write_data_def)
  next
    case (Some tag)
    let ?cmd1 = "?cmd[unat count - 1 := (?cmd ! (unat count - 1))\<lparr>rp_key_mac := tag\<rparr>]"
    let ?send = "rpmb_send (concat (map packet_bytes ?cmd1)) (packet_bytes ?res) 512 sync w"
    have w': "w' = snd (snd ?send)" by (rule write_data_result(2) [OF assms(1) refl Some])
    obtain hdr where h: "length hdr = 40"
      "sw_sent (snd (snd ?send)) \<in> {sw_sent w, sw_sent w @ [hdr @ concat (map packet_bytes ?cmd1) @ packet_bytes ?res]}"
      using rpmb_send_sent by blast
    have "length tag = 32" using assms(4) Some by (simp add: rpmb_mac_def)
    then show ?thesis using write_cmd_signed [OF refl refl Some _ assms(2,3) h(1)] h(2) w' by blast
  qed
  show "\<exists>c. st' = st\<lparr>rs_write_counter := c\<rparr> \<and> (if ret = 0 then c = rs_write_counter st + 1 else c \<in> {rs_write_counter st, 0})"
    using write_data_result(1) [OF assms(1)]
  proof (elim disjE conjE)
    assume "ret \<noteq> 0" "st' = st"
    then show ?thesis by (intro exI [of _ "rs_write_counter st"]) simp
  qed auto
qed

text \<open>C27: A write whose counter is known sends at most one message, and that holds exactly the given blocks, for
  the given address and the current counter, under a valid tag. On success the counter has gone up
  by one; otherwise it has not changed or has been reset, so that the next write reads it again.
\<close>

theorem rpmb_write_signs_once:
  assumes "rpmb_write hmac (Some st) buf addr count sync w = (ret, st', w')" "rs_write_counter st \<noteq> 0"
    "count \<noteq> 0" "length buf = 256 * unat count" "\<And>m t. hmac (rs_key st) m = Some t \<Longrightarrow> length t = 32"
  shows "(sw_sent w' = sw_sent w \<or>
      (\<exists>req. sw_sent w' = sw_sent w @ [req] \<and> signed_write hmac (rs_key st) (rs_write_counter st) buf addr count req)) \<and>
    (\<exists>c. st' = Some (st\<lparr>rs_write_counter := c\<rparr>) \<and> (if ret = 0 then c = rs_write_counter st + 1 else c \<in> {rs_write_counter st, 0}))"
proof -
  obtain st2 where d: "rpmb_write_data hmac st buf addr count sync w = (ret, st2, w')" "st' = Some st2"
    using assms(1,2) by (auto simp: rpmb_write_def split_beta Let_def prod_eq_iff)
  show ?thesis using write_data_signs [OF d(1) assms(3,4)] assms(5) d(2) by blast
qed

theorem rpmb_write_signs_once_witness:
  "\<exists>ret st' w'. rpmb_write demo_hmac (Some (demo_rpmb\<lparr>rs_write_counter := 5\<rparr>)) (replicate 256 9) 2 1 True (demo_ss 4) = (ret, st', w') \<and>
     (\<exists>req. sw_sent w' = [req] \<and> signed_write demo_hmac (replicate 32 1) 5 (replicate 256 9) 2 1 req)"
proof -
  let ?st = "demo_rpmb\<lparr>rs_write_counter := 5\<rparr>"
  obtain ret st' w' where r: "rpmb_write demo_hmac (Some ?st) (replicate 256 9) 2 1 True (demo_ss 4) = (ret, st', w')"
    by (metis prod_cases3)
  obtain st2 where d: "rpmb_write_data demo_hmac ?st (replicate 256 9) 2 1 True (demo_ss 4) = (ret, st2, w')"
    using r by (auto simp: rpmb_write_def split_beta Let_def prod_eq_iff)
  have "\<And>i h. sr_send (sw_env (demo_ss 4) i h) = 0" by (simp add: demo_ss_def demo_device_def)
  then have s: "sw_sent w' \<noteq> []" using write_data_result(2) [OF d refl] rpmb_send_delivers by (simp add: rpmb_mac_def demo_hmac_def)
  have l: "demo_hmac k m = Some t \<Longrightarrow> length t = 32" for k m t by (auto simp: demo_hmac_def)
  show ?thesis
    using rpmb_write_signs_once [OF r _ _ _ l] s r by (auto simp: demo_ss_def demo_rpmb_def)
qed

text \<open>
  The counter of a response is stored before the response is checked. Whatever counter the proxy wants, a response
  without any tag makes the write fail but leaves that counter behind, and the next write is signed for it.
\<close>

definition forged_counter :: "u32 \<Rightarrow> ss_world" where
  "forged_counter v = \<lparr>sw_env = \<lambda>_ _. \<lparr>sr_send = 0, sr_wait_send = 0, sr_event = 0, sr_resend = 0, sr_wait = 0, sr_get = 0,
       sr_msg = storage_msg 17 0 0 @ packet_bytes (rpmb_packet0\<lparr>rp_write_counter := rpmb_u32 v\<rparr>), sr_read = 536, sr_stack = []\<rparr>,
     sw_calls = 0, sw_sent = [], sw_rand = \<lambda>_. replicate 16 7, sw_drawn = 0\<rparr>"

theorem rpmb_counter_unauthenticated:
  assumes "rs_write_counter st = 0" "\<And>m. hmac (rs_key st) m \<noteq> None"
  shows "\<exists>w'. rpmb_write hmac (Some st) buf addr count sync (forged_counter v) = (-1, Some (st\<lparr>rs_write_counter := v\<rparr>), w')"
proof -
  let ?p = "rpmb_packet0\<lparr>rp_write_counter := rpmb_u32 v\<rparr>" and ?w = "(forged_counter v)\<lparr>sw_drawn := 1\<rparr>"
  have p: "frame_wf ?p" using frame_wf0 by (simp add: frame_wf_def)
  have s: "\<exists>w'. rpmb_send [] wr 512 False ?w = (0, packet_bytes ?p, w')" for wr
    using length_packet_bytes [OF p]
    by (simp add: rpmb_send_def sync_ipc_send_msg_def forged_counter_def sync_ipc_recv_def await_response_def
        read_response_def check_response_def translate_error_def storage_msg_def Let_def)
  have c: "rpmb_check_response RPMB_RESP_GET_COUNTER [?p] mac nonce None = -1" for mac nonce
    by (simp add: rpmb_packet0_def rpmb_get_u16_def)
  obtain mac where m: "rpmb_mac hmac (rs_key st) [?p] = Some mac" using assms(2) by (auto simp: rpmb_mac_def)
  have n: "rpmb_nonce_init (forged_counter v) = (replicate 16 7, ?w)" by (simp add: rpmb_nonce_init_def forged_counter_def)
  have "\<exists>w'. rpmb_read_counter hmac st (forged_counter v) = (-1, Some v, w')"
    using s [of "packet_bytes (rpmb_packet0\<lparr>rp_nonce := replicate 16 7, rp_req_resp := rpmb_u16 RPMB_REQ_GET_COUNTER\<rparr>)"] packet_of_bytes [OF p] c m
    by (auto simp: rpmb_read_counter_def n Let_def simp del: rpmb_check_response.simps)
  then show ?thesis using assms(1) by (auto simp: rpmb_write_def)
qed

end
