(* ===== verification/Rpmb_Dev.thy ===== *)
theory Rpmb_Dev
  imports Rpmb
begin

text \<open>
  The block devices on the replay protected memory block (\<^verbatim>\<open>app/storage/block_device_tipc.c\<close>): the search for its
  size, its division into two devices, and reading and writing their blocks.
\<close>

abbreviation BLOCK_SIZE_RPMB :: nat where "BLOCK_SIZE_RPMB \<equiv> 512"
abbreviation BLOCK_SIZE_RPMB_BLOCKS :: u16 where "BLOCK_SIZE_RPMB_BLOCKS \<equiv> 2"

definition rpmb_check :: "hmac \<Rightarrow> rpmb_state \<Rightarrow> u16 \<Rightarrow> ss_world \<Rightarrow> int \<times> ss_world" where
  "rpmb_check hmac state block w = (let (ret, _, w1) = rpmb_read hmac (Some state) block 1 w in (ret, w1))"

text \<open>
  The search counts its passes down; None means that they were used up. A left summand is the failed
  assertion after the loop.
\<close>

fun rpmb_search_loop :: "nat \<Rightarrow> (u16 \<Rightarrow> 's \<Rightarrow> int \<times> 's) \<Rightarrow> u32 \<Rightarrow> u16 \<Rightarrow> u16 \<Rightarrow> u16 \<Rightarrow> 's \<Rightarrow> ((unit + u32) \<times> 's) option" where
  "rpmb_search_loop 0 check low high cur hint w = None"
| "rpmb_search_loop (Suc fuel) check low high cur hint w =
     (if low \<le> ucast high
      then (let (ret, w1) = check cur w in
            if ret \<noteq> 0 \<and> ret \<noteq> - ENOENT then Some (Inr 0, w1)
            else (let low1 = (if ret = 0 then ucast cur + 1 else low);
                      high1 = (if ret = 0 then high else cur - 1);
                      mid = ucast (low1 + (ucast high1 - low1) div 2)
                  in if ret \<noteq> 0 \<or> cur \<noteq> hint
                     then rpmb_search_loop fuel check low1 high1 mid mid w1
                     else rpmb_search_loop fuel check low1 high1 (cur + 1) hint w1))
      else if ucast high + 1 = low then Some (Inr low, w)
      else Some (Inl (), w))"

definition rpmb_search_size :: "nat \<Rightarrow> hmac \<Rightarrow> rpmb_state \<Rightarrow> u16 \<Rightarrow> ss_world \<Rightarrow> ((unit + u32) \<times> ss_world) option" where
  "rpmb_search_size fuel hmac state hint w = rpmb_search_loop fuel (rpmb_check hmac state) 0 (NOT 0) (hint - 1) hint w"

section \<open>The devices\<close>

record block_device_rpmb =
  br_block_count :: u32
  br_base :: u16

definition block_device_tipc_init_dev_rpmb :: "u16 \<Rightarrow> u32 \<Rightarrow> block_device_rpmb" where
  "block_device_tipc_init_dev_rpmb base block_count = \<lparr>br_block_count = block_count, br_base = base\<rparr>"

text \<open>
  The part of \<^verbatim>\<open>block_device_tipc_init\<close> that divides the memory, from the number of blocks that was found: the device
  of the file system on it, and the device that protects the file system in the non-secure world.
\<close>

definition rpmb_partition :: "u32 \<Rightarrow> (block_device_rpmb \<times> block_device_rpmb) option" where
  "rpmb_partition size' =
     (let rpmb_block_count = size' div 2;
          rpmb_part1_block_count = 2;
          rpmb_part1_base = 1;
          rpmb_part2_base = rpmb_part1_base + ucast (rpmb_part1_block_count :: u32)
      in if rpmb_block_count < ucast (rpmb_part2_base :: u16) then None
         else Some (block_device_tipc_init_dev_rpmb rpmb_part2_base (rpmb_block_count - ucast rpmb_part2_base),
                    block_device_tipc_init_dev_rpmb rpmb_part1_base rpmb_part1_block_count))"

definition rpmb_addr :: "block_device_rpmb \<Rightarrow> u64 \<Rightarrow> u16" where
  "rpmb_addr dev block = (ucast block + br_base dev) * BLOCK_SIZE_RPMB_BLOCKS"

text \<open>
  The value and the data given to \<^verbatim>\<open>block_cache_complete_read\<close> and \<^verbatim>\<open>block_cache_complete_write\<close>; None is a failed assertion.
\<close>

definition block_device_tipc_rpmb_start_read ::
    "hmac \<Rightarrow> rpmb_state \<Rightarrow> block_device_rpmb \<Rightarrow> u64 \<Rightarrow> ss_world \<Rightarrow> (bool \<times> u8 list option \<times> ss_world) option" where
  "block_device_tipc_rpmb_start_read hmac state dev block w =
     (if \<not> block < ucast (br_block_count dev) then None
      else (let (ret, tmp, w1) = rpmb_read hmac (Some state) (rpmb_addr dev block) BLOCK_SIZE_RPMB_BLOCKS w
            in Some (ret \<noteq> 0, tmp, w1)))"

definition block_device_tipc_rpmb_start_write ::
    "hmac \<Rightarrow> rpmb_state \<Rightarrow> block_device_rpmb \<Rightarrow> u64 \<Rightarrow> u8 list \<Rightarrow> ss_world \<Rightarrow> (bool \<times> rpmb_state option \<times> ss_world) option" where
  "block_device_tipc_rpmb_start_write hmac state dev block data w =
     (if length data \<noteq> BLOCK_SIZE_RPMB then None
      else if \<not> block < ucast (br_block_count dev) then None
      else (let (ret, state1, w1) = rpmb_write hmac (Some state) data (rpmb_addr dev block) BLOCK_SIZE_RPMB_BLOCKS True w
            in Some (ret \<noteq> 0, state1, w1)))"

text \<open>The device in the non-secure world, a file of the proxy; \<open>tmp\<close> is the buffer on the stack.\<close>

abbreviation BLOCK_SIZE_MAIN :: nat where "BLOCK_SIZE_MAIN \<equiv> 2048"

definition block_device_tipc_ns_start_read :: "u64 \<Rightarrow> u64 \<Rightarrow> u8 list \<Rightarrow> ss_world \<Rightarrow> bool \<times> u8 list \<times> ss_world" where
  "block_device_tipc_ns_start_read ns_handle block tmp w =
     (let (ret, tmp1, w1) = ns_read_pos ns_handle (block * of_nat BLOCK_SIZE_MAIN) tmp w
      in (ret \<noteq> int BLOCK_SIZE_MAIN, tmp1, w1))"

definition block_device_tipc_ns_start_write :: "u64 \<Rightarrow> u64 \<Rightarrow> u8 list \<Rightarrow> ss_world \<Rightarrow> (bool \<times> ss_world) option" where
  "block_device_tipc_ns_start_write ns_handle block data w =
     (if length data \<noteq> BLOCK_SIZE_MAIN then None
      else (let (ret, w1) = ns_write_pos ns_handle (block * of_nat BLOCK_SIZE_MAIN) data w
            in Some (ret \<noteq> int BLOCK_SIZE_MAIN, w1)))"

section \<open>The search\<close>

lemma unat_up [simp]: "unat (ucast (x :: u16) :: u32) = unat x"
  using unat16_less [of x] by (simp add: unsigned_ucast_eq take_bit_nat_eq_self)

lemma mid_between:
  fixes low :: u32 and high :: u16
  assumes "unat low \<le> unat high"
  shows "unat low \<le> unat (ucast (low + (ucast high - low) div 2) :: u16) \<and> unat (ucast (low + (ucast high - low) div 2) :: u16) \<le> unat high"
proof -
  have "unat (ucast high - low) = unat high - unat low" using assms by (simp add: unat_sub_if' word_le_nat_alt)
  then have "unat (low + (ucast high - low) div 2) = unat low + (unat high - unat low) div 2"
    using assms unat16_less [of high] by (subst unat_word_ariths) (simp add: unat_div)
  then have "unat (ucast (low + (ucast high - low) div 2) :: u16) = (unat low + (unat high - unat low) div 2) mod 65536"
    by (simp add: unsigned_ucast_eq take_bit_eq_mod)
  also have "\<dots> = unat low + (unat high - unat low) div 2" by (rule mod_less) (use assms unat16_less [of high] in linarith)
  finally show ?thesis using assms by linarith
qed

lemma search_loop_exact:
  assumes check: "\<And>b v. P v \<Longrightarrow> fst (check b v) = (if unat b < n then 0 else - ENOENT) \<and> P (snd (check b v))"
    and "P v" "0 < n" "unat low \<le> n" "n \<le> unat high + 1" "unat low \<le> unat high \<Longrightarrow> unat low \<le> unat cur \<and> unat cur \<le> unat high"
    "unat high + 1 < unat low + fuel"
  shows "\<exists>v'. rpmb_search_loop fuel check low high cur hint v = Some (Inr (word_of_nat n), v')"
  using assms(2-)
proof (induction fuel arbitrary: low high cur hint v)
  case (Suc fuel)
  show ?case
  proof (cases "unat low \<le> unat high")
    case False
    then have l: "unat low = n" "unat high + 1 = n" using Suc.prems by linarith+
    have "unat (ucast high + 1 :: u32) = unat high + 1" using unat16_less [of high] by (simp add: unat_word_ariths)
    then have "ucast high + 1 = low" using l word_unat_eq_iff by metis
    moreover have "low = word_of_nat n" unfolding l(1) [symmetric] by simp
    ultimately show ?thesis using False by (simp add: word_le_nat_alt)
  next
    case True
    note c = Suc.prems(5) [OF True]
    obtain ret v1 where k: "check cur v = (ret, v1)" by force
    have r: "ret = (if unat cur < n then 0 else - ENOENT)" "P v1" using check [OF Suc.prems(1), of cur] k by simp_all
    show ?thesis
    proof (cases "unat cur < n")
      case True
      let ?low = "ucast cur + 1 :: u32" and ?mid = "ucast (ucast cur + 1 + (ucast high - (ucast cur + 1 :: u32)) div 2) :: u16"
      have l: "unat ?low = unat cur + 1" using unat16_less [of cur] by (simp add: unat_word_ariths)
      have s: "unat (cur + 1) = unat cur + 1" if "unat ?low \<le> unat high"
        using that l unat16_less [of high] by (simp add: unat_word_ariths)
      have "\<exists>v'. rpmb_search_loop fuel check ?low high ?mid ?mid v1 = Some (Inr (word_of_nat n), v')"
        by (rule Suc.IH [OF r(2)]) (use Suc.prems True l c mid_between [of ?low high] in auto)
      moreover have "\<exists>v'. rpmb_search_loop fuel check ?low high (cur + 1) hint v1 = Some (Inr (word_of_nat n), v')"
        by (rule Suc.IH [OF r(2)]) (use Suc.prems True l c s in auto)
      ultimately show ?thesis using \<open>unat low \<le> unat high\<close> True k r(1)
        by (cases "cur = hint") (simp_all add: word_le_nat_alt Let_def)
    next
      case False
      let ?high = "cur - 1" and ?mid = "ucast (low + (ucast (cur - 1) - low) div 2) :: u16"
      have h: "unat ?high = unat cur - 1" using False Suc.prems(2) by (simp add: unat_sub_if')
      have "\<exists>v'. rpmb_search_loop fuel check low ?high ?mid ?mid v1 = Some (Inr (word_of_nat n), v')"
        by (rule Suc.IH [OF r(2)]) (use Suc.prems False h c mid_between [of low ?high] in auto)
      then show ?thesis using True False k r(1) by (simp add: word_le_nat_alt Let_def)
    qed
  qed
qed simp

lemma sync_world:
  "sw_env (snd (snd (sync_ipc_send_msg tx rx w))) = sw_env w" "sw_rand (snd (snd (sync_ipc_send_msg tx rx w))) = sw_rand w"
  by (simp_all add: sync_ipc_send_msg_def Let_def split_beta)

lemma send_world:
  "sw_env (snd (snd (rpmb_send rw wr n sync w))) = sw_env w" "sw_rand (snd (snd (rpmb_send rw wr n sync w))) = sw_rand w"
  by (simp_all add: rpmb_send_def Let_def split_beta sync_world)

lemma check_world:
  "sw_env (snd (rpmb_check hmac st b w)) = sw_env w" "sw_rand (snd (rpmb_check hmac st b w)) = sw_rand w"
proof -
  have "snd (snd (rpmb_read hmac (Some st) b 1 w)) =
      snd (snd (rpmb_send [] (packet_bytes (read_cmd b w)) (512 * unat (1 :: u16)) False (w\<lparr>sw_drawn := Suc (sw_drawn w)\<rparr>)))"
    unfolding rpmb_read_def rpmb_nonce_init_def read_cmd_def Let_def
    by (simp add: split_beta del: rpmb_check_response.simps packets_of.simps split: option.split)
  then show "sw_env (snd (rpmb_check hmac st b w)) = sw_env w" "sw_rand (snd (rpmb_check hmac st b w)) = sw_rand w"
    by (simp_all add: rpmb_check_def split_beta send_world)
qed

text \<open>C28: When the device answers for the first \<open>n\<close> blocks and reports an address failure for the others, the
  search ends and returns \<open>n\<close>, for every hint and every device that is not empty, the largest one included;
  65537 passes are enough.
\<close>

theorem rpmb_search_size_exact:
  assumes "\<And>b v. sw_env v = sw_env w \<Longrightarrow> sw_rand v = sw_rand w \<Longrightarrow>
      fst (rpmb_check hmac st b v) = (if unat b < n then 0 else - ENOENT)"
    and "0 < n" "n \<le> 65536" "65537 \<le> fuel"
  shows "\<exists>w'. rpmb_search_size fuel hmac st hint w = Some (Inr (word_of_nat n), w')"
proof -
  have h: "unat (NOT 0 :: u16) = 65535" by (simp add: unsigned_minus_1_eq_mask mask_eq_exp_minus_1)
  show ?thesis unfolding rpmb_search_size_def
    by (rule search_loop_exact [where P = "\<lambda>v. sw_env v = sw_env w \<and> sw_rand v = sw_rand w"])
      (use assms h unat16_less [of "hint - 1"] in \<open>auto simp: check_world\<close>)
qed

theorem rpmb_search_size_exact_witness:
  "\<exists>w'. rpmb_search_size 65537 demo_hmac demo_rpmb 0 (demo_ss 4) = Some (Inr 4, w')"
proof -
  have "fst (rpmb_check demo_hmac demo_rpmb b v) = (if unat b < 4 then 0 else - ENOENT)"
    if "sw_env v = sw_env (demo_ss 4)" "sw_rand v = sw_rand (demo_ss 4)" for b v
  proof -
    have "sw_env v = demo_device 4" "length (sw_rand v (sw_drawn v)) = 16" using that by (simp_all add: demo_ss_def)
    note arg_cong [OF demo_device_read(2) [OF this, of demo_rpmb b], of fst]
    then show ?thesis by (simp add: rpmb_check_def split_beta)
  qed
  then show ?thesis using rpmb_search_size_exact [of "demo_ss 4" demo_hmac demo_rpmb 4 65537 0] by simp
qed

text \<open>
  An address failure is accepted without a tag. When block 0 is refused as well, the upper bound wraps around to
  65535 and the search never ends.
\<close>

theorem rpmb_search_empty_diverges:
  assumes "\<And>b v. sw_env v = sw_env w \<Longrightarrow> sw_rand v = sw_rand w \<Longrightarrow> fst (rpmb_check hmac st b v) = - ENOENT"
  shows "rpmb_search_size fuel hmac st hint w = None"
proof -
  have "rpmb_search_loop fuel (rpmb_check hmac st) 0 high cur hint v = None"
    if "sw_env v = sw_env w" "sw_rand v = sw_rand w" for high cur hint v
    using that
  proof (induction fuel arbitrary: high cur hint v)
    case (Suc fuel)
    obtain ret v1 where k: "rpmb_check hmac st cur v = (ret, v1)" by force
    have "ret = - ENOENT" "sw_env v1 = sw_env w" "sw_rand v1 = sw_rand w"
      using assms [OF Suc.prems, of cur] check_world [of hmac st cur v] k Suc.prems by simp_all
    then show ?case using Suc.IH [of v1] k by (simp add: Let_def)
  qed simp
  then show ?thesis by (simp add: rpmb_search_size_def)
qed

section \<open>Addresses\<close>

text \<open>C29: The two devices share no block of the memory: a block of either device lies within the size that was
  found, the 16-bit address of its first half does not wrap around, and different blocks, of the same device or
  of the two, have addresses at least two apart.
\<close>

theorem rpmb_partition_disjoint:
  assumes "rpmb_partition size' = Some (d2, d1)" "unat size' \<le> 65536"
    "d \<in> {d1, d2}" "d' \<in> {d1, d2}" "b < ucast (br_block_count d)" "b' < ucast (br_block_count d')"
  shows "unat (rpmb_addr d b) = 2 * (unat b + unat (br_base d)) \<and> unat (rpmb_addr d b) + 2 \<le> unat size' \<and>
    (d \<noteq> d' \<or> b \<noteq> b' \<longrightarrow> unat (rpmb_addr d b) + 2 \<le> unat (rpmb_addr d' b') \<or> unat (rpmb_addr d' b') + 2 \<le> unat (rpmb_addr d b))"
proof -
  have p: "3 \<le> size' div 2" "d2 = \<lparr>br_block_count = size' div 2 - 3, br_base = 3\<rparr>" "d1 = \<lparr>br_block_count = 2, br_base = 1\<rparr>"
    using assms(1) by (auto simp: rpmb_partition_def block_device_tipc_init_dev_rpmb_def Let_def split: if_splits)
  have c: "unat (size' div 2 - 3) = unat size' div 2 - 3" "3 \<le> unat size' div 2"
    using p(1) by (simp_all add: unat_sub_if' word_le_nat_alt unat_div)
  have addr: "unat (rpmb_addr d b) = 2 * (unat b + unat (br_base d)) \<and> unat b + unat (br_base d) < unat size' div 2 \<and>
      (d = d1 \<and> unat b + unat (br_base d) < 3 \<or> d = d2 \<and> 3 \<le> unat b + unat (br_base d))"
    if "d \<in> {d1, d2}" "b < ucast (br_block_count d)" for d and b :: u64
  proof -
    have b: "unat b < unat (br_block_count d)" 
      using that(2) by (simp add: word_less_nat_alt unsigned_ucast_eq) (erule order_less_le_trans, rule take_bit_nat_less_eq_self)
    then have s: "unat b + unat (br_base d) < unat size' div 2"
      "d = d1 \<and> unat b + unat (br_base d) < 3 \<or> d = d2 \<and> 3 \<le> unat b + unat (br_base d)"
      using that(1) p c by auto
    have "unat (ucast b :: u16) = unat b" using s(1) assms(2) by (simp add: unsigned_ucast_eq take_bit_nat_eq_self)
    then have "unat (ucast b + br_base d) = unat b + unat (br_base d)" using s(1) assms(2) by (simp add: unat_word_ariths)
    then have "unat (rpmb_addr d b) = 2 * (unat b + unat (br_base d))"
      using s(1) assms(2) unfolding rpmb_addr_def by (subst unat_word_ariths) simp
    then show ?thesis using s by blast
  qed
  note x = addr [OF assms(3,5)] and y = addr [OF assms(4,6)]
  have u: "unat b \<noteq> unat b'" if "b \<noteq> b'" using that by (simp add: word_unat_eq_iff)
  have n: "unat b + unat (br_base d) \<noteq> unat b' + unat (br_base d')" if "d \<noteq> d' \<or> b \<noteq> b'"
  proof (cases "d = d'")
    case True
    then show ?thesis using that u by simp
  next
    case False
    then show ?thesis using x y by auto
  qed
  have "2 * i + 2 \<le> k" if "i < k div 2" for i k :: nat using that by presburger
  from this [OF conjunct1 [OF conjunct2 [OF x]]] have e: "unat (rpmb_addr d b) + 2 \<le> unat size'"
    unfolding conjunct1 [OF x] .
  have "2 * i + 2 \<le> 2 * j \<or> 2 * j + 2 \<le> 2 * i" if "i \<noteq> j" for i j :: nat using that by linarith
  note this [OF n, folded conjunct1 [OF x] conjunct1 [OF y]]
  then show ?thesis using conjunct1 [OF x] e by blast
qed

theorem rpmb_partition_disjoint_witness:
  "\<exists>d2 d1. rpmb_partition 65536 = Some (d2, d1) \<and> unat (rpmb_addr d2 32764) = 65534 \<and> unat (rpmb_addr d1 1) + 2 \<le> unat (rpmb_addr d2 32764)"
proof -
  let ?d2 = "\<lparr>br_block_count = 32765, br_base = 3\<rparr>" and ?d1 = "\<lparr>br_block_count = 2, br_base = 1\<rparr>"
  have p: "rpmb_partition 65536 = Some (?d2, ?d1)" by (simp add: rpmb_partition_def block_device_tipc_init_dev_rpmb_def)
  show ?thesis
    using rpmb_partition_disjoint [OF p, of ?d2 ?d1 32764 1] rpmb_partition_disjoint [OF p, of ?d1 ?d2 1 32764] p by simp
qed

end
