(* ===== verification/Spec2Isabelle.thy ===== *)
theory Spec2Isabelle
  imports Bitmap Ipc_Faults Sys_Reach Tipc_Props Virtio Rpmb_Dev
begin

text \<open>
  A verification library for the Trusty operating system of this repository: its inter-process
  communication, from the system calls of an application to the virtio device through which the
  non-secure world (Linux) talks to the same ports and channels; and the tamper-proof memory of its
  storage service.

  \<^bold>\<open>The program.\<close> \<^verbatim>\<open>src/lk/trusty/lib/trusty\<close> is the kernel part of Trusty. \<^verbatim>\<open>ipc.c\<close> has ports (named, published
  by servers) and channels (pairs of ends, one at a client and one at a server), both reached
  through the reference-counted handles of \<^verbatim>\<open>handle.c\<close>. Each connected end owns a queue of messages
  (\<^verbatim>\<open>ipc_msg.c\<close>), which are copied in and out with the segment arrays of \<^verbatim>\<open>iovec.c\<close>. An application holds its
  handles in the table of \<^verbatim>\<open>uctx.c\<close> and works through the system calls. The TIPC device (\<^verbatim>\<open>tipc_dev.c\<close>) is a
  client of the same ports on behalf of the non-secure world: a receive thread takes buffers from one
  ring of \<^verbatim>\<open>vqueue.c\<close> and sends their contents to channels, a transmit thread waits on all the device's
  channels and puts what they deliver into the other ring. \<^verbatim>\<open>trusty_virtio.c\<close> is the bus that
  announces, starts and stops the devices. The storage service (\<^verbatim>\<open>src/app/storage\<close>) is an application that keeps its
  data with a proxy in the non-secure world, and what must not be rolled back in the replay protected memory of the
  eMMC (\<^verbatim>\<open>rpmb.c\<close>), which it reaches through the same proxy.

  \<^bold>\<open>Theories and sources.\<close>
  \<^item> \<open>Trusty_Prelude\<close>: words, errors (\<^verbatim>\<open>err.h\<close>), lists, little-endian encoding; \<open>Bitmap\<close>: \<^verbatim>\<open>bits.h\<close>.
  \<^item> \<open>Uio\<close>: \<^verbatim>\<open>iovec.c\<close>, with kernel memory as a function and user memory as a partial one.
  \<^item> \<open>Ipc_Msg\<close>: the queue part of \<^verbatim>\<open>ipc_msg.c\<close>, and its refinement to a FIFO of payloads.
  \<^item> \<open>Ipc_State\<close>, \<open>Ipc\<close>: the state of \<^verbatim>\<open>ipc.c\<close>, \<^verbatim>\<open>handle.c\<close>, \<^verbatim>\<open>reflist.h\<close> and \<^verbatim>\<open>tipc_config.c\<close> and one definition per function.
    Ports and channels are maps from addresses; a failed assertion, a null or dangling pointer and
    an underflow of a reference count set the flag \<open>faulted\<close>, which nothing clears. Allocations
    succeed or fail as a script in the state says, so every theorem covers every failure.
  \<^item> \<open>Ipc_Inv\<close>, \<open>Ipc_Change\<close>, \<open>Ipc_Safe\<close>, \<open>Ipc_Setup\<close>, \<open>Ipc_Reach\<close>: the invariant that accounts for every reference by its
    holder, its preservation by every operation, and the step relation \<open>kstep\<close> with \<open>kreach\<close>; \<open>Ipc_Props\<close>,
    \<open>Ipc_Flow\<close>, \<open>Ipc_Faults\<close>: what follows for safety, release of resources, delivery, wake-ups and access checks,
    and three calls that do fault. \<open>Ipc_Frame\<close>: the locale \<open>kst_frame\<close> of what an operation leaves alone.
  \<^item> \<open>Handle_Wait\<close>: waiting in \<^verbatim>\<open>handle.c\<close>; what other threads do while a call waits is a list of transformers.
  \<^item> \<open>Uctx\<close>, \<open>Ipc_Syscall\<close>, \<open>Sys_Reach\<close>: \<^verbatim>\<open>uctx.c\<close>, the system calls of \<^verbatim>\<open>ipc.c\<close> and \<^verbatim>\<open>ipc_msg.c\<close>, and runs of an application.
  \<^item> \<open>Vqueue\<close>, \<open>Vqueue_Ring\<close>: \<^verbatim>\<open>vqueue.c\<close> and mapping in \<^verbatim>\<open>vmm.c\<close>; each load from a ring is its own value of a \<open>ns_view\<close>, since the
    non-secure world may write between two loads.
  \<^item> \<open>Tipc_Dev\<close>, \<open>Tipc_Ept\<close>, \<open>Tipc_Safe\<close>, \<open>Tipc_Props\<close>: \<^verbatim>\<open>tipc_dev.c\<close>, its endpoint table, the invariant that ties the table to
    references of the IPC state, and the properties of both threads, probe and reset.
  \<^item> \<open>Virtio\<close>: \<^verbatim>\<open>trusty_virtio.c\<close>; the contract of a device is the locale \<open>vdev_device\<close>, met by the TIPC device.
  \<^item> \<open>Storage_Proxy\<close>, \<open>Rpmb\<close>, \<open>Rpmb_Dev\<close>: of \<^verbatim>\<open>src/app/storage\<close>, the synchronous request of \<^verbatim>\<open>ipc.c\<close>, \<^verbatim>\<open>tipc_ns.c\<close>, \<^verbatim>\<open>rpmb.c\<close> and the block devices of
    \<^verbatim>\<open>block_device_tipc.c\<close>. The proxy is a function of all that was sent, so it may replay and forge; the keyed hash is a parameter,
    and that its tags cannot be forged is a hypothesis of the one theorem that needs it.

  \<^bold>\<open>What is shown.\<close> Any run of the operations of \<^verbatim>\<open>ipc.c\<close> keeps the invariant, hence never faults, except in the
  situations that the step relation excludes and that \<open>Ipc_Faults\<close> shows to fault. The same holds for any sequence of
  system calls of an application, with any arguments and memory, and for both threads of the TIPC device
  whatever the non-secure world writes, when its descriptor lengths can be rounded up to pages. All
  references are given back when an application ends or the device is reset. Messages arrive
  unchanged, in order, at the right endpoint; senders that were blocked and peers of closed channels
  are woken. The rest shows the contracts of the parts: queues, segments, tables, rings, the bus. What the storage service reads from
  the replay protected memory is authentic and fresh, each write signs one command for the current counter, and the
  size of the memory is found exactly; but the counter itself is taken over before it is checked.

  \<^bold>\<open>Termination and bounds.\<close> All functions are total. Loops over lists are structural. Loops that wait take the list of
  wake-ups as an argument and give \<open>Blocked\<close> when it ends, and the liveness properties say from which
  wake-up on they have returned. The chain of descriptors is followed with the room in the buffer as
  measure. The search for the size of the memory has a number of passes, of which 65537 are enough since each
  pass narrows the range; for an empty memory no number is. Words keep their width: 32-bit addresses and sizes, 16-bit ring indices that wrap.

  \<^bold>\<open>Not modelled.\<close> Locks and preemption: an operation under the IPC lock is one step, and the places where it is
  released and a thread waits are where others act. Traces and statistics. Page tables and caches: an address
  space is its list of regions. The file system of the storage service (trees, cache and transactions over shared
  blocks: a development of its own). \<^verbatim>\<open>handle_set.c\<close> and \<^verbatim>\<open>tipc_dev_ql.c\<close> (not part of this build or an alternative to the
  rings), the loader \<^verbatim>\<open>trusty_app.c\<close> and \<^verbatim>\<open>uthread\<close> (they work on page tables and register frames), \<^verbatim>\<open>sm.c\<close> (per-CPU threads
  and interrupts in assembly), the vendored kernel in \<^verbatim>\<open>src/external/lk\<close> but for the headers and the functions of
  \<^verbatim>\<open>vmm.c\<close> named above, the libraries in \<^verbatim>\<open>src/lib\<close>, the C++ applications keymaster and gatekeeper, the samples, and
  the platform code under \<^verbatim>\<open>src/vendor\<close> and \<^verbatim>\<open>src/device\<close> (registers of hardware).
\<close>

end
